(* ===== verification/Prelude.thy ===== *)
theory Prelude
  imports Main "HOL-Library.AList" "HOL-Library.Sublist"
begin

text \<open>
  Shared vocabulary of the development: the Go types that every component uses, the lemma
  collections that carry the component proofs, and generic facts on association lists,
  buffered reads and option chains.

  Go strings and byte slices are both \<^typ>\<open>string\<close>: a HOL \<^typ>\<open>char\<close> is exactly one
  byte, so the conversions \<open>[]byte(s)\<close> and \<open>string(b)\<close> of the source are identities.
  A \<open>time.Time\<close> is the number of nanoseconds since the Unix epoch and a \<open>time.Duration\<close>
  is a number of nanoseconds; where the width of an integer decides the outcome (the
  exponential back-off of the peers) the computation is on \<open>64 word\<close> instead.
\<close>

type_synonym bytes = string
type_synonym time = int
type_synonym duration = int
type_synonym int64 = int

named_theorems fs_simps \<open>equations of the file system primitives\<close>
named_theorems store_defs \<open>definitions of the storage operations\<close>
named_theorems step_defs \<open>state updates of the transition systems\<close>

section \<open>Association lists\<close>

text \<open>
  Directories and Go maps are association lists: a look-up is \<^const>\<open>map_of\<close>, and the
  order of the list is the order in which the runtime enumerates the entries.
\<close>

lemma map_of_update [simp]: "map_of (AList.update k v al) = (map_of al)(k \<mapsto> v)"
  by (simp add: update_conv')

lemma map_of_delete [simp]: "map_of (AList.delete k al) = (map_of al)(k := None)"
  by (simp add: delete_conv')

lemma map_of_map_entry [simp]:
  "map_of (AList.map_entry k f al) = (\<lambda>x. if x = k then map_option f (map_of al k) else map_of al x)"
  by (induction al) (auto simp: fun_eq_iff)

lemma map_of_eq_None_fst: "map_of al k = None \<longleftrightarrow> k \<notin> fst ` set al"
  by (simp add: map_of_eq_None_iff)

lemma alist_update_new: "k \<notin> fst ` set al \<Longrightarrow> AList.update k v al = al @ [(k, v)]"
  by (induction al) auto

section \<open>Reading through a fixed buffer\<close>

text \<open>
  The loops \<open>for { n, err := r.Read(buf); ... }\<close> of the source hand out the content of a
  file in pieces of at most \<open>len(buf)\<close> bytes until \<open>io.EOF\<close>.
\<close>

function chunks :: "nat \<Rightarrow> 'a list \<Rightarrow> 'a list list" where
  "chunks n xs = (if n = 0 \<or> xs = [] then [] else take n xs # chunks n (drop n xs))"
  by pat_completeness auto
termination
  by (relation "measure (\<lambda>(n, xs). length xs)") auto

declare chunks.simps [simp del]

lemma chunks_Nil [simp]: "chunks n [] = []"
  by (simp add: chunks.simps)

lemma chunks_Cons: "0 < n \<Longrightarrow> xs \<noteq> [] \<Longrightarrow> chunks n xs = take n xs # chunks n (drop n xs)"
  by (simp add: chunks.simps)

lemma concat_chunks [simp]: "0 < n \<Longrightarrow> concat (chunks n xs) = xs"
proof (induction n xs rule: chunks.induct)
  case (1 n xs)
  then show ?case by (cases "xs = []") (simp_all add: chunks_Cons)
qed

lemma chunks_bounds: "c \<in> set (chunks n xs) \<Longrightarrow> c \<noteq> [] \<and> length c \<le> n"
proof (induction n xs rule: chunks.induct)
  case (1 n xs)
  show ?case
  proof (cases "n = 0 \<or> xs = []")
    case True
    with "1.prems" show ?thesis by (simp add: chunks.simps [of n xs])
  next
    case False
    with "1.prems" consider "c = take n xs" | "c \<in> set (chunks n (drop n xs))"
      by (auto simp: chunks.simps [of n xs])
    then show ?thesis using False "1.IH" by cases auto
  qed
qed

text \<open>The number of reads is bounded by the size of the content, so the loops end.\<close>

lemma length_chunks: "0 < n \<Longrightarrow> length (chunks n xs) \<le> length xs"
proof (induction n xs rule: chunks.induct)
  case (1 n xs)
  show ?case
  proof (cases "xs = []")
    case False
    with "1.IH" "1.prems" have "length (chunks n (drop n xs)) \<le> length xs - n" by simp
    moreover have "0 < length xs" using False by simp
    ultimately have "Suc (length (chunks n (drop n xs))) \<le> length xs"
      using "1.prems" by linarith
    then show ?thesis using False "1.prems" by (simp add: chunks_Cons)
  qed simp
qed

section \<open>Filtering maps\<close>

lemma in_map_filter: "m \<in> set (List.map_filter f ns) \<longleftrightarrow> (\<exists>n \<in> set ns. f n = Some m)"
  by (induction ns) (auto simp: List.map_filter_simps split: option.splits)

lemma distinct_map_filter:
  assumes "distinct ns" and "\<And>n n' m m'. n \<in> set ns \<Longrightarrow> n' \<in> set ns \<Longrightarrow> f n = Some m \<Longrightarrow> f n' = Some m' \<Longrightarrow>
    g m = g m' \<Longrightarrow> n = n'"
  shows "distinct (map g (List.map_filter f ns))"
  using assms
proof (induction ns)
  case Nil
  then show ?case by (simp add: List.map_filter_def)
next
  case (Cons n ns)
  have ih: "distinct (map g (List.map_filter f ns))"
    by (rule Cons.IH) (use Cons.prems in auto)
  have "g m \<noteq> g m'" if "f n = Some m" "m' \<in> set (List.map_filter f ns)" for m m'
    using that Cons.prems unfolding in_map_filter by (metis distinct.simps(2) list.set_intros)
  with ih show ?case by (cases "f n") (auto simp: List.map_filter_simps)
qed

end
