(* ===== verification/Sha256.thy ===== *)
theory Sha256
  imports Prelude "HOL-Library.Word"
begin

text \<open>
  The hash function of Go's \<^verbatim>\<open>crypto/sha256\<close> as the source uses it: \<open>sha256.New\<close>,
  \<open>Write\<close>, \<open>Sum(nil)\<close> and \<open>Sum256\<close>.  \<open>sha256\<close> is FIPS 180-4 on byte strings;
  the streaming interface keeps the bytes written so far, which is what \<open>Sum\<close> is
  specified to hash.
\<close>

unbundle bit_operations_syntax

type_synonym w32 = "32 word"

section \<open>The compression function\<close>

definition sha_k :: "w32 list" where
  "sha_k =
    [1116352408, 1899447441, 3049323471, 3921009573, 961987163, 1508970993, 2453635748, 2870763221,
     3624381080, 310598401, 607225278, 1426881987, 1925078388, 2162078206, 2614888103, 3248222580,
     3835390401, 4022224774, 264347078, 604807628, 770255983, 1249150122, 1555081692, 1996064986,
     2554220882, 2821834349, 2952996808, 3210313671, 3336571891, 3584528711, 113926993, 338241895,
     666307205, 773529912, 1294757372, 1396182291, 1695183700, 1986661051, 2177026350, 2456956037,
     2730485921, 2820302411, 3259730800, 3345764771, 3516065817, 3600352804, 4094571909, 275423344,
     430227734, 506948616, 659060556, 883997877, 958139571, 1322822218, 1537002063, 1747873779,
     1955562222, 2024104815, 2227730452, 2361852424, 2428436474, 2756734187, 3204031479, 3329325298]"

definition sha_init :: "w32 list" where
  "sha_init = [1779033703, 3144134277, 1013904242, 2773480762,
               1359893119, 2600822924, 528734635, 1541459225]"

definition sha_s0 :: "w32 \<Rightarrow> w32" where
  "sha_s0 x = word_rotr 7 x XOR word_rotr 18 x XOR drop_bit 3 x"

definition sha_s1 :: "w32 \<Rightarrow> w32" where
  "sha_s1 x = word_rotr 17 x XOR word_rotr 19 x XOR drop_bit 10 x"

definition sha_S0 :: "w32 \<Rightarrow> w32" where
  "sha_S0 x = word_rotr 2 x XOR word_rotr 13 x XOR word_rotr 22 x"

definition sha_S1 :: "w32 \<Rightarrow> w32" where
  "sha_S1 x = word_rotr 6 x XOR word_rotr 11 x XOR word_rotr 25 x"

text \<open>The message schedule is built with the newest word first.\<close>

primrec sha_sched :: "nat \<Rightarrow> w32 list \<Rightarrow> w32 list" where
  "sha_sched 0 ws = ws"
| "sha_sched (Suc n) ws =
     sha_sched n ((sha_s1 (ws ! 1) + ws ! 6 + sha_s0 (ws ! 14) + ws ! 15) # ws)"

fun sha_round :: "w32 \<times> w32 \<Rightarrow> w32 list \<Rightarrow> w32 list" where
  "sha_round (k, w) [a, b, c, d, e, f, g, h] =
     (let t1 = h + sha_S1 e + ((e AND f) XOR (NOT e AND g)) + k + w;
          t2 = sha_S0 a + ((a AND b) XOR (a AND c) XOR (b AND c))
      in [t1 + t2, a, b, c, d + t1, e, f, g])"
| "sha_round _ st = st"

definition sha_block :: "w32 list \<Rightarrow> w32 list \<Rightarrow> w32 list" where
  "sha_block st blk =
     (let ws = rev (sha_sched 48 (rev blk))
      in map2 (+) st (fold sha_round (zip sha_k ws) st))"

section \<open>Padding and the digest\<close>

fun be_words :: "bytes \<Rightarrow> w32 list" where
  "be_words (a # b # c # d # r) =
     (push_bit 24 (of_char a) OR push_bit 16 (of_char b) OR push_bit 8 (of_char c) OR of_char d)
     # be_words r"
| "be_words _ = []"

definition be_bytes :: "nat \<Rightarrow> nat \<Rightarrow> bytes" where
  "be_bytes n v = map (\<lambda>i. char_of (v div 256 ^ (n - 1 - i))) [0..<n]"

definition sha_pad :: "bytes \<Rightarrow> bytes" where
  "sha_pad bs =
     (let n = length bs
      in bs @ [char_of (128 :: nat)] @ replicate ((119 - n mod 64) mod 64) (char_of (0 :: nat))
         @ be_bytes 8 (8 * n))"

definition sha256 :: "bytes \<Rightarrow> bytes" where
  "sha256 bs =
     concat (map (\<lambda>w. be_bytes 4 (unat w))
       (fold (\<lambda>blk st. sha_block st blk) (chunks 16 (be_words (sha_pad bs))) sha_init))"

section \<open>The streaming interface\<close>

record hash =
  hash_buf :: bytes

definition hash_new :: hash where
  "hash_new = \<lparr>hash_buf = []\<rparr>"

definition hash_write :: "hash \<Rightarrow> bytes \<Rightarrow> hash" where
  "hash_write h p = h\<lparr>hash_buf := hash_buf h @ p\<rparr>"

definition hash_sum :: "hash \<Rightarrow> bytes" where
  "hash_sum h = sha256 (hash_buf h)"

lemma hash_new_buf [simp]: "hash_buf hash_new = []"
  by (simp add: hash_new_def)

lemma hash_write_buf [simp]: "hash_buf (hash_write h p) = hash_buf h @ p"
  by (simp add: hash_write_def)

lemma fold_hash_write: "hash_buf (fold (\<lambda>p h. hash_write h p) ps h) = hash_buf h @ concat ps"
  by (induction ps arbitrary: h) simp_all

text \<open>Hashing a file through a buffer gives the hash of its content.\<close>

lemma hash_sum_chunks:
  "0 < n \<Longrightarrow> hash_sum (fold (\<lambda>p h. hash_write h p) (chunks n bs) hash_new) = sha256 bs"
  by (simp add: hash_sum_def fold_hash_write)

text \<open>The digest has 32 bytes.\<close>

lemma sha_round_length [simp]: "length (sha_round kw st) = length st"
  by (cases "(kw, st)" rule: sha_round.cases) (simp_all add: Let_def)

lemma fold_sha_round_length [simp]: "length (fold sha_round kws st) = length st"
  by (induction kws arbitrary: st) simp_all

lemma fold_sha_block_length: "length (fold (\<lambda>blk st. sha_block st blk) bs st) = length st"
  by (induction bs arbitrary: st) (simp_all add: sha_block_def Let_def)

lemma length_sha256 [simp]: "length (sha256 bs) = 32"
proof -
  have "length (concat (map (\<lambda>w. be_bytes 4 (unat w)) ws)) = 4 * length ws" for ws :: "w32 list"
    by (induction ws) (simp_all add: be_bytes_def)
  then show ?thesis by (simp add: sha256_def fold_sha_block_length sha_init_def)
qed

end
