(* ===== verification/GoTime.thy ===== *)
theory GoTime
  imports Prelude
begin

text \<open>
  What the source uses of Go's \<^verbatim>\<open>time\<close> and \<^verbatim>\<open>fmt\<close> packages: decimal printing,
  \<open>Time.Add\<close>, \<open>Before\<close>, \<open>After\<close>, \<open>Sub\<close>, \<open>IsZero\<close>, and
  \<open>Format("20060102150405.999999999")\<close> on a UTC time.  The calendar computation is the
  one of Go's \<open>absDate\<close>.  The lemmas show that each printed form determines the printed
  value, which is what the message hash relies on.
\<close>

section \<open>Decimal numbers\<close>

definition digit :: "nat \<Rightarrow> char" where
  "digit n = char_of (48 + n)"

fun dec :: "nat \<Rightarrow> string" where
  "dec n = (if n < 10 then [digit n] else dec (n div 10) @ [digit (n mod 10)])"

declare dec.simps [simp del]

definition itoa :: "int \<Rightarrow> string" where
  "itoa i = (if i < 0 then CHR ''-'' # dec (nat (- i)) else dec (nat i))"

definition dec_val :: "string \<Rightarrow> nat" where
  "dec_val s = foldl (\<lambda>a c. 10 * a + (of_char c - 48)) 0 s"

lemma of_char_digit: "n < 10 \<Longrightarrow> of_char (digit n) = 48 + n"
  by (simp add: digit_def)

lemma dec_val_snoc [simp]: "dec_val (s @ [c]) = 10 * dec_val s + (of_char c - 48)"
  by (simp add: dec_val_def)

lemma dec_val_dec [simp]: "dec_val (dec n) = n"
proof (induction n rule: dec.induct)
  case (1 n)
  show ?case
  proof (cases "n < 10")
    case True
    then show ?thesis
      using dec_val_snoc [of "[]" "digit n"]
      by (simp add: dec.simps [of n] of_char_digit dec_val_def)
  next
    case False
    with "1.IH" have "dec_val (dec (n div 10)) = n div 10" by simp
    with False show ?thesis by (simp add: dec.simps [of n] of_char_digit)
  qed
qed

lemma dec_inject [simp]: "dec m = dec n \<longleftrightarrow> m = n"
  by (metis dec_val_dec)

lemma dec_val_zeros [simp]: "dec_val (replicate k (CHR ''0'') @ s) = dec_val s"
proof -
  have "foldl (\<lambda>a c. 10 * a + (of_char c - 48)) 0 (replicate k (CHR ''0'')) = (0 :: nat)"
    by (induction k) simp_all
  then show ?thesis by (simp add: dec_val_def)
qed

lemma dec_chars: "c \<in> set (dec n) \<Longrightarrow> 48 \<le> (of_char c :: nat) \<and> of_char c \<le> (57 :: nat)"
proof (induction n rule: dec.induct)
  case (1 n)
  show ?case
  proof (cases "n < 10")
    case True
    with "1.prems" show ?thesis by (simp add: dec.simps [of n] of_char_digit)
  next
    case False
    with "1.prems" consider "c \<in> set (dec (n div 10))" | "c = digit (n mod 10)"
      by (auto simp: dec.simps [of n])
    then show ?thesis
    proof cases
      case 1
      with "1.IH" False show ?thesis by blast
    next
      case 2
      have "n mod 10 < 10" by simp
      then show ?thesis unfolding 2 by (simp add: of_char_digit)
    qed
  qed
qed

lemma dec_no_minus: "CHR ''-'' \<notin> set (dec n)"
  using dec_chars [of "CHR ''-''" n] by auto

lemma length_dec_le: "n < 10 ^ w \<Longrightarrow> 0 < w \<Longrightarrow> length (dec n) \<le> w"
proof (induction w arbitrary: n)
  case (Suc w)
  show ?case
  proof (cases "n < 10")
    case False
    with Suc.prems have "n div 10 < 10 ^ w" and "0 < w"
      by (auto intro: less_mult_imp_div_less gr0I)
    with Suc.IH have "length (dec (n div 10)) \<le> w" by blast
    with False show ?thesis by (simp add: dec.simps [of n])
  qed (simp add: dec.simps [of n])
qed simp

lemma itoa_inject [simp]: "itoa i = itoa j \<longleftrightarrow> i = j"
proof
  assume eq: "itoa i = itoa j"
  have neq: "dec n \<noteq> CHR ''-'' # s" for s n
  proof
    assume "dec n = CHR ''-'' # s"
    then have "CHR ''-'' \<in> set (dec n)" by simp
    with dec_no_minus show False by blast
  qed
  show "i = j"
  proof (cases "i < 0"; cases "j < 0")
    assume "i < 0" "j < 0" with eq show ?thesis by (simp add: itoa_def)
  next
    assume "i < 0" "\<not> j < 0" with eq neq show ?thesis by (metis itoa_def)
  next
    assume "\<not> i < 0" "j < 0" with eq neq show ?thesis by (metis itoa_def)
  next
    assume "\<not> i < 0" "\<not> j < 0" with eq show ?thesis by (simp add: itoa_def)
  qed
qed simp

lemma itoa_chars: "c \<in> set (itoa i) \<Longrightarrow> 45 \<le> (of_char c :: nat)"
  using dec_chars [of c "nat i"] dec_chars [of c "nat (- i)"]
  by (auto simp: itoa_def split: if_splits)

section \<open>Time arithmetic\<close>

definition zero_time :: time where
  "zero_time = - 62135596800000000000"

definition IsZero :: "time \<Rightarrow> bool" where
  "IsZero t \<longleftrightarrow> t = zero_time"

definition max_duration :: duration where
  "max_duration = 9223372036854775807"

text \<open>\<open>t.Sub(u)\<close> saturates at the ends of the \<open>int64\<close> range.\<close>

definition Sub :: "time \<Rightarrow> time \<Rightarrow> duration" where
  "Sub t u = max (- max_duration - 1) (min max_duration (t - u))"

abbreviation (input) second :: duration where
  "second \<equiv> 1000000000"

section \<open>The calendar\<close>

text \<open>\<open>absDate\<close>: the year and the day of the year of a day number counted from 1 January 1.\<close>

definition year_yday :: "int \<Rightarrow> int \<times> int" where
  "year_yday D =
    (let n400 = D div 146097; d = D mod 146097;
         n100 = d div 36524 - d div 36524 div 4; d = d - 36524 * n100;
         n4 = d div 1461; d = d - 1461 * n4;
         n1 = d div 365 - d div 365 div 4
     in (400 * n400 + 100 * n100 + 4 * n4 + n1 + 1, d - 365 * n1))"

definition isLeap :: "int \<Rightarrow> bool" where
  "isLeap y \<longleftrightarrow> y mod 4 = 0 \<and> (y mod 100 \<noteq> 0 \<or> y mod 400 = 0)"

definition daysBefore :: "nat \<Rightarrow> int" where
  "daysBefore m = [0, 31, 59, 90, 120, 151, 181, 212, 243, 273, 304, 334, 365] ! m"

definition month_day :: "bool \<Rightarrow> int \<Rightarrow> int \<times> int" where
  "month_day leap yday =
    (if leap \<and> yday = 59 then (2, 29)
     else let day = (if leap \<and> yday > 59 then yday - 1 else yday);
              month = day div 31;
              month' = (if day \<ge> daysBefore (Suc (nat month)) then month + 1 else month)
          in (month' + 1, day - daysBefore (nat month') + 1))"

definition appendInt :: "nat \<Rightarrow> nat \<Rightarrow> string" where
  "appendInt w n = replicate (w - length (dec n)) (CHR ''0'') @ dec n"

text \<open>\<open>formatNano\<close> with trailing zeros (and then the dot) removed.\<close>

definition frac9 :: "nat \<Rightarrow> string" where
  "frac9 n = (if n = 0 then []
              else CHR ''.'' # rev (dropWhile (\<lambda>c. c = CHR ''0'') (rev (appendInt 9 n))))"

definition Format :: "time \<Rightarrow> string" where
  "Format t =
    (let secs = t div second; ns = t mod second;
         D = secs div 86400 + 719162; s = secs mod 86400;
         (year, yday) = year_yday D; (month, day) = month_day (isLeap year) yday
     in (if year < 0 then ''-'' else '''') @ appendInt 4 (nat \<bar>year\<bar>) @ appendInt 2 (nat month)
        @ appendInt 2 (nat day) @ appendInt 2 (nat (s div 3600)) @ appendInt 2 (nat (s mod 3600 div 60))
        @ appendInt 2 (nat (s mod 60)) @ frac9 (nat ns))"

lemma dec_val_appendInt [simp]: "dec_val (appendInt w n) = n"
  by (simp add: appendInt_def)

lemma length_appendInt: "n < 10 ^ w \<Longrightarrow> 0 < w \<Longrightarrow> length (appendInt w n) = w"
  using length_dec_le [of n w] by (simp add: appendInt_def)

lemma appendInt_eq:
  assumes "appendInt w m @ r = appendInt w n @ r'" and "m < 10 ^ w" and "n < 10 ^ w" and "0 < w"
  shows "m = n \<and> r = r'"
proof -
  have "length (appendInt w m) = length (appendInt w n)"
    using assms(2-4) by (simp add: length_appendInt)
  with assms(1) have "appendInt w m = appendInt w n" and "r = r'" by simp_all
  then show ?thesis by (metis dec_val_appendInt)
qed

lemma rev_dropWhile_zeros:
  "\<exists>k. s = rev (dropWhile (\<lambda>c. c = z) (rev s)) @ replicate k z"
proof -
  let ?d = "dropWhile (\<lambda>c. c = z) (rev s)" and ?t = "takeWhile (\<lambda>c. c = z) (rev s)"
  have "\<forall>c \<in> set ?t. c = z" by (auto dest: set_takeWhileD)
  then have t: "replicate (length ?t) z = ?t" by (intro replicate_length_same) simp
  have "rev s = ?t @ ?d" by simp
  then have "s = rev ?d @ rev ?t" by (simp only: rev_swap rev_append)
  also have "rev ?t = replicate (length ?t) z" by (subst t [symmetric]) simp
  finally show ?thesis by blast
qed

lemma frac9_inject:
  assumes "frac9 m = frac9 n" and "m < 10 ^ 9" and "n < 10 ^ 9"
  shows "m = n"
proof -
  define strip where "strip k = rev (dropWhile (\<lambda>c. c = CHR ''0'') (rev (appendInt 9 k)))" for k
  have len: "length (appendInt 9 k) = 9" if "k < 10 ^ 9" for k
    using that by (rule length_appendInt) simp
  have pad: "appendInt 9 k = strip k @ replicate (9 - length (strip k)) (CHR ''0'')"
    if "k < 10 ^ 9" for k
  proof -
    from rev_dropWhile_zeros obtain j where j: "appendInt 9 k = strip k @ replicate j (CHR ''0'')"
      unfolding strip_def ..
    then have "length (appendInt 9 k) = length (strip k) + j"
      by (simp only: length_append length_replicate)
    with len [OF that] have "j = 9 - length (strip k)" by simp
    with j show ?thesis by (simp only:)
  qed
  show ?thesis
  proof (cases "m = 0 \<or> n = 0")
    case True
    with assms(1) show ?thesis by (auto simp: frac9_def split: if_splits)
  next
    case False
    with assms(1) have "strip m = strip n" by (simp add: frac9_def strip_def)
    then have "appendInt 9 m = appendInt 9 n"
      using pad [OF assms(2)] pad [OF assms(3)] by simp
    then show ?thesis by (metis dec_val_appendInt)
  qed
qed

section \<open>The printed date determines the time\<close>

lemma cycle_step:
  fixes e w :: int
  assumes "0 \<le> e" and "e \<le> 4 * w" and "0 < w"
  defines "k \<equiv> e div w - e div w div 4"
  shows "0 \<le> k" and "k \<le> 3" and "0 \<le> e - w * k" and "e - w * k \<le> w"
proof -
  define q where "q = e div w"
  have q0: "0 \<le> q" using assms by (simp add: q_def pos_imp_zdiv_nonneg_iff)
  have "e div w \<le> (4 * w) div w" using assms by (intro zdiv_mono1) simp_all
  then have q4: "q \<le> 4" using assms(3) by (simp add: q_def)
  have e: "e = w * q + e mod w" by (simp add: q_def)
  have r: "0 \<le> e mod w" "e mod w < w" using assms(3) by simp_all
  have kq: "k = q - q div 4" by (simp add: k_def q_def)
  show k: "0 \<le> k" "k \<le> 3" unfolding kq using q0 q4 by presburger+
  consider "q < 4" | "q = 4" using q4 by linarith
  then have "0 \<le> e - w * k \<and> e - w * k \<le> w"
  proof cases
    case 1
    with q0 have "w * k = w * q" by (simp add: kq)
    then show ?thesis using e r by linarith
  next
    case 2
    then have "w * k = 3 * w" and "w * q = 4 * w" by (simp_all add: kq)
    then show ?thesis using e r assms(2) by linarith
  qed
  then show "0 \<le> e - w * k" "e - w * k \<le> w" by simp_all
qed

lemma cycle_sum:
  fixes a b c e d :: int
  shows "146097 * a + 36524 * b + 1461 * c + 365 * e + d
    = 365 * (400 * a + 100 * b + 4 * c + e + 1 - 1) + (100 * a + 25 * b + c) - (4 * a + b) + a + d"
  by simp

lemma year_yday_inv:
  assumes "year_yday D = (y, d)"
  shows "D = 365 * (y - 1) + (y - 1) div 4 - (y - 1) div 100 + (y - 1) div 400 + d"
    and "0 \<le> d" and "d < 366"
proof -
  define e where "e = D mod 146097"
  define n100 where "n100 = e div 36524 - e div 36524 div 4"
  define e1 where "e1 = e - 36524 * n100"
  define n4 where "n4 = e1 div 1461"
  define e2 where "e2 = e1 - 1461 * n4"
  define n1 where "n1 = e2 div 365 - e2 div 365 div 4"
  define n400 where "n400 = D div 146097"
  have y: "y = 400 * n400 + 100 * n100 + 4 * n4 + n1 + 1" and d: "d = e2 - 365 * n1"
  proof -
    have "year_yday D = (400 * n400 + 100 * n100 + 4 * n4 + n1 + 1, e2 - 365 * n1)"
      unfolding year_yday_def Let_def n1_def e2_def n4_def e1_def n100_def e_def n400_def by (rule refl)
    then show "y = 400 * n400 + 100 * n100 + 4 * n4 + n1 + 1" and "d = e2 - 365 * n1"
      by (simp_all only: assms prod.inject)
  qed
  have e: "0 \<le> e" "e < 146097" by (simp_all add: e_def)
  have n100: "0 \<le> n100" "n100 \<le> 3" "0 \<le> e1" "e1 \<le> 36524"
    using cycle_step [of e 36524] e unfolding n100_def e1_def by simp_all
  have e2: "e2 = e1 mod 1461" by (simp add: e2_def n4_def minus_mult_div_eq_mod)
  have n4: "0 \<le> n4" "n4 \<le> 24" "0 \<le> e2" "e2 \<le> 1460"
    using n100 zdiv_mono1 [of e1 36524 1461] unfolding n4_def e2
    by (simp_all add: pos_imp_zdiv_nonneg_iff)
  have n1: "0 \<le> n1" "n1 \<le> 3" "0 \<le> d" "d \<le> 365"
    using cycle_step [of e2 365] n4 unfolding n1_def d by simp_all
  show "0 \<le> d" "d < 366" using n1 by simp_all
  have "D = 146097 * n400 + e" unfolding n400_def e_def by (rule mult_div_mod_eq [symmetric])
  then have D: "D = 146097 * n400 + 36524 * n100 + 1461 * n4 + 365 * n1 + d"
    by (simp only: d e2_def e1_def)
  have q4: "(y - 1) div 4 = 100 * n400 + 25 * n100 + n4"
    using y n1 by (intro int_div_pos_eq [where r = n1]) simp_all
  have q100: "(y - 1) div 100 = 4 * n400 + n100"
    using y n1 n4 by (intro int_div_pos_eq [where r = "4 * n4 + n1"]) simp_all
  have q400: "(y - 1) div 400 = n400"
    using y n1 n4 n100 by (intro int_div_pos_eq [where r = "100 * n100 + 4 * n4 + n1"]) simp_all
  show "D = 365 * (y - 1) + (y - 1) div 4 - (y - 1) div 100 + (y - 1) div 400 + d"
    unfolding q4 q100 q400 unfolding D y by (rule cycle_sum)
qed

definition yday_of :: "bool \<Rightarrow> int \<times> int \<Rightarrow> int" where
  "yday_of leap md = daysBefore (nat (fst md - 1)) + snd md - 1 + (if leap \<and> fst md > 2 then 1 else 0)"

definition month_day_ok :: "bool \<Rightarrow> int \<Rightarrow> bool" where
  "month_day_ok leap d \<longleftrightarrow> (let md = month_day leap d in
     yday_of leap md = d \<and> 0 < fst md \<and> fst md \<le> 13 \<and> 0 < snd md \<and> snd md \<le> 31)"

lemma month_day_table: "list_all (\<lambda>d. month_day_ok True d \<and> month_day_ok False d) [0..365]"
  by code_simp

lemma month_day_inv:
  assumes "0 \<le> d" and "d < 366"
  shows "month_day_ok leap d"
proof -
  have "d \<in> set [0..365]" using assms by simp
  with month_day_table have "month_day_ok True d \<and> month_day_ok False d"
    by (auto simp only: list_all_iff)
  then show ?thesis by (cases leap) simp_all
qed

lemma year_yday_inject:
  assumes "year_yday D = year_yday D'"
  shows "D = D'"
proof -
  obtain y d where yd: "year_yday D = (y, d)" by (cases "year_yday D")
  with assms have "year_yday D' = (y, d)" by simp
  from year_yday_inv(1) [OF yd] year_yday_inv(1) [OF this, symmetric] show ?thesis by (rule trans)
qed

lemma month_day_inject:
  assumes "month_day leap d = month_day leap d'"
    and "0 \<le> d" and "d < 366" and "0 \<le> d'" and "d' < 366"
  shows "d = d'"
proof -
  have "yday_of leap (month_day leap d) = d"
    using month_day_inv [OF assms(2,3), of leap] unfolding month_day_ok_def Let_def by (rule conjunct1)
  moreover have "yday_of leap (month_day leap d') = d'"
    using month_day_inv [OF assms(4,5), of leap] unfolding month_day_ok_def Let_def by (rule conjunct1)
  ultimately show ?thesis unfolding assms(1) by (rule trans [OF sym])
qed

text \<open>The year of a time, and the times whose year prints with exactly four digits.\<close>

definition Year :: "time \<Rightarrow> int" where
  "Year t = fst (year_yday (t div second div 86400 + 719162))"

definition four_digit_year :: "time \<Rightarrow> bool" where
  "four_digit_year t \<longleftrightarrow> 0 \<le> Year t \<and> Year t \<le> 9999"

text \<open>Hours, minutes and seconds determine the second of the day.\<close>

lemma hms_eq:
  fixes x y :: int
  assumes "x div 3600 = y div 3600" and "x mod 3600 div 60 = y mod 3600 div 60"
    and "x mod 60 = y mod 60"
  shows "x = y"
proof -
  have "x mod 3600 mod 60 = y mod 3600 mod 60" using assms(3) by (simp add: mod_mod_cancel)
  with assms(2) have "x mod 3600 = y mod 3600" by (metis mult_div_mod_eq)
  with assms(1) show ?thesis by (metis mult_div_mod_eq)
qed

text \<open>The year and its day, the month and its day, and the second of the day that are printed.\<close>

definition fmt_date :: "time \<Rightarrow> int \<times> int" where
  "fmt_date u = year_yday (u div second div 86400 + 719162)"

definition fmt_month :: "time \<Rightarrow> int \<times> int" where
  "fmt_month u = month_day (isLeap (fst (fmt_date u))) (snd (fmt_date u))"

definition fmt_secs :: "time \<Rightarrow> int" where
  "fmt_secs u = u div second mod 86400"

lemmas fmt_defs = fmt_date_def fmt_month_def fmt_secs_def

lemma Format_fields:
  assumes "four_digit_year u"
  shows "Format u = appendInt 4 (nat (fst (fmt_date u))) @ appendInt 2 (nat (fst (fmt_month u)))
      @ appendInt 2 (nat (snd (fmt_month u))) @ appendInt 2 (nat (fmt_secs u div 3600))
      @ appendInt 2 (nat (fmt_secs u mod 3600 div 60)) @ appendInt 2 (nat (fmt_secs u mod 60))
      @ frac9 (nat (u mod second))"
    and "0 \<le> fst (fmt_date u)" "fst (fmt_date u) < 10000"
  using assms by (auto simp: Format_def Let_def fmt_defs four_digit_year_def Year_def case_prod_beta)

lemma fmt_bounds:
  "0 \<le> snd (fmt_date u)" "snd (fmt_date u) < 366"
  "0 \<le> fst (fmt_month u)" "fst (fmt_month u) < 100" "0 \<le> snd (fmt_month u)" "snd (fmt_month u) < 100"
  "0 \<le> fmt_secs u div 3600" "fmt_secs u div 3600 < 100" "0 \<le> fmt_secs u mod 3600 div 60"
  "fmt_secs u mod 3600 div 60 < 100" "0 \<le> fmt_secs u mod 60" "fmt_secs u mod 60 < 100"
proof -
  show yd: "0 \<le> snd (fmt_date u)" "snd (fmt_date u) < 366"
    using year_yday_inv(2,3) [of _ "fst (fmt_date u)" "snd (fmt_date u)"] by (simp_all add: fmt_date_def)
  show "0 \<le> fst (fmt_month u)" "fst (fmt_month u) < 100" "0 \<le> snd (fmt_month u)" "snd (fmt_month u) < 100"
    using month_day_inv [OF yd, of "isLeap (fst (fmt_date u))"] by (simp_all add: month_day_ok_def fmt_month_def Let_def)
  have hb: "0 \<le> fmt_secs u" "fmt_secs u < 86400" by (simp_all add: fmt_secs_def)
  show "0 \<le> fmt_secs u div 3600" "0 \<le> fmt_secs u mod 3600 div 60" "0 \<le> fmt_secs u mod 60" "fmt_secs u mod 60 < 100"
    using hb(1) pos_mod_bound [of 60 "fmt_secs u"] by (simp_all add: pos_imp_zdiv_nonneg_iff)
  show "fmt_secs u div 3600 < 100" using zdiv_mono1 [of "fmt_secs u" 86400 3600] hb by simp
  show "fmt_secs u mod 3600 div 60 < 100"
    using zdiv_mono1 [of "fmt_secs u mod 3600" 3600 60] pos_mod_bound [of 3600 "fmt_secs u"] by simp
qed

lemma appendInt_2_eq:
  assumes "appendInt 2 (nat i) @ xs = appendInt 2 (nat j) @ ys" and "0 \<le> i" "i < 100" "0 \<le> j" "j < 100"
  shows "i = j" and "xs = ys"
  using appendInt_eq [OF assms(1)] assms(2-5) by (simp_all add: eq_nat_nat_iff)

text \<open>Two times of a four-digit year that print alike are equal.\<close>

lemma Format_inject:
  assumes "Format t = Format t'" and "four_digit_year t" and "four_digit_year t'"
  shows "t = t'"
proof -
  note f = Format_fields [OF assms(2)] and f' = Format_fields [OF assms(3)]
  have y: "nat (fst (fmt_date t)) < 10 ^ 4" "nat (fst (fmt_date t')) < 10 ^ 4" using f(3) f'(3) by simp_all
  have "0 < (4 :: nat)" by simp
  note c1 = appendInt_eq [OF assms(1) [unfolded f(1) f'(1)] y this]
  have Y: "fst (fmt_date t) = fst (fmt_date t')" using c1 f(2) f'(2) by (simp only: eq_nat_nat_iff)
  note c2 = appendInt_2_eq [OF conjunct2 [OF c1] fmt_bounds(3,4,3,4)]
  note c3 = appendInt_2_eq [OF c2(2) fmt_bounds(5,6,5,6)]
  note c4 = appendInt_2_eq [OF c3(2) fmt_bounds(7,8,7,8)]
  note c5 = appendInt_2_eq [OF c4(2) fmt_bounds(9,10,9,10)]
  note c6 = appendInt_2_eq [OF c5(2) fmt_bounds(11,12,11,12)]
  have nb: "nat (u mod second) < 10 ^ 9" for u :: int
    using pos_mod_bound [of second u] by (simp add: nat_less_iff)
  have nanos: "t mod second = t' mod second" using frac9_inject [OF c6(2) nb nb] by simp
  have "fmt_month t = fmt_month t'" using c2(1) c3(1) by (simp only: prod_eq_iff)
  then have "snd (fmt_date t) = snd (fmt_date t')"
    unfolding fmt_month_def Y by (rule month_day_inject) (rule fmt_bounds)+
  with Y have "fmt_date t = fmt_date t'" by (simp add: prod_eq_iff)
  then have days: "t div second div 86400 = t' div second div 86400"
    unfolding fmt_date_def using year_yday_inject by fastforce
  have "fmt_secs t = fmt_secs t'" by (rule hms_eq) (rule c4(1) c5(1) c6(1))+
  then have "t div second = t' div second" using days unfolding fmt_secs_def by (metis mult_div_mod_eq)
  then show ?thesis using nanos by (metis mult_div_mod_eq)
qed


lemma appendInt_chars: "c \<in> set (appendInt w n) \<Longrightarrow> 45 \<le> (of_char c :: nat)"
  using dec_chars [of c n] by (auto simp: appendInt_def)

lemma frac9_chars: "c \<in> set (frac9 n) \<Longrightarrow> 45 \<le> (of_char c :: nat)"
  using appendInt_chars [of c 9 n] by (auto simp: frac9_def dest: set_dropWhileD split: if_splits)

lemma Format_chars: "c \<in> set (Format t) \<Longrightarrow> 45 \<le> (of_char c :: nat)"
  unfolding Format_def Let_def case_prod_beta set_append Un_iff
  by (elim disjE appendInt_chars frac9_chars) (simp split: if_splits)

end
