(* ===== verification/Ifc.thy ===== *)
theory Ifc
  imports Complex_Main Sha256 GoTime
begin

text \<open>
  The interface package (\<^verbatim>\<open>src/ifc\<close>): the message metadata, the registered errors with
  their identifiers and retry actions, and the methods of \<open>Message\<close> (\<open>Hash\<close>,
  \<open>Validate\<close>, \<open>Expired\<close>).

  The values of the Vanadium security library that a message carries (blessings,
  discharges, signatures) are opaque here: they are kept in their wire form and are only
  inspected through parameters, \<open>pk\<close> for \<open>Blessings.PublicKey\<close> (which may be \<open>nil\<close>) and \<open>verify\<close> for
  \<open>Signature.Verify\<close>.
\<close>

type_synonym blessings = bytes
type_synonym discharge = bytes
type_synonym signature = bytes
type_synonym public_key = bytes

record message =
  Hops :: "string list"
  SenderBlessings :: blessings
  SenderDischarges :: "(string \<times> discharge) list"
  Signature :: signature
  Id :: string
  Recipient :: string
  CreationTime :: time
  Lifespan :: duration
  Length :: int64
  Sha256 :: bytes

text \<open>The zero value \<open>ifc.Message{}\<close>.\<close>

definition zero_message :: message where
  "zero_message = \<lparr>Hops = [], SenderBlessings = [], SenderDischarges = [], Signature = [], Id = [], Recipient = [],
     CreationTime = zero_time, Lifespan = 0, Length = 0, Sha256 = []\<rparr>"

section \<open>Errors\<close>

text \<open>
  One constructor per error of the interface, with the arguments of its \<open>NewErr\<close>
  function.  \<open>ErrVerror\<close> is an error of the Vanadium libraries, \<open>ErrOS\<close> a plain Go
  error of the operating system or of a decoder.
\<close>

datatype verror_id = NoExist | BadProtocol | Canceled | NoPermissions | UnknownMethod | BadArg
  | NoAccess | NotTrusted | OtherVerror string

datatype err =
    ErrAlreadySeen string
  | ErrBusy string
  | ErrContentMismatch
  | ErrExpired time duration time
  | ErrIncorrectOffset int64 int64
  | ErrInvalidSignature
  | ErrMessageIdCollision string
  | ErrNoRoute string
  | ErrRateLimitExceeded rat
  | ErrTooBig int64
  | ErrTooManyHops int
  | ErrVerror verror_id
  | ErrOS string

datatype action = NoRetry | RetryConnection | RetryRefetch | RetryBackoff

text \<open>
  \<open>verror.ErrorID\<close>: the registered identifier; \<open>Unknown\<close> for a plain Go error, and the
  empty identifier for \<open>nil\<close>.
\<close>

datatype err_id = IdNil | IdUnknown | IdIfc string | IdVerror verror_id

fun ErrorID :: "err option \<Rightarrow> err_id" where
  "ErrorID None = IdNil"
| "ErrorID (Some (ErrAlreadySeen _)) = IdIfc ''messenger/ifc.AlreadySeen''"
| "ErrorID (Some (ErrBusy _)) = IdIfc ''messenger/ifc.Busy''"
| "ErrorID (Some ErrContentMismatch) = IdIfc ''messenger/ifc.ContentMismatch''"
| "ErrorID (Some (ErrExpired _ _ _)) = IdIfc ''messenger/ifc.Expired''"
| "ErrorID (Some (ErrIncorrectOffset _ _)) = IdIfc ''messenger/ifc.IncorrectOffset''"
| "ErrorID (Some ErrInvalidSignature) = IdIfc ''messenger/ifc.InvalidSignature''"
| "ErrorID (Some (ErrMessageIdCollision _)) = IdIfc ''messenger/ifc.MessageIdCollision''"
| "ErrorID (Some (ErrNoRoute _)) = IdIfc ''messenger/ifc.NoRoute''"
| "ErrorID (Some (ErrRateLimitExceeded _)) = IdIfc ''messenger/ifc.RateLimitExceeded''"
| "ErrorID (Some (ErrTooBig _)) = IdIfc ''messenger/ifc.TooBig''"
| "ErrorID (Some (ErrTooManyHops _)) = IdIfc ''messenger/ifc.TooManyHops''"
| "ErrorID (Some (ErrVerror v)) = IdVerror v"
| "ErrorID (Some (ErrOS _)) = IdUnknown"

text \<open>
  \<open>verror.Action\<close>: the retry action an error was registered with.  The actions of the
  errors of the Vanadium libraries are a parameter \<open>va\<close>; a plain Go error and \<open>nil\<close>
  have \<open>NoRetry\<close>.
\<close>

fun Action :: "(verror_id \<Rightarrow> action) \<Rightarrow> err option \<Rightarrow> action" where
  "Action va (Some (ErrBusy _)) = RetryBackoff"
| "Action va (Some (ErrRateLimitExceeded _)) = RetryBackoff"
| "Action va (Some (ErrVerror v)) = va v"
| "Action va _ = NoRetry"

section \<open>The methods of Message\<close>

abbreviation (input) nl :: char where
  "nl \<equiv> CHR 0x0A"

text \<open>
  \<open>fmt.Fprintf(&buf, "%s\n", n)\<close> with an \<open>int64\<close>: the verb does not fit the operand,
  and \<open>fmt\<close> prints its \<^verbatim>\<open>%!s(int64=n)\<close> form.
\<close>

definition sprint_s_int64 :: "int64 \<Rightarrow> string" where
  "sprint_s_int64 n = ''%!s(int64='' @ itoa n @ '')''"

definition hash_input :: "message \<Rightarrow> bytes" where
  "hash_input m =
     Id m @ [nl] @ Recipient m @ [nl] @ Format (CreationTime m) @ [nl]
     @ sprint_s_int64 (Lifespan m) @ [nl] @ sprint_s_int64 (Length m) @ [nl] @ Sha256 m"

definition Hash :: "message \<Rightarrow> bytes" where
  "Hash m = sha256 (hash_input m)"

definition Expired :: "time \<Rightarrow> message \<Rightarrow> err option" where
  "Expired now m =
     (if CreationTime m + Lifespan m < now
      then Some (ErrExpired (CreationTime m) (Lifespan m) now) else None)"

definition Validate ::
  "(blessings \<Rightarrow> public_key option) \<Rightarrow> (signature \<Rightarrow> public_key option \<Rightarrow> bytes \<Rightarrow> bool) \<Rightarrow> time \<Rightarrow> message \<Rightarrow> err option"
where
  "Validate pk verify now m =
     (if \<not> verify (Signature m) (pk (SenderBlessings m)) (Hash m) then Some ErrInvalidSignature
      else Expired now m)"

section \<open>What the hash covers\<close>

lemma nl_split:
  assumes "a @ [nl] @ r = b @ [nl] @ r'" and "nl \<notin> set a" and "nl \<notin> set b"
  shows "a = b \<and> r = r'"
  using assms
proof (induction a arbitrary: b)
  case Nil
  then show ?case by (cases b) auto
next
  case (Cons x a)
  then show ?case by (cases b) auto
qed

lemma sprint_s_int64_inject [simp]: "sprint_s_int64 i = sprint_s_int64 j \<longleftrightarrow> i = j"
  by (simp add: sprint_s_int64_def)

lemma nl_not_printed: "nl \<notin> set (Format t)" "nl \<notin> set (sprint_s_int64 i)"
  using Format_chars [of nl t] itoa_chars [of nl i] by (auto simp: sprint_s_int64_def)

definition clean :: "message \<Rightarrow> bool" where
  "clean m \<longleftrightarrow> nl \<notin> set (Id m) \<and> nl \<notin> set (Recipient m) \<and> four_digit_year (CreationTime m)"

definition signed_fields :: "message \<Rightarrow> string \<times> string \<times> time \<times> duration \<times> int64 \<times> bytes" where
  "signed_fields m = (Id m, Recipient m, CreationTime m, Lifespan m, Length m, Sha256 m)"

lemma hash_input_inject:
  assumes "hash_input m = hash_input m'" and "clean m" and "clean m'"
  shows "signed_fields m = signed_fields m'"
proof -
  note cl = assms(2,3) [unfolded clean_def]
  note a1 = nl_split [OF assms(1) [unfolded hash_input_def] conjunct1 [OF cl(1)] conjunct1 [OF cl(2)]]
  note a2 = nl_split [OF conjunct2 [OF a1] conjunct1 [OF conjunct2 [OF cl(1)]]
      conjunct1 [OF conjunct2 [OF cl(2)]]]
  note a3 = nl_split [OF conjunct2 [OF a2] nl_not_printed(1) nl_not_printed(1)]
  note a4 = nl_split [OF conjunct2 [OF a3] nl_not_printed(2) nl_not_printed(2)]
  note a5 = nl_split [OF conjunct2 [OF a4] nl_not_printed(2) nl_not_printed(2)]
  have "CreationTime m = CreationTime m'"
    using Format_inject [OF conjunct1 [OF a3]] cl by blast
  with a1 a2 a4 a5 show ?thesis by (simp add: signed_fields_def)
qed

lemma Hash_Hops [simp]: "Hash (m\<lparr>Hops := hs\<rparr>) = Hash m"
  by (simp add: Hash_def hash_input_def)

lemma Expired_Hops [simp]: "Expired now (m\<lparr>Hops := hs\<rparr>) = Expired now m"
  by (simp add: Expired_def)

lemma Expired_None: "Expired now m = None \<longleftrightarrow> now \<le> CreationTime m + Lifespan m"
  by (auto simp: Expired_def)

end
