(* ===== verification/FileSystem.thy ===== *)
theory FileSystem
  imports Ifc
begin

text \<open>
  The part of Go's \<^verbatim>\<open>os\<close> package that the storage uses, below the store directory:
  directories, files as inodes, and an environment that says which system calls fail.
  The lemmas describe each primitive by its effect on \<open>fs_find\<close> (which inode a path
  names) and \<open>fs_read\<close> (which bytes a path holds).
\<close>

section \<open>The file system\<close>

text \<open>
  \<open>fs_dirs\<close> maps a directory to its files, the empty name standing for the store
  directory itself, so that its other keys are the names of the subdirectories; a file
  is an inode, and a file that was removed while it is open keeps its inode.
\<close>

record fs =
  fs_dirs :: "(string \<times> (string \<times> nat) list) list"
  fs_data :: "nat \<Rightarrow> bytes"
  fs_next :: nat

datatype sysop = SysMkdir | SysOpen string | SysCreate string | SysStat string | SysRead string
  | SysWrite string | SysSync | SysClose | SysRemoveAll | SysReaddir

record env =
  now :: time
  fails :: "sysop \<Rightarrow> bool"
  short :: nat

text \<open>\<open>short\<close> is the number of bytes a failing write transfers before it fails.\<close>

definition fs_find :: "fs \<Rightarrow> string \<Rightarrow> string \<Rightarrow> nat option" where
  "fs_find F d n = (case map_of (fs_dirs F) d of None \<Rightarrow> None | Some es \<Rightarrow> map_of es n)"

definition is_dir :: "fs \<Rightarrow> string \<Rightarrow> bool" where
  "is_dir F d \<longleftrightarrow> map_of (fs_dirs F) d \<noteq> None"

text \<open>\<open>os.Stat\<close> succeeds on a file and on a subdirectory of the store directory.\<close>

definition fs_exists :: "fs \<Rightarrow> string \<Rightarrow> string \<Rightarrow> bool" where
  "fs_exists F d n \<longleftrightarrow> fs_find F d n \<noteq> None \<or> (d = '''' \<and> n \<noteq> '''' \<and> is_dir F n)"

definition add_dir :: "string \<Rightarrow> fs \<Rightarrow> fs" where
  "add_dir d F = (if is_dir F d then F else F\<lparr>fs_dirs := fs_dirs F @ [(d, [])]\<rparr>)"

definition fs_mkdirall :: "env \<Rightarrow> fs \<Rightarrow> string \<Rightarrow> err + fs" where
  "fs_mkdirall e F d =
     (if fails e SysMkdir \<or> (d \<noteq> '''' \<and> fs_find F '''' d \<noteq> None) then Inl (ErrOS ''mkdir'')
      else Inr (add_dir d (add_dir '''' F)))"

text \<open>\<open>os.OpenFile\<close> with \<open>O_CREATE\<close>: the inode, allocated when the file is new.\<close>

definition fs_create :: "env \<Rightarrow> fs \<Rightarrow> string \<Rightarrow> string \<Rightarrow> err + (fs \<times> nat)" where
  "fs_create e F d n =
     (if fails e (SysCreate n) then Inl (ErrOS ''open'')
      else case map_of (fs_dirs F) d of
        None \<Rightarrow> Inl (ErrOS ''open'')
      | Some es \<Rightarrow>
          if d = '''' \<and> is_dir F n then Inl (ErrOS ''open'')
          else case map_of es n of
            Some i \<Rightarrow> Inr (F, i)
          | None \<Rightarrow> Inr (F\<lparr>fs_dirs := AList.update d ((n, fs_next F) # es) (fs_dirs F),
                          fs_data := (fs_data F)(fs_next F := []),
                          fs_next := Suc (fs_next F)\<rparr>, fs_next F))"

definition fs_set :: "nat \<Rightarrow> bytes \<Rightarrow> fs \<Rightarrow> fs" where
  "fs_set i b F = F\<lparr>fs_data := (fs_data F)(i := b)\<rparr>"

text \<open>\<open>os.RemoveAll\<close> of an entry of the store directory, or of all of it; it removes all or nothing.\<close>

definition fs_removeall :: "env \<Rightarrow> fs \<Rightarrow> string \<Rightarrow> fs" where
  "fs_removeall e F d =
     (if fails e SysRemoveAll then F
      else if d = '''' then F\<lparr>fs_dirs := []\<rparr>
      else F\<lparr>fs_dirs := AList.map_entry '''' (AList.delete d) (AList.delete d (fs_dirs F))\<rparr>)"

text \<open>The names in the store directory: its files and its subdirectories.\<close>

definition fs_readdir :: "fs \<Rightarrow> string list" where
  "fs_readdir F =
     (case map_of (fs_dirs F) '''' of None \<Rightarrow> [] | Some es \<Rightarrow> map fst es)
     @ filter (\<lambda>d. d \<noteq> '''') (map fst (fs_dirs F))"

text \<open>A write of \<open>p\<close> at position \<open>pos\<close>.\<close>

definition write_at :: "nat \<Rightarrow> bytes \<Rightarrow> bytes \<Rightarrow> bytes" where
  "write_at pos p b =
     take pos b @ replicate (pos - length b) (CHR 0x00) @ p @ drop (pos + length p) b"

section \<open>The view of a path\<close>

definition fs_read :: "fs \<Rightarrow> string \<Rightarrow> string \<Rightarrow> bytes option" where
  "fs_read F d n = map_option (fs_data F) (fs_find F d n)"

definition fs_empty :: fs where
  "fs_empty = \<lparr>fs_dirs = [], fs_data = (\<lambda>_. []), fs_next = 0\<rparr>"

text \<open>No two paths name the same inode, and all inodes in use were allocated.\<close>

definition fs_wf :: "fs \<Rightarrow> bool" where
  "fs_wf F \<longleftrightarrow> (\<forall>d n i. fs_find F d n = Some i \<longrightarrow> i < fs_next F \<and>
     (\<forall>d' n'. fs_find F d' n' = Some i \<longrightarrow> d' = d \<and> n' = n))"

lemma fs_wfD:
  assumes "fs_wf F" and "fs_find F d n = Some i"
  shows "i < fs_next F" and "fs_find F d' n' = Some i \<Longrightarrow> d' = d \<and> n' = n"
  using assms unfolding fs_wf_def by blast+

lemma fs_empty_find [fs_simps]: "fs_find fs_empty d n = None" "is_dir fs_empty d \<longleftrightarrow> False"
  by (simp_all add: fs_empty_def fs_find_def is_dir_def)

lemma fs_find_None: "fs_find F d n = None \<longleftrightarrow> fs_read F d n = None"
  by (simp add: fs_read_def)

lemma fs_wf_empty: "fs_wf fs_empty"
  by (simp add: fs_wf_def fs_simps)

lemma fs_find_dir: "fs_find F d n = Some i \<Longrightarrow> is_dir F d"
  by (auto simp: fs_find_def is_dir_def split: option.splits)

lemma fs_find_set [fs_simps]:
  "fs_find (fs_set i b F) = fs_find F" "is_dir (fs_set i b F) = is_dir F"
  "fs_next (fs_set i b F) = fs_next F" "fs_data (fs_set i b F) = (fs_data F)(i := b)"
  by (auto simp: fs_set_def fs_find_def is_dir_def fun_eq_iff)

lemma fs_wf_set [fs_simps]: "fs_wf (fs_set i b F) \<longleftrightarrow> fs_wf F"
  by (simp add: fs_wf_def fs_simps)

lemma add_dir_find [fs_simps]:
  "fs_find (add_dir x F) = fs_find F" "is_dir (add_dir x F) d \<longleftrightarrow> d = x \<or> is_dir F d"
  "fs_next (add_dir x F) = fs_next F" "fs_data (add_dir x F) = fs_data F"
  by (auto simp: add_dir_def fs_find_def is_dir_def fun_eq_iff map_add_def split: option.splits)

lemma fs_mkdirall_Inr:
  assumes "fs_mkdirall e F d = Inr F'"
  shows "fs_find F' = fs_find F" "is_dir F' x \<longleftrightarrow> x = d \<or> x = '''' \<or> is_dir F x"
    "fs_next F' = fs_next F" "fs_data F' = fs_data F"
  using assms by (auto simp: fs_mkdirall_def fs_simps split: if_splits)

lemma fs_create_Inr:
  assumes "fs_create e F d n = Inr (F', i)"
  obtains (old) "fs_find F d n = Some i" "F' = F"
  | (new) "fs_find F d n = None" "i = fs_next F" "fs_next F' = Suc (fs_next F)"
      "fs_find F' = (\<lambda>d' n'. if d' = d \<and> n' = n then Some i else fs_find F d' n')"
      "is_dir F' = is_dir F" "fs_data F' = (fs_data F)(i := [])"
proof -
  from assms obtain es where es: "map_of (fs_dirs F) d = Some es"
    by (auto simp: fs_create_def split: if_splits option.splits)
  show thesis
  proof (cases "map_of es n")
    case (Some j)
    with assms es show thesis
      by (intro old) (auto simp: fs_create_def fs_find_def split: if_splits)
  next
    case None
    with assms es show thesis
      by (intro new) (auto simp: fs_create_def fs_find_def is_dir_def fun_eq_iff split: if_splits)
  qed
qed

lemma fs_create_is_dir: "fs_create e F d n = Inr r \<Longrightarrow> is_dir F d"
  by (auto simp: fs_create_def is_dir_def split: if_splits option.splits)

lemma fs_create_wf:
  assumes "fs_create e F d n = Inr (F', i)" and "fs_wf F"
  shows "fs_wf F'" and "fs_find F' d n = Some i"
    and "fs_find F' d' n' = (if d' = d \<and> n' = n then Some i else fs_find F d' n')"
    and "is_dir F' = is_dir F" and "fs_next F \<le> fs_next F'" and "i < fs_next F'"
    and "j < fs_next F \<Longrightarrow> fs_data F' j = fs_data F j"
    and "fs_data F' i = (case fs_read F d n of None \<Rightarrow> [] | Some b \<Rightarrow> b)"
proof -
  have "fs_wf F' \<and> fs_find F' d n = Some i
    \<and> fs_find F' d' n' = (if d' = d \<and> n' = n then Some i else fs_find F d' n')
    \<and> is_dir F' = is_dir F \<and> fs_next F \<le> fs_next F' \<and> i < fs_next F'
    \<and> (j < fs_next F \<longrightarrow> fs_data F' j = fs_data F j)
    \<and> fs_data F' i = (case fs_read F d n of None \<Rightarrow> [] | Some b \<Rightarrow> b)"
    using assms(1)
  proof (cases rule: fs_create_Inr)
    case old
    with assms(2) show ?thesis by (auto simp: fs_read_def dest: fs_wfD)
  next
    case new
    have "fs_wf F'" unfolding fs_wf_def new(3,4)
      using fs_wfD [OF assms(2)] by (auto simp: new(2) less_Suc_eq split: if_splits)
    with new show ?thesis by (auto simp: fs_read_def)
  qed
  then show "fs_wf F'" and "fs_find F' d n = Some i"
    and "fs_find F' d' n' = (if d' = d \<and> n' = n then Some i else fs_find F d' n')"
    and "is_dir F' = is_dir F" and "fs_next F \<le> fs_next F'" and "i < fs_next F'"
    and "j < fs_next F \<Longrightarrow> fs_data F' j = fs_data F j"
    and "fs_data F' i = (case fs_read F d n of None \<Rightarrow> [] | Some b \<Rightarrow> b)" by blast+
qed

text \<open>Creating a file and then setting its content, as seen through paths.\<close>

lemma fs_read_create:
  assumes "fs_create e F d n = Inr (F', i)" and "fs_wf F"
  shows "fs_read F' d' n' =
    (if d' = d \<and> n' = n then Some (case fs_read F d n of None \<Rightarrow> [] | Some b \<Rightarrow> b) else fs_read F d' n')"
proof -
  note c = fs_create_wf [OF assms]
  have "fs_data F' j = fs_data F j" if "fs_find F d' n' = Some j" for j
    using c(7) fs_wfD(1) [OF assms(2) that] by blast
  then show ?thesis
    by (cases "fs_find F d' n'") (auto simp: fs_read_def [of F'] fs_read_def [of F d' n'] c(3,8))
qed

lemma fs_read_put:
  assumes "fs_create e F d n = Inr (F', i)" and "fs_wf F"
  shows "fs_read (fs_set i b F') d' n' = (if d' = d \<and> n' = n then Some b else fs_read F d' n')"
proof (cases "d' = d \<and> n' = n")
  case True
  then show ?thesis using fs_create_wf(2) [OF assms] by (simp add: fs_read_def fs_simps)
next
  case False
  then have "fs_find F' d' n' \<noteq> Some i"
    using fs_wfD(2) [OF fs_create_wf(1,2) [OF assms]] by blast
  then have "fs_read (fs_set i b F') d' n' = fs_read F' d' n'"
    by (cases "fs_find F' d' n'") (auto simp: fs_read_def fs_simps)
  with False show ?thesis unfolding fs_read_create [OF assms] by auto
qed

text \<open>Removal takes whole directories away and leaves the rest as it was.\<close>

definition gone :: "env \<Rightarrow> string \<Rightarrow> string \<Rightarrow> bool" where
  "gone e d x \<longleftrightarrow> \<not> fails e SysRemoveAll \<and> (d = '''' \<or> x = d)"

lemma fs_removeall_find:
  "fs_find (fs_removeall e F d) x n =
     (if gone e d x \<or> (x = '''' \<and> gone e d n) then None else fs_find F x n)"
  by (auto simp: fs_removeall_def fs_find_def gone_def split: option.splits)

lemma fs_removeall_dir: "is_dir (fs_removeall e F d) x \<longleftrightarrow> \<not> gone e d x \<and> is_dir F x"
  by (auto simp: fs_removeall_def is_dir_def gone_def split: option.splits)

lemma fs_removeall_keep [simp]:
  "fs_data (fs_removeall e F d) = fs_data F" "fs_next (fs_removeall e F d) = fs_next F"
  by (simp_all add: fs_removeall_def)

lemma write_at_end [simp]: "write_at (length b) p b = b @ p"
  by (simp add: write_at_def)

end
