(* ===== verification/Base64.thy ===== *)
theory Base64
  imports Prelude
begin

text \<open>
  \<open>base64.URLEncoding\<close> of Go's \<^verbatim>\<open>encoding/base64\<close>, which names the directory of a
  message and the file of a peer: the URL alphabet, padding with \<open>=\<close>, and a decoder that
  drops carriage returns and newlines and rejects everything else.  Decoding inverts
  encoding, so different identifiers never share a directory.
\<close>

definition b64_alphabet :: string where
  "b64_alphabet = ''ABCDEFGHIJKLMNOPQRSTUVWXYZabcdefghijklmnopqrstuvwxyz0123456789-_''"

definition b64_char :: "nat \<Rightarrow> char" where
  "b64_char n = b64_alphabet ! n"

fun b64_index :: "nat \<Rightarrow> string \<Rightarrow> char \<Rightarrow> nat option" where
  "b64_index n [] c = None"
| "b64_index n (x # xs) c = (if x = c then Some n else b64_index (Suc n) xs c)"

definition b64_val :: "char \<Rightarrow> nat option" where
  "b64_val c = b64_index 0 b64_alphabet c"

abbreviation (input) pad_char :: char where
  "pad_char \<equiv> CHR ''=''"

abbreviation (input) byte_of :: "char \<Rightarrow> nat" where
  "byte_of c \<equiv> of_char c"

text \<open>Three bytes \<open>a, b, c\<close> are four groups of six bits, and back.\<close>

definition sx1 :: "nat \<Rightarrow> nat" where "sx1 a = a div 4"
definition sx2 :: "nat \<Rightarrow> nat \<Rightarrow> nat" where "sx2 a b = a mod 4 * 16 + b div 16"
definition sx3 :: "nat \<Rightarrow> nat \<Rightarrow> nat" where "sx3 b c = b mod 16 * 4 + c div 64"
definition sx4 :: "nat \<Rightarrow> nat" where "sx4 c = c mod 64"
definition by1 :: "nat \<Rightarrow> nat \<Rightarrow> nat" where "by1 i j = i * 4 + j div 16"
definition by2 :: "nat \<Rightarrow> nat \<Rightarrow> nat" where "by2 j k = j mod 16 * 16 + k div 4"
definition by3 :: "nat \<Rightarrow> nat \<Rightarrow> nat" where "by3 k l = k mod 4 * 64 + l"

fun EncodeToString :: "bytes \<Rightarrow> string" where
  "EncodeToString [] = []"
| "EncodeToString [a] =
     [b64_char (sx1 (byte_of a)), b64_char (sx2 (byte_of a) 0), pad_char, pad_char]"
| "EncodeToString [a, b] =
     [b64_char (sx1 (byte_of a)), b64_char (sx2 (byte_of a) (byte_of b)),
      b64_char (sx3 (byte_of b) 0), pad_char]"
| "EncodeToString (a # b # c # r) =
     b64_char (sx1 (byte_of a)) # b64_char (sx2 (byte_of a) (byte_of b))
     # b64_char (sx3 (byte_of b) (byte_of c)) # b64_char (sx4 (byte_of c)) # EncodeToString r"

fun b64_decode :: "string \<Rightarrow> bytes option" where
  "b64_decode [] = Some []"
| "b64_decode (w # x # y # z # r) =
     (if y = pad_char \<and> z = pad_char \<and> r = [] then
        (case (b64_val w, b64_val x) of
           (Some i, Some j) \<Rightarrow> Some [char_of (by1 i j)]
         | _ \<Rightarrow> None)
      else if z = pad_char \<and> r = [] then
        (case (b64_val w, b64_val x, b64_val y) of
           (Some i, Some j, Some k) \<Rightarrow> Some [char_of (by1 i j), char_of (by2 j k)]
         | _ \<Rightarrow> None)
      else
        (case (b64_val w, b64_val x, b64_val y, b64_val z) of
           (Some i, Some j, Some k, Some l) \<Rightarrow>
             map_option (\<lambda>bs. char_of (by1 i j) # char_of (by2 j k) # char_of (by3 k l) # bs)
               (b64_decode r)
         | _ \<Rightarrow> None))"
| "b64_decode _ = None"

definition DecodeString :: "string \<Rightarrow> bytes option" where
  "DecodeString s = b64_decode (filter (\<lambda>c. c \<noteq> CHR 0x0A \<and> c \<noteq> CHR 0x0D) s)"

section \<open>Decoding inverts encoding\<close>

lemma b64_table:
  "list_all (\<lambda>n. b64_val (b64_char n) = Some n \<and> b64_char n \<noteq> pad_char
     \<and> b64_char n \<noteq> CHR 0x0A \<and> b64_char n \<noteq> CHR 0x0D) [0..<64]"
  by code_simp

lemma b64_char_props:
  assumes "n < 64"
  shows "b64_val (b64_char n) = Some n" and "b64_char n \<noteq> pad_char"
    and "b64_char n \<noteq> CHR 0x0A" and "b64_char n \<noteq> CHR 0x0D"
proof -
  have "n \<in> set [0..<64]" using assms by simp
  with b64_table have "b64_val (b64_char n) = Some n \<and> b64_char n \<noteq> pad_char
     \<and> b64_char n \<noteq> CHR 0x0A \<and> b64_char n \<noteq> CHR 0x0D"
    unfolding list_all_iff by blast
  then show "b64_val (b64_char n) = Some n" and "b64_char n \<noteq> pad_char"
    and "b64_char n \<noteq> CHR 0x0A" and "b64_char n \<noteq> CHR 0x0D" by simp_all
qed

lemma byte_bound [simp]: "(of_char c :: nat) < 256"
proof -
  have "(of_char c :: nat) = of_char c mod 256" by (rule of_char_mod_256 [symmetric])
  also have "\<dots> < 256" by simp
  finally show ?thesis .
qed

lemma sextet_bounds:
  assumes "a < 256" and "b < 256"
  shows "sx2 a b < 64" and "sx3 a b < 64"
proof -
  have "b div 16 < 16" "b div 64 < 4" "a mod 4 < 4" "a mod 16 < 16" using assms by auto
  then show "sx2 a b < 64" and "sx3 a b < 64"
    unfolding sx2_def sx3_def by auto
qed

lemma sextet_join1: "b < 256 \<Longrightarrow> by1 (sx1 a) (sx2 a b) = a"
  by (simp add: by1_def sx1_def sx2_def flip: div_mult2_eq)

lemma sextet_join3: "c < 256 \<Longrightarrow> by3 (sx3 b c) (sx4 c) = c"
proof -
  assume "c < 256"
  then have "c div 64 mod 4 = c div 64" by (simp flip: div_mult2_eq)
  then show ?thesis by (simp add: by3_def sx3_def sx4_def)
qed

lemma sextet_join2:
  assumes "b < 256" and "c < 256"
  shows "by2 (sx2 a b) (sx3 b c) = b"
proof -
  have "b div 16 mod 16 = b div 16" and "c div 64 div 4 = 0"
    using assms by (simp_all flip: div_mult2_eq)
  then show ?thesis unfolding by2_def sx2_def sx3_def by simp
qed

lemma sextet_bounds1: "a < 256 \<Longrightarrow> sx1 a < 64" "sx4 a < 64"
  by (auto simp: sx1_def sx4_def)

lemmas b64_enc_simps = b64_char_props sextet_bounds sextet_bounds1 sextet_join1
  sextet_join2 sextet_join3

lemma b64_decode_encode: "b64_decode (EncodeToString bs) = Some bs"
  by (induction bs rule: EncodeToString.induct) (simp_all add: b64_enc_simps)

lemma encode_no_newline: "filter (\<lambda>c. c \<noteq> CHR 0x0A \<and> c \<noteq> CHR 0x0D) (EncodeToString bs) = EncodeToString bs"
  by (induction bs rule: EncodeToString.induct) (simp_all add: b64_enc_simps)

lemma DecodeString_EncodeToString [simp]: "DecodeString (EncodeToString bs) = Some bs"
  by (simp add: DecodeString_def encode_no_newline b64_decode_encode)

lemma EncodeToString_inject [simp]: "EncodeToString a = EncodeToString b \<longleftrightarrow> a = b"
  by (metis DecodeString_EncodeToString option.inject)

lemma EncodeToString_Nil [simp]: "EncodeToString a = [] \<longleftrightarrow> a = []"
  using EncodeToString_inject [of a "[]"] by simp

end
