(* ===== verification/FileStorage.thy ===== *)
theory FileStorage
  imports FileSystem Base64
begin

text \<open>
  The Messenger Storage (\<^verbatim>\<open>src/internal/storage.go\<close>): the operations of \<open>FileStorage\<close> and of
  its \<open>fileWrapper\<close>, and the clean-up pass of \<open>NewFileStorage\<close>, over the file system
  of \<^verbatim>\<open>FileSystem\<close>.  Each error path of the code is a branch of the model.  A call of an
  operation is one atomic step; what the lock \<open>busy\<close> protects is the interval between
  \<open>OpenWrite\<close> and \<open>Close\<close>, in which other operations run.

  The serialisation library \<^verbatim>\<open>vom\<close> is a parameter (\<open>codec\<close>).
\<close>

section \<open>The storage\<close>

record PeerInfo =
  Sent :: bool
  FatalError :: bool
  NextAttempt :: time
  NumAttempts :: int

definition zero_PeerInfo :: PeerInfo where
  "zero_PeerInfo = \<lparr>Sent = False, FatalError = False, NextAttempt = zero_time, NumAttempts = 0\<rparr>"

text \<open>
  The \<^verbatim>\<open>vom\<close> encoder and decoder.  \<open>dec_pi\<close> is the value \<open>Decode(&pi)\<close> leaves in
  \<open>pi\<close>: the code ignores its error.
\<close>

record codec =
  enc_msg :: "message \<Rightarrow> bytes"
  dec_msg :: "bytes \<Rightarrow> err + message"
  enc_pi :: "PeerInfo \<Rightarrow> bytes"
  dec_pi :: "bytes \<Rightarrow> PeerInfo"

definition codec_ok :: "codec \<Rightarrow> bool" where
  "codec_ok v \<longleftrightarrow> (\<forall>m. dec_msg v (enc_msg v m) = Inr m) \<and> (\<forall>p. dec_pi v (enc_pi v p) = p)"

definition messageFileName :: string where "messageFileName = ''message''"
definition contentFileName :: string where "contentFileName = ''content''"
definition doneFileName :: string where "doneFileName = ''done''"

record storage =
  st_fs :: fs
  busy :: "string set"

definition messageDir :: "string \<Rightarrow> string" where
  "messageDir mid = EncodeToString mid"

definition peerFile :: "string \<Rightarrow> string" where
  "peerFile peer = ''peer-'' @ EncodeToString peer"

definition lock :: "storage \<Rightarrow> string \<Rightarrow> err + storage" where
  "lock s mid = (if mid \<in> busy s then Inl (ErrBusy mid) else Inr (s\<lparr>busy := insert mid (busy s)\<rparr>))"

definition unlock :: "string \<Rightarrow> storage \<Rightarrow> storage" where
  "unlock mid s = s\<lparr>busy := busy s - {mid}\<rparr>"

definition isComplete :: "env \<Rightarrow> storage \<Rightarrow> string \<Rightarrow> bool" where
  "isComplete e s mid \<longleftrightarrow>
     \<not> fails e (SysStat doneFileName) \<and> fs_exists (st_fs s) (messageDir mid) doneFileName"

definition readMessage :: "codec \<Rightarrow> env \<Rightarrow> storage \<Rightarrow> string \<Rightarrow> err + message" where
  "readMessage v e s mid =
     (if fails e (SysOpen messageFileName) then Inl (ErrOS ''open'')
      else case fs_find (st_fs s) (messageDir mid) messageFileName of
        None \<Rightarrow> Inl (ErrOS ''open'')
      | Some i \<Rightarrow>
          if fails e (SysRead messageFileName) then Inl (ErrOS ''read'')
          else dec_msg v (fs_data (st_fs s) i))"

definition writeMessage :: "codec \<Rightarrow> env \<Rightarrow> storage \<Rightarrow> message \<Rightarrow> storage \<times> err option" where
  "writeMessage v e s m =
     (case fs_mkdirall e (st_fs s) (messageDir (Id m)) of
        Inl er \<Rightarrow> (s, Some er)
      | Inr F \<Rightarrow>
          (case fs_create e F (messageDir (Id m)) messageFileName of
             Inl er \<Rightarrow> (s\<lparr>st_fs := F\<rparr>, Some er)
           | Inr (F, i) \<Rightarrow>
               if fails e (SysWrite messageFileName)
               then (s\<lparr>st_fs := fs_set i (take (short e) (enc_msg v m)) F\<rparr>, Some (ErrOS ''write''))
               else (s\<lparr>st_fs := fs_set i (enc_msg v m) F\<rparr>, None)))"

record fileWrapper =
  w_f :: nat
  w_pos :: nat
  w_h :: hash
  w_msg :: message

text \<open>
  \<open>OpenWrite\<close>, with the check that a message already on disk is the same message, and
  the hash of what the content file already holds.
\<close>

definition storeMessage :: "codec \<Rightarrow> env \<Rightarrow> storage \<Rightarrow> message \<Rightarrow> storage \<times> err option" where
  "storeMessage v e s msg =
     (case readMessage v e s (Id msg) of
        Inr m \<Rightarrow> if Hash m \<noteq> Hash msg then (s, Some (ErrMessageIdCollision (Id msg))) else (s, None)
      | Inl _ \<Rightarrow> writeMessage v e s msg)"

definition OpenWrite :: "codec \<Rightarrow> env \<Rightarrow> storage \<Rightarrow> message \<Rightarrow> int64 \<Rightarrow> storage \<times> (err + fileWrapper)" where
  "OpenWrite v e s msg offset =
     (case lock s (Id msg) of
        Inl er \<Rightarrow> (s, Inl er)
      | Inr s \<Rightarrow>
          if isComplete e s (Id msg) then (unlock (Id msg) s, Inl (ErrAlreadySeen (Id msg)))
          else case storeMessage v e s msg of
            (s, Some er) \<Rightarrow> (unlock (Id msg) s, Inl er)
          | (s, None) \<Rightarrow>
              (case fs_create e (st_fs s) (messageDir (Id msg)) contentFileName of
                 Inl er \<Rightarrow> (unlock (Id msg) s, Inl er)
               | Inr (F, i) \<Rightarrow>
                   let s = s\<lparr>st_fs := F\<rparr>; size = int (length (fs_data F i))
                   in if fails e (SysStat contentFileName)
                      then (unlock (Id msg) s, Inl (ErrOS ''stat''))
                      else if size \<noteq> offset
                      then (unlock (Id msg) s, Inl (ErrIncorrectOffset offset size))
                      else if fails e (SysRead contentFileName)
                      then (unlock (Id msg) s, Inl (ErrOS ''read''))
                      else (s, Inr \<lparr>w_f = i, w_pos = nat offset,
                              w_h = fold (\<lambda>p h. hash_write h p) (chunks 2048 (fs_data F i)) hash_new,
                              w_msg = msg\<rparr>)))"

text \<open>\<open>fileWrapper.Write\<close>: the hash sees all of \<open>p\<close>, the file what the write transfers.\<close>

definition Write :: "env \<Rightarrow> storage \<Rightarrow> fileWrapper \<Rightarrow> bytes \<Rightarrow> storage \<times> fileWrapper \<times> err option" where
  "Write e s w p =
     (let q = (if fails e (SysWrite contentFileName) then take (short e) p else p)
      in (s\<lparr>st_fs := fs_set (w_f w) (write_at (w_pos w) q (fs_data (st_fs s) (w_f w))) (st_fs s)\<rparr>,
          w\<lparr>w_pos := w_pos w + length q, w_h := hash_write (w_h w) p\<rparr>,
          if fails e (SysWrite contentFileName) then Some (ErrOS ''write'') else None))"

text \<open>\<open>ioutil.WriteFile\<close> of the marker file.\<close>

definition writeDone :: "env \<Rightarrow> storage \<Rightarrow> string \<Rightarrow> storage \<times> err option" where
  "writeDone e s mid =
     (case fs_create e (st_fs s) (messageDir mid) doneFileName of
        Inl er \<Rightarrow> (s, Some er)
      | Inr (F, i) \<Rightarrow>
          if fails e (SysWrite doneFileName)
          then (s\<lparr>st_fs := fs_set i (take (short e) ''done'') F\<rparr>, Some (ErrOS ''write''))
          else (s\<lparr>st_fs := fs_set i ''done'' F\<rparr>, None))"

definition closeBody :: "env \<Rightarrow> storage \<Rightarrow> fileWrapper \<Rightarrow> storage \<times> err option" where
  "closeBody e s w =
     (let msg = w_msg w; size = int (length (fs_data (st_fs s) (w_f w)))
      in if fails e SysSync then (s, Some (ErrOS ''sync''))
         else if fails e (SysStat contentFileName) then (s, Some (ErrOS ''stat''))
         else if fails e SysClose then (s, Some (ErrOS ''close''))
         else if size \<ge> Length msg then
           if size > Length msg \<or> Sha256 msg \<noteq> hash_sum (w_h w)
           then (s\<lparr>st_fs := fs_removeall e (st_fs s) (messageDir (Id msg))\<rparr>, Some ErrContentMismatch)
           else writeDone e s (Id msg)
         else (s, None))"

definition Close :: "env \<Rightarrow> storage \<Rightarrow> fileWrapper \<Rightarrow> storage \<times> err option" where
  "Close e s w = (let (s, er) = closeBody e s w in (unlock (Id (w_msg w)) s, er))"

text \<open>A reader is the inode of the content file and a position.\<close>

record reader =
  r_f :: nat
  r_pos :: nat

definition OpenRead :: "codec \<Rightarrow> env \<Rightarrow> storage \<Rightarrow> string \<Rightarrow> storage \<times> (err + message \<times> reader)" where
  "OpenRead v e s mid =
     (if \<not> isComplete e s mid then (s, Inl (ErrVerror NoExist))
      else case readMessage v e s mid of
        Inl er \<Rightarrow> (s, Inl er)
      | Inr msg \<Rightarrow>
          (case fs_create e (st_fs s) (messageDir (Id msg)) contentFileName of
             Inl er \<Rightarrow> (s, Inl er)
           | Inr (F, i) \<Rightarrow> (s\<lparr>st_fs := F\<rparr>, Inr (msg, \<lparr>r_f = i, r_pos = 0\<rparr>))))"

text \<open>What the \<open>Read\<close> loop of a client gets from a reader until \<open>io.EOF\<close>, and \<open>Seek(n, 0)\<close>.\<close>

definition read_rest :: "storage \<Rightarrow> reader \<Rightarrow> bytes" where
  "read_rest s r = drop (r_pos r) (fs_data (st_fs s) (r_f r))"

definition Seek :: "reader \<Rightarrow> int64 \<Rightarrow> err + reader" where
  "Seek r n = (if n < 0 then Inl (ErrOS ''seek'') else Inr (r\<lparr>r_pos := nat n\<rparr>))"

definition Offset :: "env \<Rightarrow> storage \<Rightarrow> string \<Rightarrow> storage \<times> (err + int64)" where
  "Offset e s mid =
     (case lock s mid of
        Inl er \<Rightarrow> (s, Inl er)
      | Inr s \<Rightarrow>
          (unlock mid s,
           if isComplete e s mid then Inl (ErrAlreadySeen mid)
           else case fs_find (st_fs s) (messageDir mid) contentFileName of
             None \<Rightarrow> if fails e (SysStat contentFileName) then Inl (ErrOS ''stat'') else Inr 0
           | Some i \<Rightarrow> if fails e (SysStat contentFileName) then Inl (ErrOS ''stat'')
                       else Inr (int (length (fs_data (st_fs s) i)))))"

definition Exists :: "env \<Rightarrow> storage \<Rightarrow> string \<Rightarrow> bool" where
  "Exists e s mid = isComplete e s mid"

text \<open>The messages that \<open>Manifest\<close> sends on its channel, in the order of the directory.\<close>

definition manifest_entry :: "codec \<Rightarrow> env \<Rightarrow> storage \<Rightarrow> string \<Rightarrow> message option" where
  "manifest_entry v e s n =
     (case DecodeString n of
        None \<Rightarrow> None
      | Some mid \<Rightarrow>
          if \<not> isComplete e s mid then None
          else case readMessage v e s mid of
            Inl _ \<Rightarrow> None
          | Inr msg \<Rightarrow> if Expired (now e) msg \<noteq> None then None else Some msg)"

definition Manifest :: "codec \<Rightarrow> env \<Rightarrow> storage \<Rightarrow> err + message list" where
  "Manifest v e s =
     (if \<not> is_dir (st_fs s) '''' then Inr []
      else if fails e SysReaddir then Inl (ErrOS ''open'')
      else Inr (List.map_filter (manifest_entry v e s) (fs_readdir (st_fs s))))"

definition SetPeerInfo :: "codec \<Rightarrow> env \<Rightarrow> storage \<Rightarrow> string \<Rightarrow> string \<Rightarrow> PeerInfo \<Rightarrow> storage \<times> err option" where
  "SetPeerInfo v e s mid peer p =
     (case fs_create e (st_fs s) (messageDir mid) (peerFile peer) of
        Inl er \<Rightarrow> (s, Some er)
      | Inr (F, i) \<Rightarrow>
          if fails e (SysWrite (peerFile peer))
          then (s\<lparr>st_fs := fs_set i (take (short e) (enc_pi v p)) F\<rparr>, Some (ErrOS ''write''))
          else (s\<lparr>st_fs := fs_set i (enc_pi v p) F\<rparr>, None))"

definition getPeerInfo :: "codec \<Rightarrow> env \<Rightarrow> storage \<Rightarrow> string \<Rightarrow> string \<Rightarrow> PeerInfo" where
  "getPeerInfo v e s mid peer =
     (if fails e (SysOpen (peerFile peer)) then zero_PeerInfo
      else case fs_find (st_fs s) (messageDir mid) (peerFile peer) of
        None \<Rightarrow> zero_PeerInfo
      | Some i \<Rightarrow> dec_pi v (fs_data (st_fs s) i))"

text \<open>
  One pass of the clean-up goroutine of \<open>NewFileStorage\<close>: every entry of the store
  directory whose message can be read and is expired is removed.
\<close>

definition cleanup_entry :: "codec \<Rightarrow> env \<Rightarrow> string \<Rightarrow> storage \<Rightarrow> storage" where
  "cleanup_entry v e n s =
     (case DecodeString n of
        None \<Rightarrow> s
      | Some mid \<Rightarrow>
          (case readMessage v e s mid of
             Inl _ \<Rightarrow> s
           | Inr msg \<Rightarrow>
               if Expired (now e) msg \<noteq> None then s\<lparr>st_fs := fs_removeall e (st_fs s) n\<rparr> else s))"

definition cleanup :: "codec \<Rightarrow> env \<Rightarrow> storage \<Rightarrow> storage" where
  "cleanup v e s =
     (if \<not> is_dir (st_fs s) '''' \<or> fails e SysReaddir then s
      else fold (cleanup_entry v e) (fs_readdir (st_fs s)) s)"

end
