(* ===== verification/StorageSafety.thy ===== *)
theory StorageSafety
  imports FileStorage
begin

text \<open>
  The safety of the storage under interleaving.  A state is the storage together with the
  writers that are open; a step is one call of a storage operation by any goroutine, in any
  order and with any system call failing (except that a \<open>Stat\<close> of an existing marker file
  answers and that a \<open>Write\<close> of content is not cut short), one pass of the clean-up
  goroutine, or a crash and restart of the process.  In every reachable state a message has
  at most one writer, the locks held are exactly those of the open writers, and a message
  that is marked complete has content of the promised length and hash.
\<close>

type_synonym writers = "string \<Rightarrow> fileWrapper option"

definition reliable :: "env \<Rightarrow> bool" where
  "reliable e \<longleftrightarrow> \<not> fails e (SysStat doneFileName) \<and> \<not> fails e (SysWrite contentFileName)"

inductive store_step :: "codec \<Rightarrow> storage \<times> writers \<Rightarrow> storage \<times> writers \<Rightarrow> bool" for v where
  open_write: "reliable e \<Longrightarrow> OpenWrite v e s msg off = (s', Inr w) \<Longrightarrow>
    store_step v (s, W) (s', W(Id msg \<mapsto> w))"
| open_write_err: "reliable e \<Longrightarrow> OpenWrite v e s msg off = (s', Inl er) \<Longrightarrow> store_step v (s, W) (s', W)"
| write_content: "reliable e \<Longrightarrow> W mid = Some w \<Longrightarrow> Write e s w p = (s', w', er) \<Longrightarrow>
    store_step v (s, W) (s', W(mid \<mapsto> w'))"
| close_writer: "W mid = Some w \<Longrightarrow> Close e s w = (s', er) \<Longrightarrow> store_step v (s, W) (s', W(mid := None))"
| open_read: "reliable e \<Longrightarrow> OpenRead v e s mid = (s', r) \<Longrightarrow> store_step v (s, W) (s', W)"
| offset: "Offset e s mid = (s', r) \<Longrightarrow> store_step v (s, W) (s', W)"
| set_peer_info: "SetPeerInfo v e s mid peer p = (s', er) \<Longrightarrow> store_step v (s, W) (s', W)"
| clean_up: "store_step v (s, W) (cleanup v e s, W)"
| restart: "store_step v (s, W) (s\<lparr>busy := {}\<rparr>, Map.empty)"

definition storage_init :: storage where
  "storage_init = \<lparr>st_fs = fs_empty, busy = {}\<rparr>"

inductive store_reachable :: "codec \<Rightarrow> storage \<times> writers \<Rightarrow> bool" for v where
  init: "store_reachable v (storage_init, Map.empty)"
| step: "store_reachable v x \<Longrightarrow> store_step v x y \<Longrightarrow> store_reachable v y"

section \<open>The invariant\<close>

text \<open>The content \<open>b\<close> is what a message with the hash of \<open>m\<close> promises.\<close>

definition verified :: "message \<Rightarrow> bytes \<Rightarrow> bool" where
  "verified m b \<longleftrightarrow> (\<exists>msg. Hash msg = Hash m \<and> Id msg = Id m \<and> int (length b) = Length msg
     \<and> sha256 b = Sha256 msg)"

definition stored :: "codec \<Rightarrow> fs \<Rightarrow> string \<Rightarrow> message \<Rightarrow> bool" where
  "stored v F mid m \<longleftrightarrow> (\<exists>mb. fs_read F (messageDir mid) messageFileName = Some mb \<and> dec_msg v mb = Inr m)"

text \<open>A message file that decodes holds the message its directory is named after.\<close>

definition inv_msgs :: "codec \<Rightarrow> fs \<Rightarrow> bool" where
  "inv_msgs v F \<longleftrightarrow> (\<forall>mid m. stored v F mid m \<longrightarrow> Id m = mid)"

definition inv_done :: "codec \<Rightarrow> fs \<Rightarrow> bool" where
  "inv_done v F \<longleftrightarrow> (\<forall>mid. mid \<noteq> '''' \<longrightarrow> fs_find F (messageDir mid) doneFileName \<noteq> None \<longrightarrow>
     (\<exists>m b. stored v F mid m \<and> fs_read F (messageDir mid) contentFileName = Some b \<and> verified m b))"

definition writer_ok :: "codec \<Rightarrow> fs \<Rightarrow> string \<Rightarrow> fileWrapper \<Rightarrow> bool" where
  "writer_ok v F mid w \<longleftrightarrow>
     Id (w_msg w) = mid \<and> hash_buf (w_h w) = fs_data F (w_f w)
     \<and> w_pos w = length (fs_data F (w_f w)) \<and> w_f w < fs_next F
     \<and> (\<forall>d n. fs_find F d n = Some (w_f w) \<longrightarrow> d = messageDir mid \<and> n = contentFileName)
     \<and> (mid \<noteq> '''' \<longrightarrow> is_dir F (messageDir mid) \<longrightarrow>
          fs_find F (messageDir mid) contentFileName = Some (w_f w)
          \<and> fs_find F (messageDir mid) doneFileName = None
          \<and> (\<exists>m. stored v F mid m \<and> Hash m = Hash (w_msg w)))"

lemma writer_okD:
  assumes "writer_ok v F mid w"
  shows "Id (w_msg w) = mid" and "hash_buf (w_h w) = fs_data F (w_f w)"
    and "w_pos w = length (fs_data F (w_f w))" and "w_f w < fs_next F"
    and "fs_find F d n = Some (w_f w) \<Longrightarrow> d = messageDir mid \<and> n = contentFileName"
    and "mid \<noteq> '''' \<Longrightarrow> is_dir F (messageDir mid) \<Longrightarrow>
      fs_find F (messageDir mid) contentFileName = Some (w_f w)"
    and "mid \<noteq> '''' \<Longrightarrow> fs_find F (messageDir mid) doneFileName = None"
    and "mid \<noteq> '''' \<Longrightarrow> is_dir F (messageDir mid) \<Longrightarrow> \<exists>m. stored v F mid m \<and> Hash m = Hash (w_msg w)"
proof -
  show "fs_find F (messageDir mid) doneFileName = None" if "mid \<noteq> ''''"
  proof (cases "fs_find F (messageDir mid) doneFileName")
    case (Some i)
    then have "is_dir F (messageDir mid)" by (rule fs_find_dir)
    with assms that show ?thesis unfolding writer_ok_def by blast
  qed
qed (use assms in \<open>unfold writer_ok_def, blast+\<close>)

lemma writer_okI:
  assumes "Id (w_msg w) = mid" and "hash_buf (w_h w) = fs_data F (w_f w)"
    and "w_pos w = length (fs_data F (w_f w))" and "w_f w < fs_next F"
    and "\<And>d n. fs_find F d n = Some (w_f w) \<Longrightarrow> d = messageDir mid \<and> n = contentFileName"
    and "mid \<noteq> '''' \<Longrightarrow> is_dir F (messageDir mid) \<Longrightarrow>
      fs_find F (messageDir mid) contentFileName = Some (w_f w)"
    and "mid \<noteq> '''' \<Longrightarrow> fs_find F (messageDir mid) doneFileName = None"
    and "mid \<noteq> '''' \<Longrightarrow> is_dir F (messageDir mid) \<Longrightarrow> \<exists>m. stored v F mid m \<and> Hash m = Hash (w_msg w)"
  shows "writer_ok v F mid w"
  unfolding writer_ok_def using assms by simp

definition inv_writers :: "codec \<Rightarrow> fs \<Rightarrow> writers \<Rightarrow> bool" where
  "inv_writers v F W \<longleftrightarrow> (\<forall>mid w. W mid = Some w \<longrightarrow> writer_ok v F mid w)
     \<and> (\<forall>mid mid' w w'. W mid = Some w \<longrightarrow> W mid' = Some w' \<longrightarrow> mid \<noteq> mid' \<longrightarrow> w_f w \<noteq> w_f w')"

definition fs_inv :: "codec \<Rightarrow> fs \<Rightarrow> writers \<Rightarrow> bool" where
  "fs_inv v F W \<longleftrightarrow> fs_wf F \<and> inv_msgs v F \<and> inv_done v F \<and> inv_writers v F W"

definition store_inv :: "codec \<Rightarrow> storage \<times> writers \<Rightarrow> bool" where
  "store_inv v x \<longleftrightarrow> busy (fst x) = dom (snd x) \<and> fs_inv v (st_fs (fst x)) (snd x)"

text \<open>The hypothesis on \<^verbatim>\<open>vom\<close>: a full encoding decodes to the message, a cut one does not decode.\<close>

definition codec_strict :: "codec \<Rightarrow> bool" where
  "codec_strict v \<longleftrightarrow> codec_ok v \<and>
     (\<forall>m k. k < length (enc_msg v m) \<longrightarrow> (\<exists>er. dec_msg v (take k (enc_msg v m)) = Inl er))"

lemma codec_prefix:
  assumes "codec_strict v" and "dec_msg v (take k (enc_msg v m)) = Inr m'"
  shows "m' = m"
proof (cases "k < length (enc_msg v m)")
  case True
  with assms show ?thesis unfolding codec_strict_def by (metis Inl_Inr_False)
next
  case False
  with assms show ?thesis by (simp add: codec_strict_def codec_ok_def)
qed

section \<open>Facts about the file names\<close>

lemma file_names [simp]:
  "messageFileName \<noteq> contentFileName" "contentFileName \<noteq> messageFileName"
  "messageFileName \<noteq> doneFileName" "doneFileName \<noteq> messageFileName"
  "contentFileName \<noteq> doneFileName" "doneFileName \<noteq> contentFileName"
  by (simp_all add: messageFileName_def contentFileName_def doneFileName_def)

lemma peerFile_neq [simp]:
  "peerFile p \<noteq> messageFileName" "messageFileName \<noteq> peerFile p"
  "peerFile p \<noteq> contentFileName" "contentFileName \<noteq> peerFile p"
  "peerFile p \<noteq> doneFileName" "doneFileName \<noteq> peerFile p"
  by (simp_all add: peerFile_def messageFileName_def contentFileName_def doneFileName_def)

lemma messageDir_inject [simp]: "messageDir a = messageDir b \<longleftrightarrow> a = b"
  by (simp add: messageDir_def)

lemma messageDir_Nil [simp]: "messageDir a = '''' \<longleftrightarrow> a = ''''" "'''' = messageDir a \<longleftrightarrow> a = ''''"
  using EncodeToString_Nil [of a] by (auto simp: messageDir_def simp del: EncodeToString_Nil)

section \<open>The primitives preserve the invariant\<close>

lemma inv_writers_subset:
  assumes "inv_writers v F W" shows "inv_writers v F (W(mid := None))" and "inv_writers v F Map.empty"
  using assms by (auto simp: inv_writers_def)

lemma inv_writersD:
  assumes "inv_writers v F W" and "W k = Some x"
  shows "writer_ok v F k x" and "W k' = Some x' \<Longrightarrow> k \<noteq> k' \<Longrightarrow> w_f x \<noteq> w_f x'"
  using assms unfolding inv_writers_def by blast+

lemma inv_writers_upd:
  assumes "writer_ok v F mid w"
    and "\<And>k x. k \<noteq> mid \<Longrightarrow> W k = Some x \<Longrightarrow> writer_ok v F k x \<and> w_f x \<noteq> w_f w"
    and "\<And>k k' x x'. k \<noteq> k' \<Longrightarrow> W k = Some x \<Longrightarrow> W k' = Some x' \<Longrightarrow> w_f x \<noteq> w_f x'"
  shows "inv_writers v F (W(mid \<mapsto> w))"
  unfolding inv_writers_def
proof (intro conjI allI impI)
  fix k x assume "(W(mid \<mapsto> w)) k = Some x"
  then show "writer_ok v F k x" using assms(1,2) by (cases "k = mid") auto
next
  fix k k' x x'
  assume k: "(W(mid \<mapsto> w)) k = Some x" and k': "(W(mid \<mapsto> w)) k' = Some x'" and ne: "k \<noteq> k'"
  show "w_f x \<noteq> w_f x'"
  proof (cases "k = mid")
    case True
    with k k' ne have "x = w" "k' \<noteq> mid" "W k' = Some x'" by simp_all
    with assms(2) [of k' x'] show ?thesis by simp
  next
    case False
    with k have Wk: "W k = Some x" by simp
    show ?thesis
    proof (cases "k' = mid")
      case True
      with k' have "x' = w" by simp
      with assms(2) [OF False Wk] show ?thesis by simp
    next
      case f: False
      with k' have "W k' = Some x'" by simp
      with assms(3) [OF ne Wk] show ?thesis by blast
    qed
  qed
qed

text \<open>Removing directories.\<close>

lemma fs_inv_removeall:
  assumes "fs_inv v F W"
  shows "fs_inv v (fs_removeall e F d) W"
proof -
  let ?F = "fs_removeall e F d"
  note R = fs_removeall_find [of e F d] and D = fs_removeall_dir [of e F d]
  have rd: "fs_read ?F x n = (if gone e d x \<or> (x = '''' \<and> gone e d n) then None else fs_read F x n)" for x n
    by (simp add: fs_read_def R)
  have st: "stored v ?F mid m \<longleftrightarrow> \<not> gone e d (messageDir mid) \<and> (mid = '''' \<longrightarrow> \<not> gone e d messageFileName)
      \<and> stored v F mid m" for mid m
    by (auto simp: stored_def rd)
  have "fs_wf ?F" using assms by (auto simp: fs_inv_def fs_wf_def R split: if_splits)
  moreover have "inv_msgs v ?F" using assms by (auto simp: fs_inv_def inv_msgs_def st)
  moreover have "inv_done v ?F" using assms by (auto simp: fs_inv_def inv_done_def R st rd)
  moreover have "writer_ok v ?F mid w" if "writer_ok v F mid w" for mid w
    using that by (auto simp: writer_ok_def R D st split: if_splits)
  ultimately show ?thesis using assms by (auto simp: fs_inv_def inv_writers_def)
qed

text \<open>
  Writing a whole file of a message directory: the other paths keep their content, so the
  invariant holds again as soon as the clauses that mention the file do.
\<close>

lemma writer_frame:
  assumes "fs_create e F d n = Inr (F', i)" and "fs_wf F" and "writer_ok v F mid w"
    and "n \<noteq> contentFileName \<or> d \<noteq> messageDir mid"
  shows "w_f w \<noteq> i" and "fs_data F' (w_f w) = fs_data F (w_f w)"
    and "fs_find F' x k = Some (w_f w) \<longleftrightarrow> fs_find F x k = Some (w_f w)"
proof -
  note c = fs_create_wf [OF assms(1,2)]
  have lt: "w_f w < fs_next F" and own: "\<And>d n. fs_find F d n = Some (w_f w) \<Longrightarrow> d = messageDir mid \<and> n = contentFileName"
    using assms(3) by (auto simp: writer_ok_def)
  show ne: "w_f w \<noteq> i"
    using assms(1)
  proof (cases rule: fs_create_Inr)
    case old
    with own assms(4) show ?thesis by metis
  next
    case new
    with lt show ?thesis by simp
  qed
  show "fs_data F' (w_f w) = fs_data F (w_f w)" using c(7) lt by blast
  show "fs_find F' x k = Some (w_f w) \<longleftrightarrow> fs_find F x k = Some (w_f w)"
    using c(3) ne own assms(4) by (auto split: if_splits)
qed

lemma stored_put:
  assumes "fs_create e F d n = Inr (F', i)" and "fs_wf F"
  shows "stored v (fs_set i b F') mid m \<longleftrightarrow>
    (if d = messageDir mid \<and> n = messageFileName then dec_msg v b = Inr m else stored v F mid m)"
  by (auto simp: stored_def fs_read_put [OF assms])

lemma writer_ok_put:
  assumes "fs_create e F d n = Inr (F', i)" and "fs_wf F" and "writer_ok v F mid w"
    and "d \<noteq> messageDir mid \<or> n \<notin> {messageFileName, contentFileName, doneFileName}"
  shows "writer_ok v (fs_set i b F') mid w"
proof -
  have "n \<noteq> contentFileName \<or> d \<noteq> messageDir mid" using assms(4) by blast
  note fr = writer_frame [OF assms(1-3) this] and c = fs_create_wf [OF assms(1,2)]
  have dn: "fs_find F' (messageDir mid) doneFileName = fs_find F (messageDir mid) doneFileName"
    and st: "stored v (fs_set i b F') mid m \<longleftrightarrow> stored v F mid m" for m
    using assms(4) by (auto simp: c(3) stored_put [OF assms(1,2)])
  from assms(3) show ?thesis
    using fr c(4,5) by (simp add: writer_ok_def fs_simps dn st)
qed

lemma inv_done_put:
  assumes "fs_create e F d n = Inr (F', i)" and "fs_wf F" and "inv_done v F"
    and "\<And>mid. mid \<noteq> '''' \<Longrightarrow> d = messageDir mid \<Longrightarrow> n \<in> {messageFileName, contentFileName} \<Longrightarrow>
      fs_find F (messageDir mid) doneFileName = None"
    and "\<And>mid. mid \<noteq> '''' \<Longrightarrow> d = messageDir mid \<Longrightarrow> n = doneFileName \<Longrightarrow>
      \<exists>m b. stored v F mid m \<and> fs_read F (messageDir mid) contentFileName = Some b \<and> verified m b"
  shows "inv_done v (fs_set i b F')"
  unfolding inv_done_def
proof (intro allI impI)
  fix mid :: string
  assume mid: "mid \<noteq> ''''" and dn: "fs_find (fs_set i b F') (messageDir mid) doneFileName \<noteq> None"
  note c = fs_create_wf [OF assms(1,2)]
  have st: "stored v (fs_set i b F') mid m \<longleftrightarrow> stored v F mid m"
    and rd: "fs_read (fs_set i b F') (messageDir mid) contentFileName = fs_read F (messageDir mid) contentFileName" for m
    using assms(4) [OF mid] dn by (auto simp: stored_put [OF assms(1,2)] fs_read_put [OF assms(1,2)] fs_simps c(3))
  show "\<exists>m ba. stored v (fs_set i b F') mid m \<and>
      fs_read (fs_set i b F') (messageDir mid) contentFileName = Some ba \<and> verified m ba"
  proof (cases "d = messageDir mid \<and> n = doneFileName")
    case True
    with assms(5) [OF mid] show ?thesis by (simp add: st rd)
  next
    case False
    then have "fs_find F (messageDir mid) doneFileName \<noteq> None"
      using dn by (auto simp: fs_simps c(3))
    with assms(3) mid show ?thesis by (simp add: inv_done_def st rd)
  qed
qed

lemma inv_msgs_put:
  assumes "fs_create e F d n = Inr (F', i)" and "fs_wf F" and "inv_msgs v F"
    and "\<And>mid m. d = messageDir mid \<Longrightarrow> n = messageFileName \<Longrightarrow> dec_msg v b = Inr m \<Longrightarrow> Id m = mid"
  shows "inv_msgs v (fs_set i b F')"
  using assms(3,4) by (auto simp: inv_msgs_def stored_put [OF assms(1,2)] split: if_splits)

text \<open>A delivery record of a peer.\<close>

lemma fs_inv_put_other:
  assumes "fs_create e F d n = Inr (F', i)" and "fs_inv v F W"
    and "n \<notin> {messageFileName, contentFileName, doneFileName}"
  shows "fs_inv v (fs_set i b F') W"
proof -
  have wf: "fs_wf F" and m: "inv_msgs v F" and d: "inv_done v F" and w: "inv_writers v F W"
    using assms(2) by (auto simp: fs_inv_def)
  have "writer_ok v (fs_set i b F') mid x" if "W mid = Some x" for mid x
    using writer_ok_put [OF assms(1) wf] w that assms(3) by (auto simp: inv_writers_def)
  moreover have "inv_msgs v (fs_set i b F')"
    by (rule inv_msgs_put [OF assms(1) wf m]) (use assms(3) in auto)
  moreover have "inv_done v (fs_set i b F')"
    by (rule inv_done_put [OF assms(1) wf d]) (use assms(3) in auto)
  ultimately show ?thesis
    using w fs_create_wf(1) [OF assms(1) wf] by (auto simp: fs_inv_def inv_writers_def fs_simps)
qed

text \<open>The message file and the marker file of a message that has no writer.\<close>

lemma fs_inv_put_own:
  assumes "fs_create e F (messageDir mid) n = Inr (F', i)" and "fs_inv v F W" and "W mid = None"
    and "n = messageFileName \<or> n = doneFileName"
    and "\<And>m. n = messageFileName \<Longrightarrow> dec_msg v b = Inr m \<Longrightarrow> Id m = mid"
    and "mid \<noteq> '''' \<Longrightarrow> n = messageFileName \<Longrightarrow> fs_find F (messageDir mid) doneFileName = None"
    and "mid \<noteq> '''' \<Longrightarrow> n = doneFileName \<Longrightarrow>
      \<exists>m c. stored v F mid m \<and> fs_read F (messageDir mid) contentFileName = Some c \<and> verified m c"
  shows "fs_inv v (fs_set i b F') W"
proof -
  have wf: "fs_wf F" and m: "inv_msgs v F" and d: "inv_done v F" and w: "inv_writers v F W"
    using assms(2) by (auto simp: fs_inv_def)
  have "writer_ok v (fs_set i b F') k x" if "W k = Some x" for k x
  proof -
    have "messageDir mid \<noteq> messageDir k" using that assms(3) by auto
    then show ?thesis using writer_ok_put [OF assms(1) wf] w that by (auto simp: inv_writers_def)
  qed
  moreover have "inv_msgs v (fs_set i b F')"
    by (rule inv_msgs_put [OF assms(1) wf m]) (use assms(5) in simp)
  moreover have "inv_done v (fs_set i b F')"
    by (rule inv_done_put [OF assms(1) wf d]) (use assms(4,6,7) in auto)
  ultimately show ?thesis
    using w fs_create_wf(1) [OF assms(1) wf] by (auto simp: fs_inv_def inv_writers_def fs_simps)
qed

lemma fs_inv_mkdirall:
  assumes "fs_mkdirall e F (messageDir mid) = Inr F'" and "fs_inv v F W" and "W mid = None"
  shows "fs_inv v F' W"
proof -
  note k = fs_mkdirall_Inr [OF assms(1)]
  have rd: "fs_read F' = fs_read F" by (simp add: fs_read_def fun_eq_iff k)
  have "writer_ok v F' i w" if "W i = Some w" for i w
  proof -
    have "writer_ok v F i w" and "i \<noteq> mid" using that assms(2,3) by (auto simp: fs_inv_def inv_writers_def)
    then show ?thesis by (auto simp: writer_ok_def k stored_def rd)
  qed
  with assms(2) show ?thesis
    by (simp add: fs_inv_def fs_wf_def inv_msgs_def inv_done_def inv_writers_def k stored_def rd)
qed

text \<open>Opening the content file, which creates it when it is not there.\<close>

lemma fs_inv_create_content:
  assumes "fs_create e F (messageDir mid) contentFileName = Inr (F', i)" and "fs_inv v F W"
  shows "fs_inv v F' W"
  using assms(1)
proof (cases rule: fs_create_Inr)
  case old
  with assms(2) show ?thesis by simp
next
  case new
  have wf: "fs_wf F" using assms(2) by (simp add: fs_inv_def)
  have dir: "is_dir F (messageDir mid)" using assms(1) by (rule fs_create_is_dir)
  have rd: "fs_read F' x n = (if x = messageDir mid \<and> n = contentFileName then Some [] else fs_read F x n)" for x n
    using fs_read_create [OF assms(1) wf] new(1) by (simp add: fs_read_def)
  have st: "stored v F' k m \<longleftrightarrow> stored v F k m" for k m by (simp add: stored_def rd)
  have dn: "fs_find F' x doneFileName = fs_find F x doneFileName" for x by (simp add: new(4))
  have "inv_done v F'"
    using assms(2) new(1) unfolding fs_inv_def inv_done_def
    by (auto simp: dn st rd) (metis fs_read_def not_Some_eq option.map(1))
  moreover have "writer_ok v F' k w" if w: "writer_ok v F k w" for k w
  proof -
    have "w_f w \<noteq> i" using w new(2) by (simp add: writer_ok_def)
    moreover have "k = mid \<Longrightarrow> k = ''''" using w dir new(1) by (auto simp: writer_ok_def)
    ultimately show ?thesis using w
      by (auto simp: writer_ok_def new(3-6) st split: if_splits)
  qed
  ultimately show ?thesis
    using assms(2) fs_create_wf(1) [OF assms(1) wf]
    by (simp add: fs_inv_def inv_msgs_def inv_writers_def st)
qed

section \<open>The operations preserve the invariant\<close>

lemma writeMessage_inv:
  assumes "codec_strict v" and "writeMessage v e s msg = (s', er)" and "fs_inv v (st_fs s) W"
    and "W (Id msg) = None"
    and "Id msg \<noteq> '''' \<Longrightarrow> fs_find (st_fs s) (messageDir (Id msg)) doneFileName = None"
  shows "fs_inv v (st_fs s') W" and "busy s' = busy s"
    and "fs_find (st_fs s') (messageDir (Id msg)) doneFileName = fs_find (st_fs s) (messageDir (Id msg)) doneFileName"
    and "er = None \<Longrightarrow> stored v (st_fs s') (Id msg) msg"
proof -
  have "fs_inv v (st_fs s') W \<and> busy s' = busy s
    \<and> fs_find (st_fs s') (messageDir (Id msg)) doneFileName = fs_find (st_fs s) (messageDir (Id msg)) doneFileName
    \<and> (er = None \<longrightarrow> stored v (st_fs s') (Id msg) msg)"
  proof (cases "fs_mkdirall e (st_fs s) (messageDir (Id msg))")
    case (Inl x)
    with assms(2,3) show ?thesis by (auto simp: writeMessage_def)
  next
    case (Inr F)
    note k = fs_mkdirall_Inr [OF Inr] and inv = fs_inv_mkdirall [OF Inr assms(3,4)]
    show ?thesis
    proof (cases "fs_create e F (messageDir (Id msg)) messageFileName")
      case (Inl x)
      with assms(2) Inr inv k show ?thesis by (auto simp: writeMessage_def)
    next
      case r: (Inr r)
      then obtain F' i where c: "fs_create e F (messageDir (Id msg)) messageFileName = Inr (F', i)"
        by (cases r) auto
      have wf: "fs_wf F" using inv by (simp add: fs_inv_def)
      define b where "b = (if fails e (SysWrite messageFileName) then take (short e) (enc_msg v msg)
        else enc_msg v msg)"
      have s': "s' = s\<lparr>st_fs := fs_set i b F'\<rparr>" and er: "er = None \<longleftrightarrow> \<not> fails e (SysWrite messageFileName)"
        using assms(2) Inr c by (auto simp: writeMessage_def b_def split: if_splits)
      have "Id m = Id msg" if "dec_msg v b = Inr m" for m
      proof -
        have "\<exists>j. b = take j (enc_msg v msg)" unfolding b_def by (metis order_refl take_all)
        with that show ?thesis using codec_prefix [OF assms(1)] by blast
      qed
      then have "fs_inv v (fs_set i b F') W"
        using assms(4,5) k by (intro fs_inv_put_own [OF c inv]) auto
      moreover have "fs_find F' (messageDir (Id msg)) doneFileName = fs_find F (messageDir (Id msg)) doneFileName"
        using fs_create_wf(3) [OF c wf] by simp
      moreover have "stored v (fs_set i b F') (Id msg) msg" if "er = None"
        using that er assms(1)
        by (simp add: stored_put [OF c wf] b_def codec_strict_def codec_ok_def)
      ultimately show ?thesis by (simp add: s' fs_simps k)
    qed
  qed
  then show "fs_inv v (st_fs s') W" and "busy s' = busy s"
    and "fs_find (st_fs s') (messageDir (Id msg)) doneFileName = fs_find (st_fs s) (messageDir (Id msg)) doneFileName"
    and "er = None \<Longrightarrow> stored v (st_fs s') (Id msg) msg" by blast+
qed

lemma readMessage_stored: "readMessage v e s mid = Inr m \<Longrightarrow> stored v (st_fs s) mid m"
  by (auto simp: readMessage_def stored_def fs_read_def split: if_splits option.splits)

lemma storeMessage_inv:
  assumes "codec_strict v" and "storeMessage v e s msg = (s', er)" and "fs_inv v (st_fs s) W"
    and "W (Id msg) = None"
    and "Id msg \<noteq> '''' \<Longrightarrow> fs_find (st_fs s) (messageDir (Id msg)) doneFileName = None"
  shows "fs_inv v (st_fs s') W" and "busy s' = busy s"
    and "fs_find (st_fs s') (messageDir (Id msg)) doneFileName = fs_find (st_fs s) (messageDir (Id msg)) doneFileName"
    and "er = None \<Longrightarrow> \<exists>m. stored v (st_fs s') (Id msg) m \<and> Hash m = Hash msg"
proof -
  have "fs_inv v (st_fs s') W \<and> busy s' = busy s
    \<and> fs_find (st_fs s') (messageDir (Id msg)) doneFileName = fs_find (st_fs s) (messageDir (Id msg)) doneFileName
    \<and> (er = None \<longrightarrow> (\<exists>m. stored v (st_fs s') (Id msg) m \<and> Hash m = Hash msg))"
  proof (cases "readMessage v e s (Id msg)")
    case (Inl x)
    then have "writeMessage v e s msg = (s', er)" using assms(2) by (simp add: storeMessage_def)
    from writeMessage_inv [OF assms(1) this assms(3-5)] show ?thesis by blast
  next
    case (Inr m)
    then have "s' = s" and "er = None \<longleftrightarrow> Hash m = Hash msg"
      using assms(2) by (auto simp: storeMessage_def split: if_splits)
    with assms(3) readMessage_stored [OF Inr] show ?thesis by blast
  qed
  then show "fs_inv v (st_fs s') W" and "busy s' = busy s"
    and "fs_find (st_fs s') (messageDir (Id msg)) doneFileName = fs_find (st_fs s) (messageDir (Id msg)) doneFileName"
    and "er = None \<Longrightarrow> \<exists>m. stored v (st_fs s') (Id msg) m \<and> Hash m = Hash msg" by blast+
qed

lemma isComplete_find:
  "reliable e \<Longrightarrow> mid \<noteq> '''' \<Longrightarrow>
   isComplete e s mid \<longleftrightarrow> fs_find (st_fs s) (messageDir mid) doneFileName \<noteq> None"
  by (simp add: isComplete_def reliable_def fs_exists_def)

text \<open>A new writer on the content file of a message that has none.\<close>

lemma fs_inv_new_writer:
  assumes "fs_inv v F W" and "W mid = None" and "fs_find F (messageDir mid) contentFileName = Some (w_f w)"
    and "Id (w_msg w) = mid" and "hash_buf (w_h w) = fs_data F (w_f w)"
    and "w_pos w = length (fs_data F (w_f w))"
    and "mid \<noteq> '''' \<Longrightarrow> fs_find F (messageDir mid) doneFileName = None"
    and "\<exists>m. stored v F mid m \<and> Hash m = Hash (w_msg w)"
  shows "fs_inv v F (W(mid \<mapsto> w))"
proof -
  have wf: "fs_wf F" using assms(1) by (simp add: fs_inv_def)
  have "writer_ok v F mid w"
  proof (rule writer_okI)
    show "w_f w < fs_next F" using wf assms(3) by (rule fs_wfD)
    show "d = messageDir mid \<and> n = contentFileName" if "fs_find F d n = Some (w_f w)" for d n
      using wf assms(3) that by (rule fs_wfD(2))
  qed (rule assms; assumption?)+
  moreover have "w_f x \<noteq> w_f w" if "W k = Some x" for k x
  proof
    assume "w_f x = w_f w"
    with that assms(1,3) have "messageDir mid = messageDir k"
      by (auto simp: fs_inv_def inv_writers_def writer_ok_def)
    with that assms(2) show False by simp
  qed
  moreover have "inv_writers v F W" using assms(1) by (simp add: fs_inv_def)
  ultimately have "inv_writers v F (W(mid \<mapsto> w))"
    by (intro inv_writers_upd) (auto dest: inv_writersD)
  with assms(1) show ?thesis by (simp add: fs_inv_def)
qed

lemma busy_unlock: "x \<notin> A \<Longrightarrow> insert x A - {x} = A"
  by blast

text \<open>The content file is in place and there is a new writer.\<close>

lemma OpenWrite_content_inv:
  assumes "fs_create e (st_fs s) (messageDir (Id msg)) contentFileName = Inr (F, i)" and "fs_inv v (st_fs s) W"
    and "busy s = insert (Id msg) (dom W)" and "W (Id msg) = None" and "\<exists>m. stored v (st_fs s) (Id msg) m \<and> Hash m = Hash msg"
    and "Id msg \<noteq> '''' \<Longrightarrow> fs_find (st_fs s) (messageDir (Id msg)) doneFileName = None"
    and "w_f w = i" and "w_pos w = length (fs_data F i)" and "hash_buf (w_h w) = fs_data F i" and "w_msg w = msg"
  shows "store_inv v (s\<lparr>st_fs := F\<rparr>, W(Id msg \<mapsto> w))"
proof -
  have wf: "fs_wf (st_fs s)" using assms(2) by (simp add: fs_inv_def)
  note inv = fs_inv_create_content [OF assms(1,2)] and cw = fs_create_wf [OF assms(1) wf]
  have "stored v F (Id msg) m" if "stored v (st_fs s) (Id msg) m" for m
    using that by (auto simp: stored_def fs_read_create [OF assms(1) wf])
  then have "\<exists>m. stored v F (Id msg) m \<and> Hash m = Hash (w_msg w)" using assms(5,10) by auto
  moreover have "fs_find F (messageDir (Id msg)) doneFileName = None" if "Id msg \<noteq> ''''" using cw(3) assms(6) that by simp
  ultimately have "fs_inv v F (W(Id msg \<mapsto> w))"
    by (intro fs_inv_new_writer [OF inv assms(4)]) (use cw(2) assms(7-10) in auto)
  then show "store_inv v (s\<lparr>st_fs := F\<rparr>, W(Id msg \<mapsto> w))" using assms(3) by (simp add: store_inv_def)
qed

lemma OpenWrite_inv:
  assumes "codec_strict v" and "reliable e" and "OpenWrite v e s msg off = (s', r)"
    and "store_inv v (s, W)"
  shows "store_inv v (s', case r of Inl _ \<Rightarrow> W | Inr w \<Rightarrow> W(Id msg \<mapsto> w))"
proof (cases "Id msg \<in> busy s \<or> isComplete e s (Id msg)")
  case True
  then have "s' = s \<and> (\<exists>x. r = Inl x)"
    using assms(3) by (auto simp: OpenWrite_def lock_def isComplete_def unlock_def busy_unlock split: if_splits)
  with assms(4) show ?thesis by auto
next
  case False
  let ?s = "s\<lparr>busy := insert (Id msg) (busy s)\<rparr>"
  have lk: "lock s (Id msg) = Inr ?s" "\<not> isComplete e ?s (Id msg)"
    using False by (auto simp: lock_def isComplete_def)
  have fi: "fs_inv v (st_fs ?s) W" and bs: "busy s = dom W" and none: "W (Id msg) = None"
    using assms(4) False by (auto simp: store_inv_def)
  have dn: "Id msg \<noteq> '''' \<Longrightarrow> fs_find (st_fs ?s) (messageDir (Id msg)) doneFileName = None"
    using False isComplete_find [OF assms(2)] by auto
  obtain s1 er where sm: "storeMessage v e ?s msg = (s1, er)" by fastforce
  have sm': "fs_inv v (st_fs s1) W" "busy s1 = insert (Id msg) (dom W)"
    "fs_find (st_fs s1) (messageDir (Id msg)) doneFileName = fs_find (st_fs ?s) (messageDir (Id msg)) doneFileName"
    "er = None \<Longrightarrow> \<exists>m. stored v (st_fs s1) (Id msg) m \<and> Hash m = Hash msg"
    using storeMessage_inv [OF assms(1) sm fi none] dn bs by simp_all
  have un: "store_inv v (unlock (Id msg) s1, W)" using sm'(1,2) none by (auto simp: store_inv_def unlock_def)
  show ?thesis
  proof (cases "er = None \<and> (\<exists>q. fs_create e (st_fs s1) (messageDir (Id msg)) contentFileName = Inr q)")
    case True
    then obtain F i where c: "fs_create e (st_fs s1) (messageDir (Id msg)) contentFileName = Inr (F, i)" by force
    note iv = OpenWrite_content_inv [OF c sm'(1,2) none sm'(4)]
    have "store_inv v (unlock (Id msg) (s1\<lparr>st_fs := F\<rparr>), W)"
      using fs_inv_create_content [OF c sm'(1)] sm'(2) none by (auto simp: store_inv_def unlock_def)
    with True c assms(3) lk sm dn sm'(3) show ?thesis
      by (auto simp: OpenWrite_def Let_def fold_hash_write intro!: iv split: if_splits)
  next
    case False
    then have "s' = unlock (Id msg) s1 \<and> (\<exists>x. r = Inl x)"
      using assms(3) lk sm by (auto simp: OpenWrite_def split: option.splits sum.splits prod.splits)
    with un show ?thesis by auto
  qed
qed

lemma Write_inv:
  assumes "reliable e" and "W mid = Some w" and "Write e s w p = (s', w', er)" and "store_inv v (s, W)"
  shows "store_inv v (s', W(mid \<mapsto> w'))"
proof -
  let ?F = "st_fs s" and ?b = "fs_data (st_fs s) (w_f w) @ p"
  have inv: "fs_inv v ?F W" and bs: "busy s = dom W" using assms(4) by (auto simp: store_inv_def)
  then have iw: "inv_writers v ?F W" by (simp add: fs_inv_def)
  then have ok: "writer_ok v ?F mid w" using assms(2) by (rule inv_writersD)
  have s': "s' = s\<lparr>st_fs := fs_set (w_f w) ?b ?F\<rparr>"
    and w': "w' = w\<lparr>w_pos := w_pos w + length p, w_h := hash_write (w_h w) p\<rparr>"
    using assms(1,3) ok by (auto simp: Write_def reliable_def writer_ok_def)
  have rd: "fs_read (fs_set (w_f w) ?b ?F) d n = fs_read ?F d n" if "(d, n) \<noteq> (messageDir mid, contentFileName)" for d n
    using ok that by (cases "fs_find ?F d n") (auto simp: fs_read_def fs_simps writer_ok_def)
  have st: "stored v (fs_set (w_f w) ?b ?F) k m \<longleftrightarrow> stored v ?F k m" for k m
    by (simp add: stored_def rd)
  have dn: "inv_done v (fs_set (w_f w) ?b ?F)"
    unfolding inv_done_def
  proof (intro allI impI)
    fix k :: string
    assume k: "k \<noteq> ''''" and dn: "fs_find (fs_set (w_f w) ?b ?F) (messageDir k) doneFileName \<noteq> None"
    have "k \<noteq> mid"
    proof
      assume "k = mid"
      with k dn writer_okD(7) [OF ok] show False by (simp add: fs_simps)
    qed
    with inv k dn show "\<exists>m b. stored v (fs_set (w_f w) ?b ?F) k m \<and>
        fs_read (fs_set (w_f w) ?b ?F) (messageDir k) contentFileName = Some b \<and> verified m b"
      by (simp add: fs_inv_def inv_done_def st rd fs_simps)
  qed
  have "writer_ok v (fs_set (w_f w) ?b ?F) mid w'"
    using ok by (auto simp: w' writer_ok_def fs_simps st)
  moreover have "writer_ok v (fs_set (w_f w) ?b ?F) k x" if "W k = Some x" "k \<noteq> mid" for k x
  proof -
    have "writer_ok v ?F k x" "w_f x \<noteq> w_f w"
      using inv_writersD [OF iw that(1)] assms(2) that(2) by auto
    then show ?thesis by (auto simp: writer_ok_def fs_simps st)
  qed
  moreover have "w_f w' = w_f w" by (simp add: w')
  ultimately have "inv_writers v (fs_set (w_f w) ?b ?F) (W(mid \<mapsto> w'))"
    using iw assms(2) by (intro inv_writers_upd) (auto dest: inv_writersD)
  moreover have "fs_wf (fs_set (w_f w) ?b ?F)" "inv_msgs v (fs_set (w_f w) ?b ?F)"
    using inv by (auto simp: fs_inv_def inv_msgs_def st fs_simps)
  ultimately have "fs_inv v (fs_set (w_f w) ?b ?F) (W(mid \<mapsto> w'))"
    using dn by (simp add: fs_inv_def)
  with bs assms(2) show ?thesis by (auto simp: store_inv_def s')
qed

lemma closeBody_inv:
  assumes "fs_inv v (st_fs s) W" and "W mid = Some w" and "closeBody e s w = (s', er)"
  shows "fs_inv v (st_fs s') (W(mid := None))" and "busy s' = busy s"
proof -
  let ?F = "st_fs s" and ?W = "W(mid := None)"
  have ok: "writer_ok v ?F mid w" using assms(1,2) by (auto simp: fs_inv_def inv_writers_def)
  have inv: "fs_inv v ?F ?W" using assms(1) inv_writers_subset by (auto simp: fs_inv_def)
  have wid: "Id (w_msg w) = mid" using ok by (simp add: writer_ok_def)
  consider "s' = s" | "s' = s\<lparr>st_fs := fs_removeall e ?F (messageDir mid)\<rparr>"
    | "int (length (fs_data ?F (w_f w))) = Length (w_msg w)" "Sha256 (w_msg w) = hash_sum (w_h w)"
      "writeDone e s mid = (s', er)"
    using assms(3) by (auto simp: closeBody_def Let_def wid split: if_splits)
  then have "fs_inv v (st_fs s') ?W \<and> busy s' = busy s"
  proof cases
    case 3
    show ?thesis
    proof (cases "fs_create e ?F (messageDir mid) doneFileName")
      case (Inl x)
      with 3(3) inv show ?thesis by (auto simp: writeDone_def)
    next
      case (Inr q)
      then obtain F i where c: "fs_create e ?F (messageDir mid) doneFileName = Inr (F, i)" by (cases q) auto
      then obtain b where s': "s' = s\<lparr>st_fs := fs_set i b F\<rparr>"
        using 3(3) by (auto simp: writeDone_def split: if_splits)
      have "\<exists>m c. stored v ?F mid m \<and> fs_read ?F (messageDir mid) contentFileName = Some c \<and> verified m c"
        if "mid \<noteq> ''''"
      proof -
        have fnd: "fs_find ?F (messageDir mid) contentFileName = Some (w_f w)"
          and "\<exists>m. stored v ?F mid m \<and> Hash m = Hash (w_msg w)"
          using ok that fs_create_is_dir [OF c] by (auto simp: writer_ok_def)
        then obtain m where m: "stored v ?F mid m" "Hash m = Hash (w_msg w)" by blast
        then have "Id m = mid" using inv by (auto simp: fs_inv_def inv_msgs_def)
        then have "verified m (fs_data ?F (w_f w))"
          unfolding verified_def using 3(1,2) ok m(2) wid
          by (intro exI [of _ "w_msg w"]) (simp add: writer_ok_def hash_sum_def)
        with m fnd show ?thesis by (auto simp: fs_read_def)
      qed
      then have "fs_inv v (fs_set i b F) ?W"
        by (intro fs_inv_put_own [OF c inv]) auto
      then show ?thesis by (simp add: s')
    qed
  qed (use inv fs_inv_removeall in auto)
  then show "fs_inv v (st_fs s') ?W" and "busy s' = busy s" by auto
qed

lemma Close_inv:
  assumes "W mid = Some w" and "Close e s w = (s', er)" and "store_inv v (s, W)"
  shows "store_inv v (s', W(mid := None))"
proof -
  have fi: "fs_inv v (st_fs s) W" and bs: "busy s = dom W" using assms(3) by (auto simp: store_inv_def)
  then have wid: "Id (w_msg w) = mid" using assms(1) by (auto simp: fs_inv_def inv_writers_def writer_ok_def)
  obtain s1 where c: "closeBody e s w = (s1, er)" and s': "s' = unlock mid s1"
    using assms(2) wid by (auto simp: Close_def Let_def split: prod.splits)
  from closeBody_inv [OF fi assms(1) c] bs show ?thesis
    by (auto simp: store_inv_def s' unlock_def)
qed

lemma OpenRead_inv:
  assumes "OpenRead v e s mid = (s', r)" and "store_inv v (s, W)"
  shows "store_inv v (s', W)"
  using assms fs_inv_create_content [of e "st_fs s"]
  by (fastforce simp: OpenRead_def store_inv_def split: if_splits sum.splits)

lemma Offset_inv:
  assumes "Offset e s mid = (s', r)" shows "s' = s"
  using assms by (auto simp: Offset_def lock_def unlock_def busy_unlock split: if_splits)

lemma SetPeerInfo_inv:
  assumes "SetPeerInfo v e s mid peer p = (s', er)" and "store_inv v (s, W)"
  shows "store_inv v (s', W)"
  using assms fs_inv_put_other [of e "st_fs s" "messageDir mid" "peerFile peer" _ _ v W]
  by (fastforce simp: SetPeerInfo_def store_inv_def split: if_splits sum.splits)

lemma cleanup_inv:
  assumes "store_inv v (s, W)" shows "store_inv v (cleanup v e s, W)"
proof -
  have "store_inv v (cleanup_entry v e n t, W)" if "store_inv v (t, W)" for n t
    using that fs_inv_removeall [of v "st_fs t" W e n]
    by (auto simp: cleanup_entry_def store_inv_def split: option.splits sum.splits)
  then have "store_inv v (fold (cleanup_entry v e) ns t, W)" if "store_inv v (t, W)" for ns t
    using that by (induction ns arbitrary: t) auto
  with assms show ?thesis by (simp add: cleanup_def)
qed

lemma store_step_inv:
  assumes "codec_strict v" and "store_step v x y" and "store_inv v x"
  shows "store_inv v y"
  using assms(2,3)
proof (cases rule: store_step.cases)
  case (open_write e s msg off s' w W)
  with OpenWrite_inv [OF assms(1) open_write(3,4)] assms(3) show ?thesis by simp
next
  case (open_write_err e s msg off s' er W)
  with OpenWrite_inv [OF assms(1) open_write_err(3,4)] assms(3) show ?thesis by simp
next
  case (restart s W)
  with assms(3) show ?thesis by (auto simp: store_inv_def fs_inv_def inv_writers_def)
qed (auto intro: Write_inv Close_inv OpenRead_inv SetPeerInfo_inv cleanup_inv dest: Offset_inv)

lemma store_reachable_inv:
  assumes "codec_strict v" and "store_reachable v x"
  shows "store_inv v x"
  using assms(2)
proof (induction rule: store_reachable.induct)
  case init
  show ?case
    by (auto simp: store_inv_def storage_init_def fs_inv_def fs_wf_empty inv_msgs_def inv_done_def
        inv_writers_def stored_def fs_read_def fs_simps)
next
  case (step x y)
  then show ?case using store_step_inv [OF assms(1)] by blast
qed

end
