(* ===== verification/StorageSpec.thy ===== *)
theory StorageSpec
  imports StorageSafety
begin

text \<open>
  The contract of the storage interface (\<open>MessengerStorage\<close> of
  \<^verbatim>\<open>src/internal/storage.go\<close>) as a locale, over an abstract view of what a store holds under
  a message identifier, and the proof that \<open>FileStorage\<close> keeps it when no system call
  fails.  The clients of the storage are verified against the contract.
\<close>

datatype view = Absent | Partial message bytes | Complete message bytes | Broken

text \<open>Feeding packets to a writer until one fails, as the receive loop of \<open>Push\<close> does.\<close>

fun write_all :: "('s \<Rightarrow> 'w \<Rightarrow> bytes \<Rightarrow> 's \<times> 'w \<times> err option) \<Rightarrow> 's \<Rightarrow> 'w \<Rightarrow> bytes list \<Rightarrow> 's \<times> 'w \<times> err option" where
  "write_all wr s w [] = (s, w, None)"
| "write_all wr s w (p # ps) =
     (case wr s w p of
        (s, w, Some er) \<Rightarrow> (s, w, Some er)
      | (s, w, None) \<Rightarrow> write_all wr s w ps)"

section \<open>The contract\<close>

locale message_store =
  fixes open_write :: "'s \<Rightarrow> message \<Rightarrow> int64 \<Rightarrow> 's \<times> (err + 'w)"
    and wr :: "'s \<Rightarrow> 'w \<Rightarrow> bytes \<Rightarrow> 's \<times> 'w \<times> err option"
    and close_w :: "'s \<Rightarrow> 'w \<Rightarrow> 's \<times> err option"
    and open_read :: "'s \<Rightarrow> string \<Rightarrow> 's \<times> (err + message \<times> 'r)"
    and content :: "'s \<Rightarrow> 'r \<Rightarrow> bytes"
    and offset_of :: "'s \<Rightarrow> string \<Rightarrow> 's \<times> (err + int64)"
    and holds :: "'s \<Rightarrow> string \<Rightarrow> bool"
    and idle :: "'s \<Rightarrow> string \<Rightarrow> bool"
    and writing :: "'s \<Rightarrow> 'w \<Rightarrow> message \<Rightarrow> message \<Rightarrow> bytes \<Rightarrow> bool"
    and view :: "'s \<Rightarrow> string \<Rightarrow> view"
  assumes open_fresh: "idle s (Id m) \<Longrightarrow> view s (Id m) = Absent \<Longrightarrow>
      \<exists>s' w. open_write s m 0 = (s', Inr w) \<and> writing s' w m m []"
    and open_resume: "idle s (Id m) \<Longrightarrow> view s (Id m) = Partial m0 b \<Longrightarrow> Hash m0 = Hash m \<Longrightarrow>
      \<exists>s' w. open_write s m (int (length b)) = (s', Inr w) \<and> writing s' w m0 m b"
    and open_offset: "idle s (Id m) \<Longrightarrow> view s (Id m) = Partial m0 b \<Longrightarrow> Hash m0 = Hash m \<Longrightarrow>
      off \<noteq> int (length b) \<Longrightarrow>
      \<exists>s'. open_write s m off = (s', Inl (ErrIncorrectOffset off (int (length b))))
        \<and> idle s' (Id m) \<and> view s' (Id m) = Partial m0 b"
    and open_complete: "idle s (Id m) \<Longrightarrow> view s (Id m) = Complete m0 b \<Longrightarrow>
      open_write s m off = (s, Inl (ErrAlreadySeen (Id m)))"
    and open_collision: "idle s (Id m) \<Longrightarrow> view s (Id m) = Partial m0 b \<Longrightarrow> Hash m0 \<noteq> Hash m \<Longrightarrow>
      open_write s m off = (s, Inl (ErrMessageIdCollision (Id m)))"
    and writes: "writing s w m0 m b \<Longrightarrow> \<exists>s' w'. wr s w p = (s', w', None) \<and> writing s' w' m0 m (b @ p)"
    and close_partial: "writing s w m0 m b \<Longrightarrow> int (length b) < Length m \<Longrightarrow>
      \<exists>s'. close_w s w = (s', None) \<and> idle s' (Id m) \<and> view s' (Id m) = Partial m0 b"
    and close_complete: "writing s w m0 m b \<Longrightarrow> int (length b) = Length m \<Longrightarrow> sha256 b = Sha256 m \<Longrightarrow>
      \<exists>s'. close_w s w = (s', None) \<and> idle s' (Id m) \<and> view s' (Id m) = Complete m0 b"
    and close_mismatch: "writing s w m0 m b \<Longrightarrow>
      int (length b) > Length m \<or> (int (length b) = Length m \<and> sha256 b \<noteq> Sha256 m) \<Longrightarrow>
      \<exists>s'. close_w s w = (s', Some ErrContentMismatch) \<and> idle s' (Id m) \<and> view s' (Id m) = Absent"
    and read_back: "idle s i \<Longrightarrow> view s i = Complete m b \<Longrightarrow> Id m = i \<Longrightarrow>
      \<exists>s' r. open_read s i = (s', Inr (m, r)) \<and> content s' r = b"
    and read_incomplete: "idle s i \<Longrightarrow> view s i \<in> {Absent, Partial m b} \<Longrightarrow>
      open_read s i = (s, Inl (ErrVerror NoExist))"
    and offset_partial: "idle s i \<Longrightarrow> view s i = Partial m b \<Longrightarrow> offset_of s i = (s, Inr (int (length b)))"
    and offset_absent: "idle s i \<Longrightarrow> view s i = Absent \<Longrightarrow> offset_of s i = (s, Inr 0)"
    and holds_complete: "idle s i \<Longrightarrow> view s i \<noteq> Broken \<Longrightarrow> holds s i \<longleftrightarrow> (\<exists>m b. view s i = Complete m b)"
begin

lemma write_all_writing:
  assumes "writing s w m0 m b"
  shows "\<exists>s' w'. write_all wr s w ps = (s', w', None) \<and> writing s' w' m0 m (b @ concat ps)"
  using assms
proof (induction ps arbitrary: s w b)
  case Nil
  then show ?case by simp
next
  case (Cons p ps)
  obtain s1 w1 where "wr s w p = (s1, w1, None)" and "writing s1 w1 m0 m (b @ p)"
    using writes [OF Cons.prems] by blast
  with Cons.IH [of s1 w1 "b @ p"] show ?case by simp
qed

text \<open>The outcome of a transfer that resumes at what the store already holds.\<close>

lemma transfer:
  assumes "idle s (Id m)"
    and "(view s (Id m) = Absent \<and> b = [] \<and> m0 = m) \<or> (view s (Id m) = Partial m0 b \<and> Hash m0 = Hash m)"
  shows "\<exists>s1 w s2 w2. open_write s m (int (length b)) = (s1, Inr w)
    \<and> write_all wr s1 w ps = (s2, w2, None) \<and> writing s2 w2 m0 m (b @ concat ps)"
proof -
  have "\<exists>s1 w. open_write s m (int (length b)) = (s1, Inr w) \<and> writing s1 w m0 m b"
    using assms open_fresh [of s m] open_resume [of s m m0 b] by auto
  then show ?thesis using write_all_writing by blast
qed

text \<open>
  Splitting a content anywhere and sending the two parts in two sessions, the second at the
  offset the store reports, completes the message with exactly that content.
\<close>

lemma resume_roundtrip:
  assumes idle: "idle s (Id m)" and absent: "view s (Id m) = Absent"
    and len: "int (length (concat ps @ concat qs)) = Length m"
    and sha: "sha256 (concat ps @ concat qs) = Sha256 m" and part: "concat qs \<noteq> []"
  shows "\<exists>s1 w1 s2 w2 s3 s4 w4 s5 w5 s6 s7 r.
    open_write s m 0 = (s1, Inr w1) \<and> write_all wr s1 w1 ps = (s2, w2, None) \<and> close_w s2 w2 = (s3, None)
    \<and> offset_of s3 (Id m) = (s3, Inr (int (length (concat ps))))
    \<and> open_write s3 m (int (length (concat ps))) = (s4, Inr w4)
    \<and> write_all wr s4 w4 qs = (s5, w5, None) \<and> close_w s5 w5 = (s6, None)
    \<and> open_read s6 (Id m) = (s7, Inr (m, r)) \<and> content s7 r = concat ps @ concat qs"
proof -
  obtain s1 w1 s2 w2 where a: "open_write s m 0 = (s1, Inr w1)" "write_all wr s1 w1 ps = (s2, w2, None)"
    "writing s2 w2 m m (concat ps)"
    using transfer [OF idle, of "[]" m ps] absent by auto
  have "0 < length (concat qs)" using part by (simp only: length_greater_0_conv) simp
  then have "int (length (concat ps)) < Length m" using len unfolding length_append by linarith
  then obtain s3 where c: "close_w s2 w2 = (s3, None)" "idle s3 (Id m)" "view s3 (Id m) = Partial m (concat ps)"
    using close_partial [OF a(3)] by blast
  obtain s4 w4 s5 w5 where d: "open_write s3 m (int (length (concat ps))) = (s4, Inr w4)"
    "write_all wr s4 w4 qs = (s5, w5, None)" "writing s5 w5 m m (concat ps @ concat qs)"
    using transfer [OF c(2), of "concat ps" m qs] c(3) by blast
  obtain s6 where f: "close_w s5 w5 = (s6, None)" "idle s6 (Id m)"
    "view s6 (Id m) = Complete m (concat ps @ concat qs)"
    using close_complete [OF d(3) len sha] by blast
  obtain s7 r where "open_read s6 (Id m) = (s7, Inr (m, r))" "content s7 r = concat ps @ concat qs"
    using read_back [OF f(2,3)] by blast
  with a c d f offset_partial [OF c(2,3)] show ?thesis by blast
qed

end

section \<open>FileStorage keeps the contract\<close>

definition quiet :: "env \<Rightarrow> bool" where
  "quiet e \<longleftrightarrow> (\<forall>op. \<not> fails e op)"

definition stored_msg :: "codec \<Rightarrow> fs \<Rightarrow> string \<Rightarrow> message option" where
  "stored_msg v F mid =
     (case fs_read F (messageDir mid) messageFileName of
        None \<Rightarrow> None
      | Some mb \<Rightarrow> (case dec_msg v mb of Inl _ \<Rightarrow> None | Inr m \<Rightarrow> Some m))"

definition fs_view :: "codec \<Rightarrow> storage \<Rightarrow> string \<Rightarrow> view" where
  "fs_view v s mid =
     (let F = st_fs s; d = messageDir mid; done = fs_find F d doneFileName \<noteq> None
      in case (stored_msg v F mid, fs_read F d contentFileName) of
           (None, None) \<Rightarrow> if done then Broken else Absent
         | (None, Some _) \<Rightarrow> Broken
         | (Some m, None) \<Rightarrow> if done then Broken else Partial m []
         | (Some m, Some b) \<Rightarrow> if done then Complete m b else Partial m b)"

definition fs_idle :: "codec \<Rightarrow> env \<Rightarrow> storage \<Rightarrow> string \<Rightarrow> bool" where
  "fs_idle v e s mid \<longleftrightarrow> codec_ok v \<and> quiet e \<and> fs_wf (st_fs s) \<and> mid \<noteq> '''' \<and> mid \<notin> busy s
     \<and> fs_find (st_fs s) '''' (messageDir mid) = None"

definition fs_writing :: "codec \<Rightarrow> env \<Rightarrow> storage \<Rightarrow> fileWrapper \<Rightarrow> message \<Rightarrow> message \<Rightarrow> bytes \<Rightarrow> bool" where
  "fs_writing v e s w m0 m b \<longleftrightarrow> codec_ok v \<and> quiet e \<and> fs_wf (st_fs s) \<and> Id m \<noteq> ''''
     \<and> fs_find (st_fs s) '''' (messageDir (Id m)) = None
     \<and> stored_msg v (st_fs s) (Id m) = Some m0
     \<and> fs_find (st_fs s) (messageDir (Id m)) contentFileName = Some (w_f w)
     \<and> fs_find (st_fs s) (messageDir (Id m)) doneFileName = None
     \<and> fs_data (st_fs s) (w_f w) = b \<and> w_pos w = length b \<and> hash_buf (w_h w) = b \<and> w_msg w = m"

lemma stored_msg_stored: "stored_msg v F mid = Some m \<longleftrightarrow> stored v F mid m"
  by (auto simp: stored_msg_def stored_def split: option.splits sum.splits)

lemma quiet_readMessage:
  "quiet e \<Longrightarrow> readMessage v e s mid = Inr m \<longleftrightarrow> stored_msg v (st_fs s) mid = Some m"
  by (auto simp: quiet_def readMessage_def stored_msg_def fs_read_def split: option.splits sum.splits)

lemma quiet_stored_msg:
  "quiet e \<Longrightarrow> stored_msg v (st_fs s) mid = (case readMessage v e s mid of Inl _ \<Rightarrow> None | Inr m \<Rightarrow> Some m)"
  by (auto simp: quiet_def readMessage_def stored_msg_def fs_read_def split: option.splits sum.splits)

lemma quiet_isComplete:
  "quiet e \<Longrightarrow> mid \<noteq> '''' \<Longrightarrow> isComplete e s mid \<longleftrightarrow> fs_find (st_fs s) (messageDir mid) doneFileName \<noteq> None"
  by (simp add: isComplete_def quiet_def fs_exists_def)

lemma fs_view_simps:
  "fs_view v s mid = Absent \<longleftrightarrow> stored_msg v (st_fs s) mid = None
     \<and> fs_find (st_fs s) (messageDir mid) contentFileName = None
     \<and> fs_find (st_fs s) (messageDir mid) doneFileName = None"
  "fs_view v s mid = Partial m b \<longleftrightarrow> stored_msg v (st_fs s) mid = Some m
     \<and> fs_find (st_fs s) (messageDir mid) doneFileName = None
     \<and> (case fs_read (st_fs s) (messageDir mid) contentFileName of None \<Rightarrow> [] | Some c \<Rightarrow> c) = b"
  "fs_view v s mid = Complete m b \<longleftrightarrow> stored_msg v (st_fs s) mid = Some m
     \<and> fs_find (st_fs s) (messageDir mid) doneFileName \<noteq> None
     \<and> fs_read (st_fs s) (messageDir mid) contentFileName = Some b"
  by (auto simp: fs_view_def fs_read_def Let_def split: option.splits)

lemma fs_view_cong:
  assumes "\<And>n. n \<in> {messageFileName, contentFileName, doneFileName} \<Longrightarrow>
    fs_read (st_fs s) (messageDir mid) n = fs_read (st_fs t) (messageDir mid) n"
  shows "fs_view v s mid = fs_view v t mid"
proof -
  show ?thesis unfolding fs_view_def stored_msg_def fs_find_None Let_def using assms by (simp only: insert_iff simp_thms)
qed

text \<open>The records of the peers through \<open>fs_read\<close>.\<close>

lemma getPeerInfo_read:
  "getPeerInfo v e s mid peer = (if fails e (SysOpen (peerFile peer)) then zero_PeerInfo
     else case fs_read (st_fs s) (messageDir mid) (peerFile peer) of None \<Rightarrow> zero_PeerInfo | Some b \<Rightarrow> dec_pi v b)"
  by (auto simp: getPeerInfo_def fs_read_def split: option.splits)

lemma SetPeerInfo_cases:
  assumes "SetPeerInfo v e s mid peer info = (s', er)" and "fs_wf (st_fs s)"
  obtains (unchanged) "s' = s" | (set_file) b where "fs_wf (st_fs s')" "busy s' = busy s" "is_dir (st_fs s') = is_dir (st_fs s)"
    "\<And>d n. fs_read (st_fs s') d n = (if d = messageDir mid \<and> n = peerFile peer then Some b else fs_read (st_fs s) d n)"
    "\<not> fails e (SysWrite (peerFile peer)) \<Longrightarrow> b = enc_pi v info"
proof (cases "fs_create e (st_fs s) (messageDir mid) (peerFile peer)")
  case (Inr r)
  obtain F i where "r = (F, i)" by force
  note c = Inr [unfolded this]
  from assms(1) c that(2) fs_create_wf(1,4) [OF c assms(2)] fs_read_put [OF c assms(2)] show thesis
    by (auto simp: SetPeerInfo_def fs_simps split: if_splits)
qed (use assms(1) that(1) in \<open>auto simp: SetPeerInfo_def\<close>)

lemma quiet_create:
  assumes "quiet e" and "is_dir F d" and "d \<noteq> ''''"
  shows "\<exists>F' i. fs_create e F d n = Inr (F', i)"
  using assms by (auto simp: quiet_def is_dir_def fs_create_def split: option.splits)

lemma stored_msg_dir: "stored_msg v F mid = Some m \<Longrightarrow> is_dir F (messageDir mid)"
  by (auto simp: stored_msg_def fs_read_def split: option.splits dest: fs_find_dir)

text \<open>Opening the content file once the message file is in place.\<close>

lemma OpenWrite_quiet:
  assumes "fs_idle v e s (Id m)" and "fs_find (st_fs s) (messageDir (Id m)) doneFileName = None"
    and "storeMessage v e (s\<lparr>busy := insert (Id m) (busy s)\<rparr>) m = (s1, None)"
    and "fs_wf (st_fs s1)" and "stored_msg v (st_fs s1) (Id m) = Some m0"
  obtains F i where "fs_create e (st_fs s1) (messageDir (Id m)) contentFileName = Inr (F, i)"
    and "stored_msg v F (Id m) = Some m0"
    and "fs_data F i = (case fs_read (st_fs s1) (messageDir (Id m)) contentFileName of None \<Rightarrow> [] | Some c \<Rightarrow> c)"
    and "OpenWrite v e s m off =
      (if int (length (fs_data F i)) \<noteq> off
       then (unlock (Id m) (s1\<lparr>st_fs := F\<rparr>), Inl (ErrIncorrectOffset off (int (length (fs_data F i)))))
       else (s1\<lparr>st_fs := F\<rparr>, Inr \<lparr>w_f = i, w_pos = nat off,
         w_h = fold (\<lambda>p h. hash_write h p) (chunks 2048 (fs_data F i)) hash_new, w_msg = m\<rparr>))"
proof -
  have q: "quiet e" and mid: "Id m \<noteq> ''''" and lk: "Id m \<notin> busy s" using assms(1) by (auto simp: fs_idle_def)
  obtain F i where c: "fs_create e (st_fs s1) (messageDir (Id m)) contentFileName = Inr (F, i)"
    using quiet_create [OF q stored_msg_dir [OF assms(5)], of contentFileName] mid by auto
  have nc: "\<not> isComplete e (s\<lparr>busy := insert (Id m) (busy s)\<rparr>) (Id m)"
    using quiet_isComplete [OF q mid] assms(2) by simp
  show thesis
  proof (rule that [OF c])
    show "stored_msg v F (Id m) = Some m0"
      using assms(5) by (simp add: stored_msg_def fs_read_create [OF c assms(4)])
    show "fs_data F i = (case fs_read (st_fs s1) (messageDir (Id m)) contentFileName of None \<Rightarrow> [] | Some c \<Rightarrow> c)"
      using fs_create_wf(8) [OF c assms(4)] .
    show "OpenWrite v e s m off = (if int (length (fs_data F i)) \<noteq> off
       then (unlock (Id m) (s1\<lparr>st_fs := F\<rparr>), Inl (ErrIncorrectOffset off (int (length (fs_data F i)))))
       else (s1\<lparr>st_fs := F\<rparr>, Inr \<lparr>w_f = i, w_pos = nat off,
         w_h = fold (\<lambda>p h. hash_write h p) (chunks 2048 (fs_data F i)) hash_new, w_msg = m\<rparr>))"
      using q lk nc assms(3) c by (simp add: OpenWrite_def lock_def Let_def quiet_def)
  qed
qed

lemma storeMessage_fresh:
  assumes "fs_idle v e s (Id m)" and "fs_view v s (Id m) = Absent"
  obtains s1 where "storeMessage v e (s\<lparr>busy := insert (Id m) (busy s)\<rparr>) m = (s1, None)"
    and "fs_wf (st_fs s1)" and "stored_msg v (st_fs s1) (Id m) = Some m"
    and "busy s1 = insert (Id m) (busy s)"
    and "\<And>n. n \<noteq> messageFileName \<Longrightarrow> fs_find (st_fs s1) (messageDir (Id m)) n = fs_find (st_fs s) (messageDir (Id m)) n"
    and "\<And>n. n \<noteq> messageFileName \<Longrightarrow> fs_read (st_fs s1) (messageDir (Id m)) n = fs_read (st_fs s) (messageDir (Id m)) n"
    and "fs_find (st_fs s1) '''' (messageDir (Id m)) = None"
proof -
  let ?s = "s\<lparr>busy := insert (Id m) (busy s)\<rparr>" and ?d = "messageDir (Id m)"
  have q: "quiet e" and ok: "codec_ok v" and wf: "fs_wf (st_fs s)" and mid: "Id m \<noteq> ''''"
    and root: "fs_find (st_fs s) '''' ?d = None" using assms(1) by (auto simp: fs_idle_def)
  have none: "stored_msg v (st_fs ?s) (Id m) = None" using assms(2) by (simp add: fs_view_simps)
  then obtain x where "readMessage v e ?s (Id m) = Inl x"
    using quiet_readMessage [OF q] by (metis old.sum.exhaust option.distinct(1))
  then have sm: "storeMessage v e ?s m = writeMessage v e ?s m" by (simp add: storeMessage_def)
  obtain F where mk: "fs_mkdirall e (st_fs s) ?d = Inr F"
    using q root by (auto simp: fs_mkdirall_def quiet_def)
  note k = fs_mkdirall_Inr [OF mk]
  have wfF: "fs_wf F" using wf by (simp add: fs_wf_def k)
  obtain F' i where c: "fs_create e F ?d messageFileName = Inr (F', i)"
    using quiet_create [OF q, of F ?d messageFileName] k(2) mid by auto
  note cw = fs_create_wf [OF c wfF]
  let ?s1 = "?s\<lparr>st_fs := fs_set i (enc_msg v m) F'\<rparr>"
  show thesis
  proof (rule that [of ?s1])
    show "storeMessage v e ?s m = (?s1, None)"
      unfolding sm using mk c q by (simp add: writeMessage_def quiet_def)
    show "stored_msg v (st_fs ?s1) (Id m) = Some m"
      using ok by (simp add: stored_msg_stored stored_put [OF c wfF] codec_ok_def)
    show "fs_read (st_fs ?s1) ?d n = fs_read (st_fs s) ?d n" if "n \<noteq> messageFileName" for n
      using that by (simp add: fs_read_put [OF c wfF]) (simp add: fs_read_def k)
  qed (use cw(1,3) mid root in \<open>simp_all add: fs_simps k\<close>)
qed

text \<open>The laws, one by one.\<close>

lemma fs_writingI:
  assumes "fs_idle v e s (Id m)" and "fs_find (st_fs s) (messageDir (Id m)) doneFileName = None"
    and "storeMessage v e (s\<lparr>busy := insert (Id m) (busy s)\<rparr>) m = (s1, None)"
    and "fs_wf (st_fs s1)" and "stored_msg v (st_fs s1) (Id m) = Some m0"
    and "fs_find (st_fs s1) (messageDir (Id m)) doneFileName = None"
    and "fs_find (st_fs s1) '''' (messageDir (Id m)) = None"
    and "(case fs_read (st_fs s1) (messageDir (Id m)) contentFileName of None \<Rightarrow> [] | Some c \<Rightarrow> c) = b"
  shows "\<exists>s' w. OpenWrite v e s m (int (length b)) = (s', Inr w) \<and> fs_writing v e s' w m0 m b"
proof -
  obtain F i where c: "fs_create e (st_fs s1) (messageDir (Id m)) contentFileName = Inr (F, i)"
    and st: "stored_msg v F (Id m) = Some m0" and dt: "fs_data F i = b"
    and ow: "OpenWrite v e s m (int (length b)) = (s1\<lparr>st_fs := F\<rparr>, Inr \<lparr>w_f = i, w_pos = length b,
         w_h = fold (\<lambda>p h. hash_write h p) (chunks 2048 b) hash_new, w_msg = m\<rparr>)"
    using OpenWrite_quiet [OF assms(1-5), of "int (length b)"] assms(8) by (metis nat_int)
  note cw = fs_create_wf [OF c assms(4)]
  have "fs_writing v e (s1\<lparr>st_fs := F\<rparr>) \<lparr>w_f = i, w_pos = length b,
         w_h = fold (\<lambda>p h. hash_write h p) (chunks 2048 b) hash_new, w_msg = m\<rparr> m0 m b"
    using assms(1,6,7) cw(1-3) st dt by (simp add: fs_writing_def fs_idle_def fold_hash_write)
  with ow show ?thesis by blast
qed

lemma fs_open_fresh:
  assumes "fs_idle v e s (Id m)" and "fs_view v s (Id m) = Absent"
  shows "\<exists>s' w. OpenWrite v e s m 0 = (s', Inr w) \<and> fs_writing v e s' w m m []"
proof -
  obtain s1 where s1: "storeMessage v e (s\<lparr>busy := insert (Id m) (busy s)\<rparr>) m = (s1, None)"
    "fs_wf (st_fs s1)" "stored_msg v (st_fs s1) (Id m) = Some m"
    "\<And>n. n \<noteq> messageFileName \<Longrightarrow> fs_find (st_fs s1) (messageDir (Id m)) n = fs_find (st_fs s) (messageDir (Id m)) n"
    "\<And>n. n \<noteq> messageFileName \<Longrightarrow> fs_read (st_fs s1) (messageDir (Id m)) n = fs_read (st_fs s) (messageDir (Id m)) n"
    "fs_find (st_fs s1) '''' (messageDir (Id m)) = None"
    by (rule storeMessage_fresh [OF assms]) blast
  have v: "fs_find (st_fs s) (messageDir (Id m)) doneFileName = None"
    "fs_read (st_fs s) (messageDir (Id m)) contentFileName = None"
    using assms(2) by (simp_all add: fs_view_simps fs_read_def)
  have "\<exists>s' w. OpenWrite v e s m (int (length ([] :: bytes))) = (s', Inr w) \<and> fs_writing v e s' w m m []"
    by (rule fs_writingI [OF assms(1) v(1) s1(1-3)]) (use v s1(4-6) in simp_all)
  then show ?thesis by simp
qed

lemma storeMessage_same:
  assumes "fs_idle v e s (Id m)" and "stored_msg v (st_fs s) (Id m) = Some m0" and "Hash m0 = Hash m"
  shows "storeMessage v e (s\<lparr>busy := B\<rparr>) m = (s\<lparr>busy := B\<rparr>, None)"
proof -
  have "readMessage v e (s\<lparr>busy := B\<rparr>) (Id m) = Inr m0"
    using assms(1,2) by (simp add: quiet_readMessage fs_idle_def)
  with assms(3) show ?thesis by (simp add: storeMessage_def)
qed

lemma fs_open_resume:
  assumes "fs_idle v e s (Id m)" and "fs_view v s (Id m) = Partial m0 b" and "Hash m0 = Hash m"
  shows "\<exists>s' w. OpenWrite v e s m (int (length b)) = (s', Inr w) \<and> fs_writing v e s' w m0 m b"
proof -
  note p = assms(2) [unfolded fs_view_simps]
  show ?thesis
    by (rule fs_writingI [OF assms(1) _ storeMessage_same [OF assms(1) _ assms(3)]])
      (use p assms(1) in \<open>auto simp: fs_idle_def\<close>)
qed

lemma fs_open_offset:
  assumes "fs_idle v e s (Id m)" and "fs_view v s (Id m) = Partial m0 b" and "Hash m0 = Hash m"
    and "off \<noteq> int (length b)"
  shows "\<exists>s'. OpenWrite v e s m off = (s', Inl (ErrIncorrectOffset off (int (length b))))
    \<and> fs_idle v e s' (Id m) \<and> fs_view v s' (Id m) = Partial m0 b"
proof -
  note p = assms(2) [unfolded fs_view_simps]
  have wf: "fs_wf (st_fs (s\<lparr>busy := insert (Id m) (busy s)\<rparr>))" using assms(1) by (simp add: fs_idle_def)
  have st: "stored_msg v (st_fs (s\<lparr>busy := insert (Id m) (busy s)\<rparr>)) (Id m) = Some m0" using p by simp
  obtain F i where c: "fs_create e (st_fs s) (messageDir (Id m)) contentFileName = Inr (F, i)"
    and stF: "stored_msg v F (Id m) = Some m0" and dt: "fs_data F i = b"
    and ow: "OpenWrite v e s m off =
      (unlock (Id m) (s\<lparr>busy := insert (Id m) (busy s)\<rparr>\<lparr>st_fs := F\<rparr>), Inl (ErrIncorrectOffset off (int (length b))))"
    by (rule OpenWrite_quiet [OF assms(1) _ storeMessage_same [OF assms(1) _ assms(3)] wf st, of off])
      (use p assms(4) in auto)
  note cw = fs_create_wf [OF c wf [simplified]]
  have "fs_idle v e (unlock (Id m) (s\<lparr>busy := insert (Id m) (busy s)\<rparr>\<lparr>st_fs := F\<rparr>)) (Id m)"
    using assms(1) cw(1,3) by (simp add: fs_idle_def unlock_def)
  moreover have "fs_view v (unlock (Id m) (s\<lparr>busy := insert (Id m) (busy s)\<rparr>\<lparr>st_fs := F\<rparr>)) (Id m) = Partial m0 b"
    using stF p cw(3) dt cw(2) by (simp add: fs_view_simps unlock_def fs_read_def)
  ultimately show ?thesis using ow by blast
qed

lemma fs_open_complete:
  assumes "fs_idle v e s (Id m)" and "fs_view v s (Id m) = Complete m0 b"
  shows "OpenWrite v e s m off = (s, Inl (ErrAlreadySeen (Id m)))"
proof -
  have "isComplete e (s\<lparr>busy := insert (Id m) (busy s)\<rparr>) (Id m)"
    using assms by (simp add: quiet_isComplete fs_idle_def fs_view_simps)
  with assms(1) show ?thesis
    by (simp add: OpenWrite_def lock_def fs_idle_def unlock_def busy_unlock)
qed

lemma fs_open_collision:
  assumes "fs_idle v e s (Id m)" and "fs_view v s (Id m) = Partial m0 b" and "Hash m0 \<noteq> Hash m"
  shows "OpenWrite v e s m off = (s, Inl (ErrMessageIdCollision (Id m)))"
proof -
  let ?s = "s\<lparr>busy := insert (Id m) (busy s)\<rparr>"
  have "\<not> isComplete e ?s (Id m)" "readMessage v e ?s (Id m) = Inr m0"
    using assms by (simp_all add: quiet_isComplete quiet_readMessage fs_idle_def fs_view_simps)
  with assms(1,3) show ?thesis
    by (simp add: OpenWrite_def storeMessage_def lock_def fs_idle_def unlock_def busy_unlock)
qed

lemma fs_writes:
  assumes "fs_writing v e s w m0 m b"
  shows "\<exists>s' w'. Write e s w p = (s', w', None) \<and> fs_writing v e s' w' m0 m (b @ p)"
proof -
  have wf: "fs_wf (st_fs s)" and fc: "fs_find (st_fs s) (messageDir (Id m)) contentFileName = Some (w_f w)"
    using assms by (simp_all add: fs_writing_def)
  let ?F = "fs_set (w_f w) (b @ p) (st_fs s)"
  have "fs_find (st_fs s) (messageDir (Id m)) messageFileName \<noteq> Some (w_f w)"
    using fs_wfD(2) [OF wf fc] by (metis file_names(1))
  then have "stored_msg v ?F (Id m) = stored_msg v (st_fs s) (Id m)"
    by (auto simp: stored_msg_def fs_read_def fs_simps split: option.splits)
  then have "fs_writing v e (s\<lparr>st_fs := ?F\<rparr>) (w\<lparr>w_pos := w_pos w + length p, w_h := hash_write (w_h w) p\<rparr>) m0 m (b @ p)"
    using assms by (simp add: fs_writing_def fs_simps)
  moreover have "Write e s w p = (s\<lparr>st_fs := ?F\<rparr>, w\<lparr>w_pos := w_pos w + length p, w_h := hash_write (w_h w) p\<rparr>, None)"
    using assms by (simp add: Write_def fs_writing_def quiet_def)
  ultimately show ?thesis by blast
qed

lemma fs_close_partial:
  assumes "fs_writing v e s w m0 m b" and "int (length b) < Length m"
  shows "\<exists>s'. Close e s w = (s', None) \<and> fs_idle v e s' (Id m) \<and> fs_view v s' (Id m) = Partial m0 b"
proof -
  have "Close e s w = (unlock (Id m) s, None)"
    using assms by (auto simp: Close_def closeBody_def fs_writing_def quiet_def Let_def)
  moreover have "fs_idle v e (unlock (Id m) s) (Id m)" "fs_view v (unlock (Id m) s) (Id m) = Partial m0 b"
    using assms by (auto simp: fs_idle_def fs_writing_def unlock_def fs_view_simps fs_read_def)
  ultimately show ?thesis by blast
qed

lemma fs_close_complete:
  assumes "fs_writing v e s w m0 m b" and "int (length b) = Length m" and "sha256 b = Sha256 m"
  shows "\<exists>s'. Close e s w = (s', None) \<and> fs_idle v e s' (Id m) \<and> fs_view v s' (Id m) = Complete m0 b"
proof -
  let ?d = "messageDir (Id m)"
  have q: "quiet e" and wf: "fs_wf (st_fs s)" and mid: "Id m \<noteq> ''''"
    and st: "stored_msg v (st_fs s) (Id m) = Some m0" using assms(1) by (auto simp: fs_writing_def)
  obtain F i where c: "fs_create e (st_fs s) ?d doneFileName = Inr (F, i)"
    using quiet_create [OF q stored_msg_dir [OF st], of doneFileName] mid by auto
  note cw = fs_create_wf [OF c wf]
  let ?s = "unlock (Id m) (s\<lparr>st_fs := fs_set i ''done'' F\<rparr>)"
  have "Close e s w = (?s, None)"
    using assms q c by (simp add: Close_def closeBody_def writeDone_def fs_writing_def quiet_def hash_sum_def Let_def)
  moreover have "fs_idle v e ?s (Id m)"
    using assms(1) cw(1,3) by (simp add: fs_idle_def fs_writing_def unlock_def fs_simps)
  moreover have "fs_view v ?s (Id m) = Complete m0 b"
  proof -
    have "stored_msg v (fs_set i ''done'' F) (Id m) = Some m0"
      using st by (simp add: stored_msg_stored stored_put [OF c wf])
    moreover have "fs_read (fs_set i ''done'' F) ?d contentFileName = Some b"
      using assms(1) by (simp add: fs_read_put [OF c wf]) (simp add: fs_read_def fs_writing_def)
    ultimately show ?thesis using cw(2) by (simp add: fs_view_simps unlock_def fs_simps)
  qed
  ultimately show ?thesis by blast
qed

lemma fs_close_mismatch:
  assumes "fs_writing v e s w m0 m b"
    and "int (length b) > Length m \<or> (int (length b) = Length m \<and> sha256 b \<noteq> Sha256 m)"
  shows "\<exists>s'. Close e s w = (s', Some ErrContentMismatch) \<and> fs_idle v e s' (Id m) \<and> fs_view v s' (Id m) = Absent"
proof -
  let ?F = "fs_removeall e (st_fs s) (messageDir (Id m))"
  let ?s = "unlock (Id m) (s\<lparr>st_fs := ?F\<rparr>)"
  have q: "quiet e" and mid: "Id m \<noteq> ''''" using assms(1) by (auto simp: fs_writing_def)
  have fnd: "fs_find ?F d n = (if d = messageDir (Id m) \<or> (d = '''' \<and> n = messageDir (Id m)) then None
      else fs_find (st_fs s) d n)" for d n
    using q mid by (auto simp: fs_removeall_find gone_def quiet_def)
  have "fs_wf ?F" using assms(1) by (auto simp: fs_writing_def fs_wf_def fnd split: if_splits)
  then have "fs_idle v e ?s (Id m)" using assms(1) mid by (simp add: fs_idle_def fs_writing_def unlock_def fnd)
  moreover have "fs_view v ?s (Id m) = Absent"
    by (simp add: fs_view_simps unlock_def fnd stored_msg_def fs_read_def)
  moreover have "Close e s w = (?s, Some ErrContentMismatch)"
    using assms q by (auto simp: Close_def closeBody_def fs_writing_def quiet_def hash_sum_def Let_def)
  ultimately show ?thesis by blast
qed

lemma fs_read_back:
  assumes "fs_idle v e s i" and "fs_view v s i = Complete m b" and "Id m = i"
  shows "\<exists>s' r. OpenRead v e s i = (s', Inr (m, r)) \<and> read_rest s' r = b"
proof -
  have q: "quiet e" and mid: "i \<noteq> ''''" and wf: "fs_wf (st_fs s)" using assms(1) by (auto simp: fs_idle_def)
  have st: "stored_msg v (st_fs s) i = Some m" and dn: "isComplete e s i"
    and rd: "fs_read (st_fs s) (messageDir i) contentFileName = Some b"
    using assms(2) quiet_isComplete [OF q mid] by (simp_all add: fs_view_simps)
  obtain F j where c: "fs_create e (st_fs s) (messageDir i) contentFileName = Inr (F, j)"
    using quiet_create [OF q stored_msg_dir [OF st], of contentFileName] mid by auto
  have "readMessage v e s i = Inr m" using st quiet_readMessage [OF q] by blast
  then have "OpenRead v e s i = (s\<lparr>st_fs := F\<rparr>, Inr (m, \<lparr>r_f = j, r_pos = 0\<rparr>))"
    using dn c assms(3) by (simp add: OpenRead_def)
  moreover have "fs_data F j = b" using fs_create_wf(8) [OF c wf] rd by simp
  ultimately show ?thesis by (auto simp: read_rest_def)
qed

lemma fs_read_incomplete:
  assumes "fs_idle v e s i" and "fs_view v s i \<in> {Absent, Partial m b}"
  shows "OpenRead v e s i = (s, Inl (ErrVerror NoExist))"
  using assms by (auto simp: OpenRead_def quiet_isComplete fs_idle_def fs_view_simps)

lemma fs_offset:
  assumes "fs_idle v e s i" and "fs_view v s i = Absent \<and> b = [] \<or> fs_view v s i = Partial m b"
  shows "Offset e s i = (s, Inr (int (length b)))"
proof -
  let ?s = "s\<lparr>busy := insert i (busy s)\<rparr>"
  have q: "quiet e" and mid: "i \<noteq> ''''" using assms(1) by (auto simp: fs_idle_def)
  have "\<not> isComplete e ?s i" using assms(2) quiet_isComplete [OF q mid] by (auto simp: fs_view_simps)
  moreover have "(case fs_read (st_fs s) (messageDir i) contentFileName of None \<Rightarrow> [] | Some c \<Rightarrow> c) = b"
    using assms(2) by (auto simp: fs_view_simps fs_read_def)
  ultimately show ?thesis using assms(1) q
    by (auto simp: Offset_def lock_def unlock_def busy_unlock fs_idle_def quiet_def fs_read_def split: option.splits)
qed

lemma fs_holds:
  assumes "fs_idle v e s i" and "fs_view v s i \<noteq> Broken"
  shows "Exists e s i \<longleftrightarrow> (\<exists>m b. fs_view v s i = Complete m b)"
  using assms by (cases "fs_view v s i") (auto simp: Exists_def quiet_isComplete fs_idle_def fs_view_simps)

interpretation fstore: message_store "OpenWrite v e" "Write e" "Close e" "OpenRead v e" read_rest
  "Offset e" "Exists e" "fs_idle v e" "fs_writing v e" "fs_view v" for v e
proof unfold_locales
  show "fs_idle v e s i \<Longrightarrow> fs_view v s i = Absent \<Longrightarrow> Offset e s i = (s, Inr 0)" for s i
    using fs_offset [of v e s i "[]"] by simp
qed (rule fs_open_fresh fs_open_resume fs_open_offset fs_open_complete fs_open_collision fs_writes
    fs_close_partial fs_close_complete fs_close_mismatch fs_read_back fs_read_incomplete fs_holds
    fs_offset [OF _ disjI2]; assumption)+

end
