(* ===== verification/ExampleCodec.thy ===== *)
theory ExampleCodec
  imports StorageSafety
begin

text \<open>
  A concrete, executable codec that satisfies what the storage assumes of \<^verbatim>\<open>vom\<close>: numbers in
  decimal with a terminator, strings and lists prefixed by their length.  It is not the
  \<^verbatim>\<open>vom\<close> format; it shows that the hypotheses \<open>codec_ok\<close> and \<open>codec_strict\<close> can be met
  and is the instance the witnesses use.
\<close>

type_synonym 'a parser = "string \<Rightarrow> ('a \<times> string) option"

text \<open>A parser inverts an encoder and never looks beyond what it consumes.\<close>

definition parses :: "('a \<Rightarrow> string) \<Rightarrow> 'a parser \<Rightarrow> bool" where
  "parses f p \<longleftrightarrow> (\<forall>x r. p (f x @ r) = Some (x, r))
     \<and> (\<forall>s a r t. p s = Some (a, r) \<longrightarrow> p (s @ t) = Some (a, r @ t))"

lemma parsesD:
  assumes "parses f p"
  shows "p (f x @ r) = Some (x, r)" and "p s = Some (a, r) \<Longrightarrow> p (s @ t) = Some (a, r @ t)"
  using assms unfolding parses_def by blast+

definition put_int :: "int \<Rightarrow> string" where
  "put_int i = itoa i @ '',''"

definition atoi :: "string \<Rightarrow> int" where
  "atoi s = (case s of [] \<Rightarrow> 0 | c # t \<Rightarrow> if c = CHR ''-'' then - int (dec_val t) else int (dec_val s))"

definition get_int :: "int parser" where
  "get_int s = (let t = takeWhile (\<lambda>c. c \<noteq> CHR '','') s in
     case drop (length t) s of [] \<Rightarrow> None | _ # r \<Rightarrow> Some (atoi t, r))"

lemma atoi_itoa: "atoi (itoa i) = i"
proof (cases "i < 0")
  case True
  then show ?thesis by (simp add: atoi_def itoa_def)
next
  case False
  have "dec (nat i) \<noteq> CHR ''-'' # t" for t using dec_no_minus [of "nat i"] by (metis list.set_intros(1))
  then have "atoi (dec (nat i)) = int (dec_val (dec (nat i)))"
    by (cases "dec (nat i)") (auto simp: atoi_def dec_val_def)
  with False show ?thesis by (simp add: itoa_def)
qed

lemma takeWhile_comma:
  "CHR '','' \<notin> set a \<Longrightarrow> takeWhile (\<lambda>c. c \<noteq> CHR '','') (a @ CHR '','' # r) = a"
  by (induction a) auto

lemma parses_int: "parses put_int get_int"
  unfolding parses_def
proof (intro conjI allI impI)
  fix x r
  have "CHR '','' \<notin> set (itoa x)" using itoa_chars [of "CHR '',''" x] by auto
  then show "get_int (put_int x @ r) = Some (x, r)"
    using takeWhile_comma [of "itoa x" r] by (simp add: get_int_def put_int_def atoi_itoa)
next
  fix s a r t
  assume p: "get_int s = Some (a, r)"
  let ?t = "takeWhile (\<lambda>c. c \<noteq> CHR '','') s"
  from p have "drop (length ?t) s \<noteq> []" by (auto simp: get_int_def Let_def split: list.splits)
  then have "?t \<noteq> s" by (metis drop_all order_refl)
  then obtain c where "c \<in> set s" "\<not> c \<noteq> CHR '',''"
    unfolding takeWhile_eq_all_conv by blast
  then have tw: "takeWhile (\<lambda>c. c \<noteq> CHR '','') (s @ t) = ?t"
    by (rule takeWhile_append1)
  have "length ?t \<le> length s" by (rule length_takeWhile_le)
  with p show "get_int (s @ t) = Some (a, r @ t)"
    unfolding get_int_def Let_def tw by (auto split: list.splits)
qed

definition put_str :: "string \<Rightarrow> string" where
  "put_str s = put_int (int (length s)) @ s"

definition get_str :: "string parser" where
  "get_str s = (case get_int s of
     None \<Rightarrow> None
   | Some (n, r) \<Rightarrow> if nat n \<le> length r then Some (take (nat n) r, drop (nat n) r) else None)"

lemma parses_str: "parses put_str get_str"
  unfolding parses_def
proof (intro conjI allI impI)
  fix x r
  show "get_str (put_str x @ r) = Some (x, r)"
    using parsesD(1) [OF parses_int, of "int (length x)" "x @ r"] by (simp add: get_str_def put_str_def)
next
  fix s a r t
  assume "get_str s = Some (a, r)"
  then obtain n q where q: "get_int s = Some (n, q)" "nat n \<le> length q" "a = take (nat n) q" "r = drop (nat n) q"
    by (auto simp: get_str_def split: option.splits if_splits)
  with parsesD(2) [OF parses_int q(1)] show "get_str (s @ t) = Some (a, r @ t)"
    by (simp add: get_str_def)
qed

definition put_pair :: "('a \<Rightarrow> string) \<Rightarrow> ('b \<Rightarrow> string) \<Rightarrow> 'a \<times> 'b \<Rightarrow> string" where
  "put_pair f g x = f (fst x) @ g (snd x)"

definition get_pair :: "'a parser \<Rightarrow> 'b parser \<Rightarrow> ('a \<times> 'b) parser" where
  "get_pair p q s = (case p s of None \<Rightarrow> None
   | Some (a, r) \<Rightarrow> (case q r of None \<Rightarrow> None | Some (b, r) \<Rightarrow> Some ((a, b), r)))"

lemma parses_pair:
  assumes "parses f p" and "parses g q"
  shows "parses (put_pair f g) (get_pair p q)"
  unfolding parses_def
proof (intro conjI allI impI)
  fix x r
  show "get_pair p q (put_pair f g x @ r) = Some (x, r)"
    by (simp add: get_pair_def put_pair_def parsesD(1) [OF assms(1)] parsesD(1) [OF assms(2)])
next
  fix s x r t
  assume "get_pair p q s = Some (x, r)"
  then obtain a u b where "p s = Some (a, u)" "q u = Some (b, r)" "x = (a, b)"
    by (auto simp: get_pair_def split: option.splits)
  then show "get_pair p q (s @ t) = Some (x, r @ t)"
    by (simp add: get_pair_def parsesD(2) [OF assms(1)] parsesD(2) [OF assms(2)])
qed

fun get_times :: "'a parser \<Rightarrow> nat \<Rightarrow> 'a list parser" where
  "get_times p 0 s = Some ([], s)"
| "get_times p (Suc n) s = (case p s of None \<Rightarrow> None
   | Some (a, r) \<Rightarrow> (case get_times p n r of None \<Rightarrow> None | Some (as, r) \<Rightarrow> Some (a # as, r)))"

definition put_list :: "('a \<Rightarrow> string) \<Rightarrow> 'a list \<Rightarrow> string" where
  "put_list f xs = put_int (int (length xs)) @ concat (map f xs)"

definition get_list :: "'a parser \<Rightarrow> 'a list parser" where
  "get_list p s = (case get_int s of None \<Rightarrow> None | Some (n, r) \<Rightarrow> get_times p (nat n) r)"

lemma get_times_put:
  "parses f p \<Longrightarrow> get_times p (length xs) (concat (map f xs) @ r) = Some (xs, r)"
  by (induction xs) (simp_all add: parsesD(1))

lemma get_times_more:
  "parses f p \<Longrightarrow> get_times p n s = Some (xs, r) \<Longrightarrow> get_times p n (s @ t) = Some (xs, r @ t)"
  by (induction n arbitrary: s xs) (auto simp: parsesD(2) split: option.splits)

lemma parses_list:
  assumes "parses f p"
  shows "parses (put_list f) (get_list p)"
  unfolding parses_def
proof (intro conjI allI impI)
  fix xs r
  show "get_list p (put_list f xs @ r) = Some (xs, r)"
    using parsesD(1) [OF parses_int, of "int (length xs)" "concat (map f xs) @ r"]
    by (simp add: get_list_def put_list_def get_times_put [OF assms])
next
  fix s a r t
  assume "get_list p s = Some (a, r)"
  then obtain n q where q: "get_int s = Some (n, q)" "get_times p (nat n) q = Some (a, r)"
    by (auto simp: get_list_def split: option.splits)
  from parsesD(2) [OF parses_int q(1)] get_times_more [OF assms q(2)]
  show "get_list p (s @ t) = Some (a, r @ t)" by (simp add: get_list_def)
qed

section \<open>The codec\<close>

type_synonym wire = "string list \<times> string \<times> (string \<times> string) list \<times> string \<times> string
  \<times> string \<times> int \<times> int \<times> int \<times> string"

definition to_wire :: "message \<Rightarrow> wire" where
  "to_wire m = (Hops m, SenderBlessings m, SenderDischarges m, Signature m, Id m, Recipient m,
     CreationTime m, Lifespan m, Length m, Sha256 m)"

definition of_wire :: "wire \<Rightarrow> message" where
  "of_wire w = (case w of (h, b, d, sg, i, rc, ct, lsp, len, sh) \<Rightarrow>
     \<lparr>Hops = h, SenderBlessings = b, SenderDischarges = d, Signature = sg, Id = i, Recipient = rc,
      CreationTime = ct, Lifespan = lsp, Length = len, Sha256 = sh\<rparr>)"

lemma of_to_wire [simp]: "of_wire (to_wire m) = m"
  by (simp add: of_wire_def to_wire_def)

definition put_wire :: "wire \<Rightarrow> string" where
  "put_wire = put_pair (put_list put_str) (put_pair put_str (put_pair (put_list (put_pair put_str put_str))
     (put_pair put_str (put_pair put_str (put_pair put_str (put_pair put_int (put_pair put_int
     (put_pair put_int put_str))))))))"

definition get_wire :: "wire parser" where
  "get_wire = get_pair (get_list get_str) (get_pair get_str (get_pair (get_list (get_pair get_str get_str))
     (get_pair get_str (get_pair get_str (get_pair get_str (get_pair get_int (get_pair get_int
     (get_pair get_int get_str))))))))"

lemma parses_wire: "parses put_wire get_wire"
  unfolding put_wire_def get_wire_def
  by (intro parses_pair parses_list parses_str parses_int)

definition put_pi :: "PeerInfo \<Rightarrow> string" where
  "put_pi p = put_int (if Sent p then 1 else 0) @ put_int (if FatalError p then 1 else 0)
     @ put_int (NextAttempt p) @ put_int (NumAttempts p)"

definition get_pi :: "string \<Rightarrow> PeerInfo" where
  "get_pi s = (case get_pair get_int (get_pair get_int (get_pair get_int get_int)) s of
     None \<Rightarrow> zero_PeerInfo
   | Some ((a, b, c, d), _) \<Rightarrow>
       \<lparr>Sent = a \<noteq> 0, FatalError = b \<noteq> 0, NextAttempt = c, NumAttempts = d\<rparr>)"

definition text_codec :: codec where
  "text_codec = \<lparr>enc_msg = (\<lambda>m. put_wire (to_wire m)),
     dec_msg = (\<lambda>s. case get_wire s of Some (w, []) \<Rightarrow> Inr (of_wire w) | _ \<Rightarrow> Inl (ErrOS ''decode'')),
     enc_pi = put_pi, dec_pi = get_pi\<rparr>"

lemma get_put_pi: "get_pi (put_pi p) = p"
proof -
  have "parses (put_pair put_int (put_pair put_int (put_pair put_int put_int)))
      (get_pair get_int (get_pair get_int (get_pair get_int get_int)))"
    by (intro parses_pair parses_int)
  from parsesD(1) [OF this, of "(if Sent p then 1 else 0, if FatalError p then 1 else 0, NextAttempt p, NumAttempts p)" "[]"]
  show ?thesis by (cases p) (simp add: put_pi_def get_pi_def put_pair_def)
qed

lemma text_codec_ok: "codec_ok text_codec"
  using parsesD(1) [OF parses_wire, of _ "[]"]
  by (simp add: codec_ok_def text_codec_def get_put_pi)

lemma text_codec_strict: "codec_strict text_codec"
proof -
  have "\<exists>er. dec_msg text_codec (take k (enc_msg text_codec m)) = Inl er"
    if k: "k < length (enc_msg text_codec m)" for k m
  proof (cases "get_wire (take k (put_wire (to_wire m)))")
    case None
    then show ?thesis by (simp add: text_codec_def)
  next
    case (Some x)
    obtain w r where x: "x = (w, r)" by (cases x)
    have "get_wire (take k (put_wire (to_wire m)) @ drop k (put_wire (to_wire m)))
        = Some (w, r @ drop k (put_wire (to_wire m)))"
      using parsesD(2) [OF parses_wire] Some x by blast
    moreover have "get_wire (put_wire (to_wire m) @ []) = Some (to_wire m, [])"
      by (rule parsesD(1) [OF parses_wire])
    ultimately have "drop k (put_wire (to_wire m)) = []" by simp
    with k show ?thesis by (simp add: text_codec_def)
  qed
  with text_codec_ok show ?thesis by (simp add: codec_strict_def)
qed

end
