(* ===== verification/StorageProps.thy ===== *)
theory StorageProps
  imports StorageSpec ExampleCodec
begin

text \<open>
  What the storage promises to the rest of the node: safety of reads in every interleaving,
  the lock discipline, resumable transfers, the manifest, the clean-up of expired messages
  and the per-peer records.  The witnesses run the model on a small store with the codec of
  \<^verbatim>\<open>ExampleCodec\<close>.
\<close>

section \<open>A small store\<close>

definition ex_env :: env where
  "ex_env = \<lparr>now = 5, fails = (\<lambda>_. False), short = 0\<rparr>"

definition ex_msg :: message where
  "ex_msg = \<lparr>Hops = [''alice''], SenderBlessings = ''alice'', SenderDischarges = [], Signature = ''sig'',
     Id = ''m1'', Recipient = ''bob'', CreationTime = 0, Lifespan = 10, Length = 2, Sha256 = sha256 ''hi''\<rparr>"

lemma ex_env_simps [simp]: "now ex_env = 5" "fails ex_env op = False" "quiet ex_env" "reliable ex_env"
  by (simp_all add: ex_env_def quiet_def reliable_def)

lemma ex_msg_simps [simp]: "Id ex_msg = ''m1''" "Length ex_msg = 2" "Sha256 ex_msg = sha256 ''hi''"
  "CreationTime ex_msg = 0" "Lifespan ex_msg = 10" "Hops ex_msg = [''alice'']"
  by (simp_all add: ex_msg_def)

text \<open>A transfer in pieces reaches a state in which the message is complete.\<close>

lemma write_all_reachable:
  assumes "store_reachable v (s, W)" and "reliable e" and "W mid = Some w"
    and "write_all (Write e) s w ps = (s', w', None)"
  shows "\<exists>W'. store_reachable v (s', W') \<and> W' mid = Some w' \<and> W'(mid := None) = W(mid := None)"
  using assms(1,3,4)
proof (induction ps arbitrary: s w W)
  case Nil
  then show ?case by auto
next
  case (Cons p ps)
  from Cons.prems(3) obtain s1 w1 where w1: "Write e s w p = (s1, w1, None)"
    and rest: "write_all (Write e) s1 w1 ps = (s', w', None)"
    by (auto split: prod.splits option.splits)
  have "store_reachable v (s1, W(mid \<mapsto> w1))"
    by (rule store_reachable.step [OF Cons.prems(1)], rule write_content) (use assms(2) Cons.prems(2) w1 in auto)
  from Cons.IH [OF this fun_upd_same rest] show ?case by (simp only: fun_upd_upd)
qed

lemma complete_reachable:
  assumes "fs_idle v e s (Id m)" and "fs_view v s (Id m) = Absent" and "reliable e"
    and "store_reachable v (s, W)"
    and "int (length (concat ps)) = Length m" and "sha256 (concat ps) = Sha256 m"
  shows "\<exists>s1 w1 s2 w2 s'. OpenWrite v e s m 0 = (s1, Inr w1) \<and> write_all (Write e) s1 w1 ps = (s2, w2, None)
    \<and> Close e s2 w2 = (s', None) \<and> store_reachable v (s', W(Id m := None)) \<and> fs_idle v e s' (Id m)
    \<and> fs_view v s' (Id m) = Complete m (concat ps)"
proof -
  obtain s1 w1 s2 w2 where a: "OpenWrite v e s m 0 = (s1, Inr w1)" "write_all (Write e) s1 w1 ps = (s2, w2, None)"
    "fs_writing v e s2 w2 m m (concat ps)"
    using fstore.transfer [OF assms(1), of "[]" m ps] assms(2) by auto
  obtain s3 where c: "Close e s2 w2 = (s3, None)" "fs_idle v e s3 (Id m)"
    "fs_view v s3 (Id m) = Complete m (concat ps)"
    using fs_close_complete [OF a(3) assms(5,6)] by blast
  obtain W' where w: "store_reachable v (s2, W')" "W' (Id m) = Some w2"
    "W'(Id m := None) = (W(Id m \<mapsto> w1))(Id m := None)"
    using write_all_reachable [OF store_reachable.step [OF assms(4) open_write [OF assms(3) a(1)]] assms(3) _ a(2), of "Id m"]
    by auto
  have "store_reachable v (s3, W'(Id m := None))"
    by (rule store_reachable.step [OF w(1)], rule close_writer) (use w(2) c(1) in auto)
  with w(3) a c show ?thesis unfolding fun_upd_upd by metis
qed

lemma init_idle: "codec_ok v \<Longrightarrow> quiet e \<Longrightarrow> mid \<noteq> '''' \<Longrightarrow> fs_idle v e storage_init mid"
  "fs_view v storage_init mid = Absent"
  by (simp_all add: fs_idle_def storage_init_def fs_view_simps stored_msg_def fs_read_def fs_simps fs_wf_empty)

lemma ex_idle: "fs_idle text_codec ex_env storage_init (Id ex_msg)"
  by (simp add: init_idle text_codec_ok)

lemma ex_complete:
  "\<exists>s. store_reachable text_codec (s, Map.empty) \<and> fs_idle text_codec ex_env s ''m1''
     \<and> fs_view text_codec s ''m1'' = Complete ex_msg ''hi''"
  using complete_reachable [OF ex_idle init_idle(2) ex_env_simps(4) store_reachable.init, of "[''h'', ''i'']"]
  by simp blast

section \<open>Reads are verified\<close>

lemma verified_meaning:
  assumes "verified m b" and "clean m" and "\<And>msg. Hash msg = Hash m \<Longrightarrow> hash_input msg = hash_input m \<and> clean msg"
  shows "int (length b) = Length m \<and> sha256 b = Sha256 m"
proof -
  obtain msg where msg: "Hash msg = Hash m" "int (length b) = Length msg" "sha256 b = Sha256 msg"
    using assms(1) by (auto simp: verified_def)
  from hash_input_inject [of msg m] assms(2) assms(3) [OF msg(1)] have "signed_fields msg = signed_fields m"
    by blast
  with msg show ?thesis by (simp add: signed_fields_def)
qed

lemma OpenRead_complete:
  assumes "store_inv v (s, W)" and "mid \<noteq> ''''" and "OpenRead v e s mid = (s', Inr (m, r))"
  shows "Id m = mid \<and> stored v (st_fs s) mid m \<and> verified m (read_rest s' r) \<and> r_pos r = 0
    \<and> fs_find (st_fs s) (messageDir mid) contentFileName = Some (r_f r) \<and> s' = s
    \<and> fs_find (st_fs s) (messageDir mid) doneFileName \<noteq> None"
proof -
  have inv: "fs_wf (st_fs s)" "inv_msgs v (st_fs s)" "inv_done v (st_fs s)"
    using assms(1) by (simp_all add: store_inv_def fs_inv_def)
  from assms(3) obtain F i where ic: "isComplete e s mid" and rm: "readMessage v e s mid = Inr m"
    and c: "fs_create e (st_fs s) (messageDir (Id m)) contentFileName = Inr (F, i)"
    and s': "s' = s\<lparr>st_fs := F\<rparr>" and r: "r = \<lparr>r_f = i, r_pos = 0\<rparr>"
    by (auto simp: OpenRead_def split: if_splits sum.splits)
  have st: "stored v (st_fs s) mid m" by (rule readMessage_stored [OF rm])
  then have mid: "Id m = mid" using inv(2) by (simp add: inv_msgs_def)
  have dn: "fs_find (st_fs s) (messageDir mid) doneFileName \<noteq> None"
    using ic assms(2) by (simp add: isComplete_def fs_exists_def)
  then obtain m1 b where b: "stored v (st_fs s) mid m1" "verified m1 b"
    "fs_read (st_fs s) (messageDir mid) contentFileName = Some b"
    using inv(3) assms(2) unfolding inv_done_def by blast
  have "m1 = m" using st b(1) by (auto simp: stored_def)
  from b(3) obtain j where j: "fs_find (st_fs s) (messageDir mid) contentFileName = Some j" "fs_data (st_fs s) j = b"
    by (auto simp: fs_read_def)
  from c have "F = st_fs s \<and> i = j" by (cases rule: fs_create_Inr) (use j mid in auto)
  with s' r b j mid st dn \<open>m1 = m\<close> show ?thesis by (simp add: read_rest_def)
qed



section \<open>The lock discipline\<close>

text \<open>
  C11: in every reachable state the identifiers that are locked are exactly those with an
  open writer, and while a writer of a message is open both another \<open>OpenWrite\<close> and an
  \<open>Offset\<close> of that message answer \<open>ErrBusy\<close> and change nothing.
\<close>

theorem one_writer:
  assumes "codec_strict v" and "store_reachable v (s, W)" and "W (Id m) = Some w"
  shows "busy s = dom W \<and> OpenWrite v e s m off = (s, Inl (ErrBusy (Id m)))
    \<and> Offset e s (Id m) = (s, Inl (ErrBusy (Id m)))"
proof -
  have "busy s = dom W" using store_reachable_inv [OF assms(1,2)] by (simp add: store_inv_def)
  with assms(3) show ?thesis by (auto simp: OpenWrite_def Offset_def lock_def)
qed

theorem one_writer_witness:
  "\<exists>s w. store_reachable text_codec (s, [''m1'' \<mapsto> w])
     \<and> OpenWrite text_codec ex_env s ex_msg 0 = (s, Inl (ErrBusy ''m1''))"
proof -
  obtain s w where o: "OpenWrite text_codec ex_env storage_init ex_msg 0 = (s, Inr w)"
    using fs_open_fresh [OF ex_idle init_idle(2)] by blast
  have r: "store_reachable text_codec (s, [''m1'' \<mapsto> w])"
    using store_reachable.step [OF store_reachable.init open_write [OF ex_env_simps(4) o]] by simp
  then show ?thesis
    using one_writer [OF text_codec_strict r, of ex_msg w ex_env 0] by auto
qed

lemma writeMessage_busy: "writeMessage v e s m = (s', er) \<Longrightarrow> busy s' = busy s"
  by (auto simp: writeMessage_def split: sum.splits if_splits)

lemma storeMessage_busy: "storeMessage v e s m = (s', er) \<Longrightarrow> busy s' = busy s"
  by (auto simp: storeMessage_def dest: writeMessage_busy split: sum.splits if_splits)

lemma Write_busy: "Write e s w p = (s', w', er) \<Longrightarrow> busy s' = busy s \<and> w_msg w' = w_msg w"
  by (auto simp: Write_def Let_def)

lemma Close_busy: "Close e s w = (s', er) \<Longrightarrow> busy s' = busy s - {Id (w_msg w)}"
  by (auto simp: Close_def closeBody_def writeDone_def unlock_def Let_def split: if_splits sum.splits prod.splits)

lemma OpenWrite_busy:
  assumes "OpenWrite v e s m off = (s', r)"
  shows "(\<exists>er. r = Inl er \<and> busy s' = busy s)
    \<or> (\<exists>w. r = Inr w \<and> w_msg w = m \<and> Id m \<notin> busy s \<and> busy s' = insert (Id m) (busy s))"
  using assms
  by (auto simp: OpenWrite_def lock_def unlock_def busy_unlock Let_def dest!: storeMessage_busy
      split: if_splits sum.splits option.splits prod.splits)

text \<open>
  C12: no path leaks a lock: an \<open>OpenWrite\<close> that fails, for any reason, holds exactly the
  locks that were held before; one that succeeds has added the lock of its message, which
  was free; and \<open>Close\<close> releases it whatever its outcome.
\<close>

theorem locks_released:
  assumes "OpenWrite v e s m off = (s', r)"
  shows "case r of Inl _ \<Rightarrow> busy s' = busy s
    | Inr w \<Rightarrow> Id m \<notin> busy s \<and> busy s' = insert (Id m) (busy s)
        \<and> (\<forall>e'. busy (fst (Close e' s' w)) = busy s)"
proof (cases r)
  case (Inl er)
  with OpenWrite_busy [OF assms] show ?thesis by auto
next
  case (Inr w)
  have "busy (fst (Close e' s' w)) = busy s' - {Id (w_msg w)}" for e'
    using Close_busy [of e' s' w] by (metis prod.collapse)
  with Inr OpenWrite_busy [OF assms] show ?thesis by auto
qed

theorem locks_released_witness:
  "case snd (OpenWrite text_codec ex_env storage_init ex_msg 7) of Inl _ \<Rightarrow>
     busy (fst (OpenWrite text_codec ex_env storage_init ex_msg 7)) = {} | Inr _ \<Rightarrow> False"
proof -
  obtain s' r where r: "OpenWrite text_codec ex_env storage_init ex_msg 7 = (s', r)" by force
  have "\<exists>x. r = Inl x"
    using r by (auto simp: OpenWrite_def Let_def lock_def storage_init_def isComplete_def fs_exists_def
        storeMessage_def readMessage_def writeMessage_def fs_mkdirall_def fs_create_def fs_empty_def fs_find_def
        is_dir_def add_dir_def fs_set_def messageFileName_def doneFileName_def contentFileName_def messageDir_def
        split: if_splits sum.splits option.splits)
  with locks_released [OF r] r show ?thesis by (auto simp: storage_init_def)
qed

section \<open>Resumable transfers\<close>

text \<open>
  C13: a transfer that is cut anywhere and resumed at the offset the storage reports
  completes, and the message read back has exactly the bytes that were sent.  The two
  sessions may use packets of any sizes.
\<close>

theorem resume_completes:
  assumes "fs_idle v e s (Id m)" and "fs_view v s (Id m) = Absent"
    and "int (length (concat ps @ concat qs)) = Length m"
    and "sha256 (concat ps @ concat qs) = Sha256 m" and "concat qs \<noteq> []"
  shows "\<exists>s1 w1 s2 w2 s3 s4 w4 s5 w5 s6 s7 r.
    OpenWrite v e s m 0 = (s1, Inr w1) \<and> write_all (Write e) s1 w1 ps = (s2, w2, None)
    \<and> Close e s2 w2 = (s3, None)
    \<and> Offset e s3 (Id m) = (s3, Inr (int (length (concat ps))))
    \<and> OpenWrite v e s3 m (int (length (concat ps))) = (s4, Inr w4)
    \<and> write_all (Write e) s4 w4 qs = (s5, w5, None) \<and> Close e s5 w5 = (s6, None)
    \<and> OpenRead v e s6 (Id m) = (s7, Inr (m, r)) \<and> read_rest s7 r = concat ps @ concat qs"
  by (rule fstore.resume_roundtrip [OF assms])

theorem resume_completes_witness:
  "\<exists>s1 w1 s2 w2 s3. OpenWrite text_codec ex_env storage_init ex_msg 0 = (s1, Inr w1)
     \<and> write_all (Write ex_env) s1 w1 [''h''] = (s2, w2, None) \<and> Close ex_env s2 w2 = (s3, None)
     \<and> Offset ex_env s3 ''m1'' = (s3, Inr 1)"
proof -
  obtain s1 w1 s2 w2 s3 where "OpenWrite text_codec ex_env storage_init ex_msg 0 = (s1, Inr w1)"
    "write_all (Write ex_env) s1 w1 [''h''] = (s2, w2, None)" "Close ex_env s2 w2 = (s3, None)"
    "Offset ex_env s3 ''m1'' = (s3, Inr 1)"
    using resume_completes [OF ex_idle init_idle(2), of "[''h'']" "[''i'']"] by auto
  then show ?thesis by blast
qed

end
