(* ===== verification/StorageManifest.thy ===== *)
theory StorageManifest
  imports StorageProps
begin

text \<open>
  The enumeration of the store directory: what \<open>Manifest\<close> sends, what the clean-up pass
  removes, and the records \<open>SetPeerInfo\<close> keeps beside a message.  In every reachable
  state the subdirectories of the store are listed once each and are the directories of
  messages.
\<close>

section \<open>The store directory\<close>

definition dirs_ok :: "fs \<Rightarrow> bool" where
  "dirs_ok F \<longleftrightarrow> distinct (map fst (fs_dirs F)) \<and> (\<forall>d. is_dir F d \<longrightarrow> d \<in> range messageDir \<and> is_dir F '''')"

lemma dirs_ok_set: "dirs_ok (fs_set i b F) \<longleftrightarrow> dirs_ok F"
  by (simp add: dirs_ok_def fs_simps) (simp add: fs_set_def)

lemma dirs_ok_create:
  assumes "fs_create e F d n = Inr (F', i)" and "dirs_ok F"
  shows "dirs_ok F'"
proof -
  have "is_dir F' = is_dir F" using assms(1) by (cases rule: fs_create_Inr) auto
  moreover have "distinct (map fst (fs_dirs F'))"
    using assms distinct_update [of "fs_dirs F"]
    by (auto simp: dirs_ok_def fs_create_def split: if_splits option.splits)
  ultimately show ?thesis using assms(2) by (simp add: dirs_ok_def)
qed

lemma range_messageDir_Nil: "'''' \<in> range messageDir"
  by (rule range_eqI [of _ _ "''''"]) simp

lemma messageDir_empty [simp]: "messageDir '''' = ''''"
  by simp

lemma dirs_ok_add: "dirs_ok F \<Longrightarrow> is_dir F '''' \<or> mid = '''' \<Longrightarrow> dirs_ok (add_dir (messageDir mid) F)"
  using map_of_eq_None_fst [of "fs_dirs F" "messageDir mid"]
  by (auto simp: dirs_ok_def fs_simps) (auto simp: add_dir_def is_dir_def)

lemma dirs_ok_mkdirall:
  assumes "fs_mkdirall e F (messageDir mid) = Inr F'" and "dirs_ok F"
  shows "dirs_ok F'"
proof -
  have "F' = add_dir (messageDir mid) (add_dir '''' F)"
    using assms(1) by (auto simp: fs_mkdirall_def split: if_splits)
  moreover have "dirs_ok (add_dir '''' F)" using dirs_ok_add [OF assms(2), of "''''"] by simp
  ultimately show ?thesis using dirs_ok_add [of "add_dir '''' F" mid] by (simp add: fs_simps)
qed

lemma dirs_ok_removeall: "dirs_ok F \<Longrightarrow> dirs_ok (fs_removeall e F d)"
  by (auto simp: dirs_ok_def fs_removeall_dir gone_def)
    (auto simp: fs_removeall_def distinct_map_entry distinct_delete)

lemmas dirs_ok_ops = dirs_ok_set dirs_ok_create dirs_ok_mkdirall dirs_ok_removeall

lemma writeMessage_dirs:
  "writeMessage v e s m = (s', er) \<Longrightarrow> dirs_ok (st_fs s) \<Longrightarrow> dirs_ok (st_fs s')"
  by (auto simp: writeMessage_def dirs_ok_set split: sum.splits if_splits
      dest!: dirs_ok_mkdirall dirs_ok_create)

lemma storeMessage_dirs:
  "storeMessage v e s m = (s', er) \<Longrightarrow> dirs_ok (st_fs s) \<Longrightarrow> dirs_ok (st_fs s')"
  by (auto simp: storeMessage_def dest: writeMessage_dirs split: sum.splits if_splits)

lemma OpenWrite_dirs:
  assumes "OpenWrite v e s m off = (s', r)" and "dirs_ok (st_fs s)" shows "dirs_ok (st_fs s')"
proof (cases "lock s (Id m)")
  case (Inl er)
  with assms show ?thesis by (simp add: OpenWrite_def)
next
  case (Inr s0)
  then have s0: "dirs_ok (st_fs s0)" using assms(2) by (auto simp: lock_def split: if_splits)
  obtain s1 er where sm: "storeMessage v e s0 m = (s1, er)" by force
  have s1: "dirs_ok (st_fs s1)" by (rule storeMessage_dirs [OF sm s0])
  have "dirs_ok F" if "fs_create e (st_fs s1) (messageDir (Id m)) contentFileName = Inr (F, i)" for F i
    using dirs_ok_create [OF that s1] .
  with assms(1) Inr s0 sm s1 show ?thesis
    by (auto simp: OpenWrite_def unlock_def Let_def split: if_splits sum.splits option.splits)
qed

lemma Close_dirs: "Close e s w = (s', er) \<Longrightarrow> dirs_ok (st_fs s) \<Longrightarrow> dirs_ok (st_fs s')"
  by (auto simp: Close_def closeBody_def writeDone_def unlock_def Let_def dirs_ok_set dirs_ok_removeall
      split: if_splits sum.splits prod.splits dest: dirs_ok_create)

lemma cleanup_dirs:
  assumes "dirs_ok (st_fs s)" shows "dirs_ok (st_fs (cleanup v e s))"
proof -
  have "dirs_ok (st_fs (cleanup_entry v e n t))" if "dirs_ok (st_fs t)" for n t
    using that by (auto simp: cleanup_entry_def dirs_ok_removeall split: option.splits sum.splits)
  then have "dirs_ok (st_fs (fold (cleanup_entry v e) ns t))" if "dirs_ok (st_fs t)" for ns t
    using that by (induction ns arbitrary: t) auto
  with assms show ?thesis by (simp add: cleanup_def)
qed

lemma store_step_dirs:
  assumes "store_step v (s, W) (s', W')" and "dirs_ok (st_fs s)"
  shows "dirs_ok (st_fs s')"
  using assms
proof (cases rule: store_step.cases)
  case (write_content e mid w p w' er)
  with assms(2) show ?thesis by (auto simp: Write_def Let_def dirs_ok_set)
next
  case (open_read e mid r)
  with assms(2) show ?thesis by (auto simp: OpenRead_def split: if_splits sum.splits dest: dirs_ok_create)
next
  case (set_peer_info e mid peer p er)
  with assms(2) show ?thesis
    by (auto simp: SetPeerInfo_def dirs_ok_set split: if_splits sum.splits dest!: dirs_ok_create)
qed (auto intro: OpenWrite_dirs Close_dirs cleanup_dirs dest: Offset_inv)

lemma store_reachable_dirs:
  assumes "store_reachable v x" shows "dirs_ok (st_fs (fst x))"
  using assms
proof (induction rule: store_reachable.induct)
  case init
  show ?case by (simp add: storage_init_def dirs_ok_def fs_simps) (simp add: fs_empty_def)
next
  case (step x y)
  then show ?case using store_step_dirs [of v "fst x" "snd x" "fst y" "snd y"] by simp
qed

text \<open>
  The store directory has files of its own only when a message with an empty identifier
  was stored; otherwise its entries are the message directories.
\<close>

definition no_root_files :: "fs \<Rightarrow> bool" where
  "no_root_files F \<longleftrightarrow> (\<forall>n. fs_find F '''' n = None)"

lemma readdir_dirs:
  assumes "no_root_files F"
  shows "fs_readdir F = filter (\<lambda>d. d \<noteq> '''') (map fst (fs_dirs F))"
proof (cases "map_of (fs_dirs F) ''''")
  case (Some es)
  have "map_of es k = None" for k
    using assms Some unfolding no_root_files_def fs_find_def by (metis option.simps(5))
  then have "es = []" using map_of_eq_None_fst [of es] by (cases es) auto
  with Some show ?thesis by (simp add: fs_readdir_def)
qed (simp add: fs_readdir_def)

lemma in_readdir:
  assumes "no_root_files F" and "dirs_ok F"
  shows "n \<in> set (fs_readdir F) \<longleftrightarrow> (\<exists>mid. mid \<noteq> '''' \<and> n = messageDir mid \<and> is_dir F n)"
proof -
  have "n \<in> set (fs_readdir F) \<longleftrightarrow> n \<noteq> '''' \<and> is_dir F n"
    using map_of_eq_None_fst [of "fs_dirs F" n] by (auto simp: readdir_dirs [OF assms(1)] is_dir_def)
  with assms(2) show ?thesis by (auto simp: dirs_ok_def)
qed

lemma distinct_readdir: "no_root_files F \<Longrightarrow> dirs_ok F \<Longrightarrow> distinct (fs_readdir F)"
  by (simp add: readdir_dirs dirs_ok_def distinct_filter)

lemma DecodeString_messageDir [simp]: "DecodeString (messageDir mid) = Some mid"
  by (simp add: messageDir_def)

section \<open>The manifest\<close>

lemma manifest_entry_messageDir:
  assumes "store_inv v (s, W)" and "quiet e" and "mid \<noteq> ''''"
  shows "manifest_entry v e s (messageDir mid) = Some m \<longleftrightarrow>
    Id m = mid \<and> (\<exists>b. fs_view v s mid = Complete m b) \<and> Expired (now e) m = None"
proof -
  have inv: "inv_msgs v (st_fs s)" "inv_done v (st_fs s)" using assms(1) by (simp_all add: store_inv_def fs_inv_def)
  have "manifest_entry v e s (messageDir mid) = Some m \<longleftrightarrow>
      fs_find (st_fs s) (messageDir mid) doneFileName \<noteq> None \<and> stored_msg v (st_fs s) mid = Some m
      \<and> Expired (now e) m = None"
    by (auto simp: manifest_entry_def quiet_isComplete [OF assms(2,3)] quiet_stored_msg [OF assms(2)] split: sum.splits)
  moreover have "\<exists>b. fs_read (st_fs s) (messageDir mid) contentFileName = Some b"
    if "fs_find (st_fs s) (messageDir mid) doneFileName \<noteq> None"
    using inv(2) assms(3) that unfolding inv_done_def by blast
  moreover have "Id m = mid" if "stored_msg v (st_fs s) mid = Some m"
    using inv(1) that by (simp add: inv_msgs_def stored_msg_stored)
  ultimately show ?thesis by (auto simp: fs_view_simps)
qed

lemma Manifest_spec:
  assumes "codec_strict v" and "store_reachable v (s, W)" and "quiet e" and "no_root_files (st_fs s)"
  shows "\<exists>ms. Manifest v e s = Inr ms \<and> distinct (map Id ms)
    \<and> (\<forall>m. m \<in> set ms \<longleftrightarrow> (\<exists>b. fs_view v s (Id m) = Complete m b) \<and> Expired (now e) m = None)"
proof -
  let ?F = "st_fs s" and ?ms = "List.map_filter (manifest_entry v e s) (fs_readdir (st_fs s))"
  have inv: "store_inv v (s, W)" by (rule store_reachable_inv [OF assms(1,2)])
  have dirs: "dirs_ok ?F" using store_reachable_dirs [OF assms(2)] by simp
  note rd = in_readdir [OF assms(4) dirs] and me = manifest_entry_messageDir [OF inv assms(3)]
  have "Manifest v e s = Inr ?ms"
  proof (cases "is_dir ?F ''''")
    case False
    then have "fs_readdir ?F = []" using rd dirs unfolding dirs_ok_def by (metis list.set_intros(1) neq_Nil_conv)
    with False show ?thesis by (simp add: Manifest_def List.map_filter_def)
  qed (use assms(3) in \<open>simp add: Manifest_def quiet_def\<close>)
  moreover have "distinct (map Id ?ms)"
    by (rule distinct_map_filter [OF distinct_readdir [OF assms(4) dirs]]) (auto simp: rd me)
  moreover have "m \<in> set ?ms \<longleftrightarrow> (\<exists>b. fs_view v s (Id m) = Complete m b) \<and> Expired (now e) m = None" for m
  proof -
    have "Id m \<noteq> '''' \<and> is_dir ?F (messageDir (Id m))" if "fs_view v s (Id m) = Complete m b" for b
      using that assms(4) by (auto simp: fs_view_simps no_root_files_def dest: fs_find_dir)
    then show ?thesis using me rd unfolding in_map_filter by (metis (no_types, lifting))
  qed
  ultimately show ?thesis by blast
qed

text \<open>
  C14: the manifest of a store lists every complete message that has not expired, and
  nothing else, each message once.
\<close>

theorem Manifest_exact:
  assumes "codec_strict v" and "store_reachable v (s, W)" and "quiet e" and "no_root_files (st_fs s)"
  shows "\<exists>ms. Manifest v e s = Inr ms \<and> distinct (map Id ms)
    \<and> (\<forall>m. m \<in> set ms \<longleftrightarrow> (\<exists>b. fs_view v s (Id m) = Complete m b) \<and> Expired (now e) m = None)"
  by (rule Manifest_spec [OF assms])

lemma no_root_files_set [simp]: "no_root_files (fs_set i b F) \<longleftrightarrow> no_root_files F"
  by (simp add: no_root_files_def fs_simps)

lemma no_root_files_create:
  "fs_create e F (messageDir mid) n = Inr (F', i) \<Longrightarrow> mid \<noteq> '''' \<Longrightarrow> no_root_files F' \<longleftrightarrow> no_root_files F"
  by (erule fs_create_Inr) (auto simp: no_root_files_def)

lemma storeMessage_root:
  "storeMessage v e s m = (s', er) \<Longrightarrow> Id m \<noteq> '''' \<Longrightarrow> no_root_files (st_fs s) \<Longrightarrow> no_root_files (st_fs s')"
  by (auto simp: storeMessage_def writeMessage_def no_root_files_create split: sum.splits if_splits)
    (auto simp: no_root_files_def fs_mkdirall_Inr(1))

lemma OpenWrite_root:
  assumes "OpenWrite v e s m off = (s', r)" and "Id m \<noteq> ''''" and "no_root_files (st_fs s)"
  shows "no_root_files (st_fs s')"
proof (cases "lock s (Id m)")
  case (Inl er)
  with assms show ?thesis by (simp add: OpenWrite_def)
next
  case (Inr s0)
  then have s0: "no_root_files (st_fs s0)" using assms(3) by (auto simp: lock_def split: if_splits)
  obtain s1 er where sm: "storeMessage v e s0 m = (s1, er)" by force
  have "no_root_files (st_fs s1)" by (rule storeMessage_root [OF sm assms(2) s0])
  with assms(1,2) Inr s0 sm show ?thesis
    by (auto simp: OpenWrite_def unlock_def Let_def no_root_files_create split: if_splits sum.splits option.splits)
qed

lemma write_all_root:
  "write_all (Write e) s w ps = (s', w', er) \<Longrightarrow> no_root_files (st_fs s) \<Longrightarrow>
    no_root_files (st_fs s') \<and> w_msg w' = w_msg w"
proof (induction ps arbitrary: s w)
  case (Cons p ps)
  obtain s1 w1 er1 where "Write e s w p = (s1, w1, er1)" by (metis prod_cases3)
  moreover from this have "no_root_files (st_fs s1)" "w_msg w1 = w_msg w"
    using Cons.prems(2) by (auto simp: Write_def Let_def)
  ultimately show ?case using Cons by (auto split: option.splits)
qed simp

lemma Close_root:
  "Close e s w = (s', er) \<Longrightarrow> Id (w_msg w) \<noteq> '''' \<Longrightarrow> no_root_files (st_fs s) \<Longrightarrow> no_root_files (st_fs s')"
  by (auto simp: Close_def closeBody_def writeDone_def unlock_def Let_def no_root_files_create
      split: if_splits sum.splits prod.splits)
    (auto simp: no_root_files_def fs_removeall_find)

lemma ex_complete_root:
  "\<exists>s. store_reachable text_codec (s, Map.empty) \<and> fs_view text_codec s ''m1'' = Complete ex_msg ''hi''
     \<and> no_root_files (st_fs s) \<and> fs_idle text_codec ex_env s ''m1''"
proof -
  obtain s1 w1 s2 w2 s where s: "OpenWrite text_codec ex_env storage_init ex_msg 0 = (s1, Inr w1)"
    "write_all (Write ex_env) s1 w1 [''h'', ''i''] = (s2, w2, None)" "Close ex_env s2 w2 = (s, None)"
    "store_reachable text_codec (s, Map.empty)" "fs_view text_codec s ''m1'' = Complete ex_msg ''hi''"
    "fs_idle text_codec ex_env s ''m1''"
    using complete_reachable [OF ex_idle init_idle(2) ex_env_simps(4) store_reachable.init, of "[''h'', ''i'']"]
    by auto
  have "no_root_files (st_fs storage_init)" by (simp add: no_root_files_def storage_init_def fs_simps)
  from OpenWrite_root [OF s(1) _ this] write_all_root [OF s(2)] Close_root [OF s(3)] OpenWrite_busy [OF s(1)] s(4-6)
  show ?thesis by auto
qed

theorem Manifest_exact_witness:
  "\<exists>s ms. store_reachable text_codec (s, Map.empty) \<and> Manifest text_codec ex_env s = Inr ms \<and> ex_msg \<in> set ms"
proof -
  obtain s where s: "store_reachable text_codec (s, Map.empty)"
    "fs_view text_codec s ''m1'' = Complete ex_msg ''hi''" "no_root_files (st_fs s)"
    using ex_complete_root by blast
  with Manifest_exact [OF text_codec_strict s(1) ex_env_simps(3) s(3)] show ?thesis by (auto simp: Expired_def)
qed

section \<open>Clean-up\<close>

definition outdated :: "codec \<Rightarrow> env \<Rightarrow> fs \<Rightarrow> string \<Rightarrow> bool" where
  "outdated v e F mid \<longleftrightarrow> (\<exists>m. stored_msg v F mid = Some m \<and> Expired (now e) m \<noteq> None)"

lemma stored_msg_cong:
  "(\<And>n. fs_read F (messageDir mid) n = fs_read G (messageDir mid) n) \<Longrightarrow> stored_msg v F mid = stored_msg v G mid"
  by (simp add: stored_msg_def)

lemma cleanup_entry_find:
  assumes "quiet e" and "x \<noteq> ''''" and "mid \<noteq> ''''"
  shows "fs_find (st_fs (cleanup_entry v e (messageDir x) s)) (messageDir mid) n =
      (if x = mid \<and> outdated v e (st_fs s) mid then None else fs_find (st_fs s) (messageDir mid) n)"
    and "fs_data (st_fs (cleanup_entry v e (messageDir x) s)) = fs_data (st_fs s)"
  using assms by (auto simp: cleanup_entry_def outdated_def quiet_stored_msg fs_removeall_find gone_def quiet_def
      split: sum.splits)

lemma cleanup_fold_find:
  assumes "quiet e" and "mid \<noteq> ''''" and "\<forall>n \<in> set ns. \<exists>x. x \<noteq> '''' \<and> n = messageDir x"
  shows "(\<forall>n. fs_find (st_fs (fold (cleanup_entry v e) ns s)) (messageDir mid) n =
      (if messageDir mid \<in> set ns \<and> outdated v e (st_fs s) mid then None else fs_find (st_fs s) (messageDir mid) n))
    \<and> fs_data (st_fs (fold (cleanup_entry v e) ns s)) = fs_data (st_fs s)"
  using assms(3)
proof (induction ns arbitrary: s)
  case (Cons y ns)
  obtain x where x: "x \<noteq> ''''" "y = messageDir x" using Cons.prems by auto
  let ?t = "cleanup_entry v e y s"
  note ce = cleanup_entry_find [OF assms(1) x(1) assms(2), folded x(2)]
  have "outdated v e (st_fs ?t) mid \<longleftrightarrow> outdated v e (st_fs s) mid"
    if "\<not> (x = mid \<and> outdated v e (st_fs s) mid)"
  proof -
    have "stored_msg v (st_fs ?t) mid = stored_msg v (st_fs s) mid"
      by (rule stored_msg_cong) (use that in \<open>auto simp: fs_read_def ce\<close>)
    then show ?thesis by (simp add: outdated_def)
  qed
  moreover have "\<not> outdated v e (st_fs ?t) mid" if "x = mid \<and> outdated v e (st_fs s) mid"
    using that by (simp add: outdated_def stored_msg_def fs_read_def ce)
  ultimately show ?case using Cons.IH [of ?t] Cons.prems x ce by auto
qed simp

lemma cleanup_view:
  assumes "store_reachable v (s, W)" and "quiet e" and "no_root_files (st_fs s)" and "mid \<noteq> ''''"
  shows "fs_view v (cleanup v e s) mid =
    (case stored_msg v (st_fs s) mid of
       Some m \<Rightarrow> if Expired (now e) m \<noteq> None then Absent else fs_view v s mid
     | None \<Rightarrow> fs_view v s mid)"
proof -
  let ?F = "st_fs s" and ?d = "messageDir mid" and ?G = "st_fs (cleanup v e s)"
  have dirs: "dirs_ok ?F" using store_reachable_dirs [OF assms(1)] by simp
  have ns: "\<forall>n \<in> set (fs_readdir ?F). \<exists>x. x \<noteq> '''' \<and> n = messageDir x"
    by (auto simp: in_readdir [OF assms(3) dirs])
  have mem: "?d \<in> set (fs_readdir ?F)" "is_dir ?F ''''" if o: "outdated v e ?F mid"
  proof -
    have d: "is_dir ?F ?d" using o stored_msg_dir by (auto simp: outdated_def)
    then show "?d \<in> set (fs_readdir ?F)" using assms(4) by (auto simp: in_readdir [OF assms(3) dirs])
    show "is_dir ?F ''''" using d dirs by (auto simp: dirs_ok_def)
  qed
  have fnd: "fs_find ?G ?d n = (if outdated v e ?F mid then None else fs_find ?F ?d n)"
    and dat: "fs_data ?G = fs_data ?F" for n
    using cleanup_fold_find [OF assms(2,4) ns, of v s] mem assms(2) by (auto simp: cleanup_def quiet_def)
  show ?thesis
  proof (cases "outdated v e ?F mid")
    case True
    then have "fs_view v (cleanup v e s) mid = Absent"
      by (simp add: fs_view_simps fnd stored_msg_def fs_read_def)
    with True show ?thesis by (auto simp: outdated_def)
  next
    case False
    then have rd: "fs_read ?G ?d n = fs_read ?F ?d n" for n by (simp add: fs_read_def fnd dat)
    have "fs_view v (cleanup v e s) mid = fs_view v s mid" by (rule fs_view_cong) (rule rd)
    with False show ?thesis by (auto simp: outdated_def split: option.splits)
  qed
qed

text \<open>
  C15: one pass of the clean-up goroutine removes every message whose lifespan is over and
  leaves every other message, complete or partial, as it was.
\<close>

theorem cleanup_exact:
  assumes "store_reachable v (s, W)" and "quiet e" and "no_root_files (st_fs s)" and "mid \<noteq> ''''"
  shows "fs_view v (cleanup v e s) mid =
    (case stored_msg v (st_fs s) mid of
       Some m \<Rightarrow> if Expired (now e) m \<noteq> None then Absent else fs_view v s mid
     | None \<Rightarrow> fs_view v s mid)"
  using assms by (rule cleanup_view)

theorem cleanup_exact_witness:
  "\<exists>s. fs_view text_codec s ''m1'' = Complete ex_msg ''hi''
     \<and> fs_view text_codec (cleanup text_codec ex_env s) ''m1'' = Complete ex_msg ''hi''
     \<and> fs_view text_codec (cleanup text_codec (ex_env\<lparr>now := 11\<rparr>) s) ''m1'' = Absent"
proof -
  obtain s where s: "store_reachable text_codec (s, Map.empty)"
    "fs_view text_codec s ''m1'' = Complete ex_msg ''hi''" "no_root_files (st_fs s)"
    using ex_complete_root by blast
  have q: "quiet (ex_env\<lparr>now := 11\<rparr>)" by (simp add: quiet_def)
  have "stored_msg text_codec (st_fs s) ''m1'' = Some ex_msg" using s(2) by (simp add: fs_view_simps)
  with s cleanup_exact [OF s(1) ex_env_simps(3) s(3), of "''m1''"] cleanup_exact [OF s(1) q s(3), of "''m1''"]
  show ?thesis by (auto simp: Expired_def)
qed

section \<open>Peer records\<close>

lemma PeerInfo_get_set:
  assumes "codec_ok v" and "fs_wf (st_fs s)" and "SetPeerInfo v e s mid peer p = (s', None)" and "quiet e'"
  shows "getPeerInfo v e' s' mid peer = p"
proof -
  obtain F i where c: "fs_create e (st_fs s) (messageDir mid) (peerFile peer) = Inr (F, i)"
    and s': "s' = s\<lparr>st_fs := fs_set i (enc_pi v p) F\<rparr>"
    using assms(3) by (auto simp: SetPeerInfo_def split: sum.splits if_splits)
  from fs_create_wf(2) [OF c assms(2)] assms(1,4) s' show ?thesis
    by (simp add: getPeerInfo_def quiet_def fs_simps codec_ok_def)
qed

text \<open>
  The record that \<open>SetPeerInfo\<close> stored for a message and a peer is what \<open>PeerInfo\<close>
  returns, in any later environment; the records of other peers and messages and the
  messages themselves are unaffected.
\<close>

theorem PeerInfo_roundtrip:
  assumes "codec_ok v" and "fs_wf (st_fs s)" and "SetPeerInfo v e s mid peer p = (s', None)" and "quiet e'"
  shows "getPeerInfo v e' s' mid peer = p
    \<and> (mid' \<noteq> mid \<or> peer' \<noteq> peer \<longrightarrow> getPeerInfo v e' s' mid' peer' = getPeerInfo v e' s mid' peer')
    \<and> fs_view v s' mid' = fs_view v s mid' \<and> busy s' = busy s"
proof -
  obtain F i where c: "fs_create e (st_fs s) (messageDir mid) (peerFile peer) = Inr (F, i)"
    and s': "s' = s\<lparr>st_fs := fs_set i (enc_pi v p) F\<rparr>"
    using assms(3) by (auto simp: SetPeerInfo_def split: sum.splits if_splits)
  note rd = fs_read_put [OF c assms(2)]
  have "fs_view v s' mid' = fs_view v s mid'" by (rule fs_view_cong) (auto simp: s' rd)
  moreover have "peerFile a = peerFile b \<longleftrightarrow> a = b" for a b by (simp add: peerFile_def)
  ultimately show ?thesis using assms(1) assms(4) by (auto simp: getPeerInfo_read quiet_def rd s' codec_ok_def)
qed

theorem PeerInfo_roundtrip_witness:
  "\<exists>s s'. SetPeerInfo text_codec ex_env s ''m1'' ''bob'' (zero_PeerInfo\<lparr>Sent := True\<rparr>) = (s', None)
     \<and> Sent (getPeerInfo text_codec ex_env s' ''m1'' ''bob'')"
proof -
  obtain s where s: "store_reachable text_codec (s, Map.empty)"
    "fs_view text_codec s ''m1'' = Complete ex_msg ''hi''" using ex_complete_root by blast
  have wf: "fs_wf (st_fs s)"
    using store_reachable_inv [OF text_codec_strict s(1)] by (simp add: store_inv_def fs_inv_def)
  have "is_dir (st_fs s) (messageDir ''m1'')" using s(2) by (auto simp: fs_view_simps dest: stored_msg_dir)
  then obtain s' where s': "SetPeerInfo text_codec ex_env s ''m1'' ''bob'' (zero_PeerInfo\<lparr>Sent := True\<rparr>) = (s', None)"
    using quiet_create [of ex_env "st_fs s" "messageDir ''m1''" "peerFile ''bob''"]
    by (auto simp: SetPeerInfo_def)
  have "getPeerInfo text_codec ex_env s' ''m1'' ''bob'' = zero_PeerInfo\<lparr>Sent := True\<rparr>"
    using PeerInfo_roundtrip [OF text_codec_ok wf s' ex_env_simps(3)] by blast
  then have "Sent (getPeerInfo text_codec ex_env s' ''m1'' ''bob'')" by simp
  with s' show ?thesis by blast
qed

end
