(* ===== verification/RateAcl.thy ===== *)
theory RateAcl
  imports Ifc
begin

text \<open>
  The rate-limited access lists (\<^verbatim>\<open>src/internal/rateacl.go\<close>) and the counters of a node
  (\<^verbatim>\<open>src/internal/counters.go\<close>).

  What the code takes from the Vanadium libraries is the record \<open>lib\<close>: public keys and
  signatures, the names of a caller's blessings, the inclusion test of an access list, and
  the rates of a counter.  A counter is the history of its increments.  The limits and rates
  are rational numbers: every \<open>float32\<close> that a JSON document can denote is one.
\<close>

type_synonym counter = "(time \<times> int) list"

definition counter_new :: counter where
  "counter_new = []"

definition Incr :: "time \<Rightarrow> int \<Rightarrow> counter \<Rightarrow> counter" where
  "Incr t n ctr = ctr @ [(t, n)]"

definition Value :: "counter \<Rightarrow> int" where
  "Value ctr = sum_list (map snd ctr)"

lemma Value_simps [simp]: "Value counter_new = 0" "Value (Incr t n ctr) = Value ctr + n"
  by (simp_all add: Value_def Incr_def counter_new_def)

record access_list =
  In :: "string list"
  NotIn :: "string list"

record sec_call =
  LocalBlessings :: blessings
  RemoteBlessings :: blessings
  RemoteDischarges :: "(string \<times> discharge) list"

record lib =
  PublicKey :: "blessings \<Rightarrow> public_key option"
  Verify :: "signature \<Rightarrow> public_key option \<Rightarrow> bytes \<Rightarrow> bool"
  RemoteBlessingNames :: "sec_call \<Rightarrow> string list"
  Includes :: "access_list \<Rightarrow> string list \<Rightarrow> bool"
  Rate1m :: "counter \<Rightarrow> time \<Rightarrow> rat"
  Delta1h :: "counter \<Rightarrow> time \<Rightarrow> int"
  verror_action :: "verror_id \<Rightarrow> action"

section \<open>The access lists\<close>

record rate_entry =
  Acl :: access_list
  Limit :: rat
  ctr :: counter

type_synonym RateAcl = "rate_entry list"

definition Init :: "RateAcl \<Rightarrow> RateAcl" where
  "Init r = map (\<lambda>x. x\<lparr>ctr := counter_new\<rparr>) r"

text \<open>\<open>unmarshal\<close> is \<open>json.Unmarshal\<close> into the slice; the counters are not part of the document.\<close>

definition RateAclFromJSON :: "(bytes \<Rightarrow> err option \<times> (access_list \<times> rat) list) \<Rightarrow> bytes \<Rightarrow> RateAcl \<times> err option" where
  "RateAclFromJSON unmarshal b =
     (let (er, ps) = unmarshal b; acl = map (\<lambda>(a, limit). \<lparr>Acl = a, Limit = limit, ctr = counter_new\<rparr>) ps
      in if er = None then (Init acl, None) else (acl, er))"

definition same_key :: "lib \<Rightarrow> sec_call \<Rightarrow> bool" where
  "same_key L call \<longleftrightarrow>
     PublicKey L (LocalBlessings call) \<noteq> None \<and> PublicKey L (LocalBlessings call) = PublicKey L (RemoteBlessings call)"

text \<open>The loop over the entries: the first one that includes the caller decides.\<close>

fun authorize_loop :: "lib \<Rightarrow> time \<Rightarrow> string list \<Rightarrow> RateAcl \<Rightarrow> RateAcl \<times> err option" where
  "authorize_loop L now bs [] = ([], Some (ErrVerror NoPermissions))"
| "authorize_loop L now bs (r # rs) =
     (if \<not> Includes L (Acl r) bs then
        (let (rs', er) = authorize_loop L now bs rs in (r # rs', er))
      else if Limit r = 0 then (r # rs, Some (ErrVerror NoPermissions))
      else if Rate1m L (ctr r) now \<ge> Limit r then (r # rs, Some (ErrRateLimitExceeded (Limit r)))
      else (r\<lparr>ctr := Incr now 1 (ctr r)\<rparr> # rs, None))"

definition Authorize :: "lib \<Rightarrow> time \<Rightarrow> RateAcl \<Rightarrow> sec_call \<Rightarrow> RateAcl \<times> err option" where
  "Authorize L now r call =
     (if same_key L call then (r, None)
      else authorize_loop L now (RemoteBlessingNames L call) r)"

definition matching :: "lib \<Rightarrow> string list \<Rightarrow> RateAcl \<Rightarrow> nat \<Rightarrow> bool" where
  "matching L bs r i \<longleftrightarrow> i < length r \<and> Includes L (Acl (r ! i)) bs
     \<and> (\<forall>j < i. \<not> Includes L (Acl (r ! j)) bs)"

lemma matching_0 [simp]: "matching L bs (r # rs) 0 \<longleftrightarrow> Includes L (Acl r) bs"
  by (simp add: matching_def)

lemma matching_Suc [simp]: "matching L bs (r # rs) (Suc i) \<longleftrightarrow> \<not> Includes L (Acl r) bs \<and> matching L bs rs i"
  by (auto simp: matching_def less_Suc_eq_0_disj)

lemma authorize_matching:
  assumes "matching L bs r i"
  shows "authorize_loop L now bs r =
    (if Limit (r ! i) = 0 then (r, Some (ErrVerror NoPermissions))
     else if Rate1m L (ctr (r ! i)) now \<ge> Limit (r ! i) then (r, Some (ErrRateLimitExceeded (Limit (r ! i))))
     else (r[i := (r ! i)\<lparr>ctr := Incr now 1 (ctr (r ! i))\<rparr>], None))"
  using assms
proof (induction r arbitrary: i)
  case Nil
  then show ?case by (simp add: matching_def)
next
  case (Cons x r)
  then show ?case by (cases i) auto
qed

lemma authorize_no_match:
  assumes "\<forall>i. \<not> matching L bs r i"
  shows "authorize_loop L now bs r = (r, Some (ErrVerror NoPermissions))"
  using assms
proof (induction r)
  case (Cons x r)
  from Cons.prems [rule_format, of 0] Cons.prems [rule_format, of "Suc _"]
  have "\<not> Includes L (Acl x) bs" "\<forall>i. \<not> matching L bs r i" by auto
  with Cons.IH show ?case by simp
qed simp

text \<open>
  C21: the decision of \<open>Authorize\<close>: a caller with the node's own key is admitted, a
  caller that no entry includes is refused, and otherwise the first entry that includes the
  caller decides alone by its limit.
\<close>

theorem Authorize_decision:
  "Authorize L now r call =
     (let bs = RemoteBlessingNames L call in
      if same_key L call then (r, None)
      else case find (\<lambda>i. Includes L (Acl (r ! i)) bs) [0..<length r] of
        None \<Rightarrow> (r, Some (ErrVerror NoPermissions))
      | Some i \<Rightarrow>
          if Limit (r ! i) = 0 then (r, Some (ErrVerror NoPermissions))
          else if Rate1m L (ctr (r ! i)) now \<ge> Limit (r ! i) then (r, Some (ErrRateLimitExceeded (Limit (r ! i))))
          else (r[i := (r ! i)\<lparr>ctr := Incr now 1 (ctr (r ! i))\<rparr>], None))"
proof -
  let ?bs = "RemoteBlessingNames L call"
  let ?f = "find (\<lambda>i. Includes L (Acl (r ! i)) ?bs) [0..<length r]"
  have "matching L ?bs r i" if "?f = Some i" for i
    using that by (auto simp: find_Some_iff matching_def)
  moreover have "\<forall>i. \<not> matching L ?bs r i" if "?f = None"
    using that by (auto simp: find_None_iff matching_def)
  ultimately show ?thesis
    by (auto simp: Authorize_def Let_def authorize_matching authorize_no_match split: option.splits)
qed

section \<open>The rate\<close>

text \<open>
  The documented behaviour of \<open>Rate1m\<close>: the change of the counter over the last minute,
  per second.
\<close>

definition last_minute :: "counter \<Rightarrow> time \<Rightarrow> int" where
  "last_minute h t = sum_list (map snd (filter (\<lambda>(u, n). t - 60 * second < u \<and> u \<le> t) h))"

definition counts_last_minute :: "lib \<Rightarrow> bool" where
  "counts_last_minute L \<longleftrightarrow> (\<forall>h t. Rate1m L h t = rat_of_int (last_minute h t) / 60)"

text \<open>A sequence of calls at non-decreasing times, with the answers.\<close>

fun authorize_all :: "lib \<Rightarrow> RateAcl \<Rightarrow> (time \<times> sec_call) list \<Rightarrow> RateAcl \<times> err option list" where
  "authorize_all L r [] = (r, [])"
| "authorize_all L r ((t, call) # cs) =
     (let (r, er) = Authorize L t r call; (r, ers) = authorize_all L r cs in (r, er # ers))"

definition entry_step :: "lib \<Rightarrow> time \<Rightarrow> rate_entry \<Rightarrow> rate_entry \<Rightarrow> bool" where
  "entry_step L t x y \<longleftrightarrow> Acl y = Acl x \<and> Limit y = Limit x
     \<and> (ctr y = ctr x \<or> (ctr y = Incr t 1 (ctr x) \<and> Rate1m L (ctr x) t < Limit x))"

lemma entry_step_refl: "list_all2 (entry_step L t) r r"
  by (simp add: list_all2_same entry_step_def)

lemma authorize_loop_entry:
  "authorize_loop L t bs r = (r', er) \<Longrightarrow> list_all2 (entry_step L t) r r'"
proof (induction r arbitrary: r')
  case (Cons x r)
  then show ?case
    by (auto simp: entry_step_refl split: if_splits prod.splits) (auto simp: entry_step_def)
qed simp

lemma Authorize_entry: "Authorize L t r call = (r', er) \<Longrightarrow> list_all2 (entry_step L t) r r'"
  by (auto simp: Authorize_def entry_step_refl authorize_loop_entry split: if_splits)

definition within_rate :: "time \<Rightarrow> rate_entry \<Rightarrow> bool" where
  "within_rate t x \<longleftrightarrow> 0 \<le> Limit x \<and> (\<forall>(u, n) \<in> set (ctr x). n = 1 \<and> u \<le> t)
     \<and> (\<forall>u. rat_of_int (last_minute (ctr x) u) < 60 * Limit x + 1)"

lemma last_minute_Incr:
  "last_minute (Incr t n h) u = last_minute h u + (if u - 60 * second < t \<and> t \<le> u then n else 0)"
  by (simp add: last_minute_def Incr_def)

lemma last_minute_later:
  assumes "\<forall>(w, n) \<in> set h. n = 1 \<and> w \<le> t" and "t \<le> u"
  shows "last_minute h u \<le> last_minute h t"
  using assms
proof (induction h)
  case (Cons x h)
  then have ih: "last_minute h u \<le> last_minute h t" by simp
  obtain w n where x: "x = (w, n)" by (cases x)
  have "n = 1" "w \<le> t" using Cons.prems x by auto
  with ih x assms(2) show ?case by (auto simp: last_minute_def)
qed (simp add: last_minute_def)

lemma within_rate_step:
  assumes "counts_last_minute L" and "within_rate t x" and "t \<le> t'" and "entry_step L t' x y"
  shows "within_rate t' y"
proof (cases "ctr y = ctr x")
  case True
  with assms show ?thesis by (fastforce simp: within_rate_def entry_step_def)
next
  case False
  then have y: "ctr y = Incr t' 1 (ctr x)" "Limit y = Limit x" and lt: "Rate1m L (ctr x) t' < Limit x"
    using assms(4) by (auto simp: entry_step_def)
  have h: "\<forall>(u, n) \<in> set (ctr x). n = 1 \<and> u \<le> t'" using assms(2,3) by (fastforce simp: within_rate_def)
  have "rat_of_int (last_minute (ctr y) u) < 60 * Limit x + 1" for u
  proof (cases "u - 60 * second < t' \<and> t' \<le> u")
    case True
    then have "last_minute (ctr y) u \<le> last_minute (ctr x) t' + 1"
      using last_minute_later [OF h, of u] by (simp add: y last_minute_Incr)
    moreover have "rat_of_int (last_minute (ctr x) t') < 60 * Limit x"
      using lt assms(1) [unfolded counts_last_minute_def, rule_format, of "ctr x" t'] by linarith
    ultimately show ?thesis by linarith
  next
    case False
    then have "last_minute (ctr y) u = last_minute (ctr x) u" by (auto simp: y last_minute_Incr)
    then show ?thesis using assms(2) by (simp add: within_rate_def)
  qed
  moreover have "\<forall>(u, n) \<in> set (ctr y). n = 1 \<and> u \<le> t'" using h by (auto simp: y Incr_def)
  ultimately show ?thesis using assms(2) by (simp add: within_rate_def y)
qed

lemma authorize_all_within:
  assumes "counts_last_minute L" and "sorted (t # map fst cs)" and "\<forall>x \<in> set r. within_rate t x"
    and "authorize_all L r cs = (r', ers)"
  shows "\<forall>y \<in> set r'. \<exists>t. within_rate t y"
  using assms(2-4)
proof (induction cs arbitrary: t r ers)
  case Nil
  then show ?case by auto
next
  case (Cons x cs)
  obtain t' call where x: "x = (t', call)" by (cases x)
  obtain r1 er where a: "Authorize L t' r call = (r1, er)" by force
  obtain ers' where b: "authorize_all L r1 cs = (r', ers')"
    using Cons.prems(3) a by (auto simp: x split: prod.splits)
  have "within_rate t' y" if y: "y \<in> set r1" for y
  proof -
    obtain i where i: "i < length r1" "y = r1 ! i" using y by (auto simp: in_set_conv_nth)
    from Authorize_entry [OF a] i have "entry_step L t' (r ! i) y" "r ! i \<in> set r"
      by (auto simp: list_all2_conv_all_nth)
    with within_rate_step [OF assms(1) _ _ this(1), of t] Cons.prems(1,2) x show ?thesis by auto
  qed
  then show ?case using Cons.IH [OF _ _ b, of t'] Cons.prems(1) x by auto
qed

text \<open>
  C22: whatever sequence of calls arrives, every access list admits in any window of one
  minute fewer than \<open>60 * Limit + 1\<close> calls: the limit is a rate per second.
\<close>

theorem Authorize_rate_bound:
  assumes "counts_last_minute L" and "sorted (map fst cs)" and "\<forall>x \<in> set r. 0 \<le> Limit x"
    and "authorize_all L (Init r) cs = (r', ers)" and "x \<in> set r'"
  shows "rat_of_int (last_minute (ctr x) u) < 60 * Limit x + 1"
proof -
  define t where "t = (case cs of [] \<Rightarrow> 0 | (t, _) # _ \<Rightarrow> t)"
  have "sorted (t # map fst cs)" using assms(2) by (cases cs) (auto simp: t_def)
  moreover have "\<forall>x \<in> set (Init r). within_rate t x"
    using assms(3) by (auto simp: Init_def within_rate_def counter_new_def last_minute_def)
  ultimately show ?thesis using authorize_all_within [OF assms(1) _ _ assms(4)] assms(5)
    by (auto simp: within_rate_def)
qed

definition ex_lib :: lib where
  "ex_lib = \<lparr>PublicKey = (\<lambda>b. if b = '''' then None else Some b),
     Verify = (\<lambda>s k h. s = ''sig'' \<and> k \<noteq> None), RemoteBlessingNames = (\<lambda>call. [RemoteBlessings call]),
     Includes = (\<lambda>a bs. \<exists>b \<in> set bs. b \<in> set (In a) \<and> b \<notin> set (NotIn a)),
     Rate1m = (\<lambda>h t. rat_of_int (last_minute h t) / 60),
     Delta1h = (\<lambda>h t. sum_list (map snd (filter (\<lambda>(u, n). t - 3600 * second < u \<and> u \<le> t) h))),
     verror_action = (\<lambda>_. NoRetry)\<rparr>"

lemma ex_lib_counts: "counts_last_minute ex_lib"
  by (simp add: counts_last_minute_def ex_lib_def)

definition ex_acl :: RateAcl where
  "ex_acl = [\<lparr>Acl = \<lparr>In = [''alice''], NotIn = []\<rparr>, Limit = 1 / 60, ctr = []\<rparr>]"

definition ex_call :: sec_call where
  "ex_call = \<lparr>LocalBlessings = ''bob'', RemoteBlessings = ''alice'', RemoteDischarges = []\<rparr>"

theorem Authorize_rate_bound_witness:
  "snd (authorize_all ex_lib (Init ex_acl) [(0, ex_call), (second, ex_call)])
     = [None, Some (ErrRateLimitExceeded (1 / 60))]
   \<and> list_all (\<lambda>x. rat_of_int (last_minute (ctr x) 60) < 60 * Limit x + 1)
        (fst (authorize_all ex_lib (Init ex_acl) [(0, ex_call), (second, ex_call)]))"
proof -
  obtain r' ers where a: "authorize_all ex_lib (Init ex_acl) [(0, ex_call), (second, ex_call)] = (r', ers)" by force
  have "rat_of_int (last_minute (ctr x) 60) < 60 * Limit x + 1" if "x \<in> set r'" for x
    by (rule Authorize_rate_bound [OF ex_lib_counts _ _ a that]) (auto simp: ex_acl_def)
  moreover have "snd (authorize_all ex_lib (Init ex_acl) [(0, ex_call), (second, ex_call)])
     = [None, Some (ErrRateLimitExceeded (1 / 60))]"
    by (simp add: Authorize_def same_key_def Let_def ex_lib_def ex_acl_def ex_call_def Init_def counter_new_def
        Incr_def last_minute_def)
  ultimately show ?thesis using a by (simp add: list_all_iff)
qed

end
