(* ===== verification/Messenger.thy ===== *)
theory Messenger
  imports StorageManifest RateAcl
begin

text \<open>
  The service of a node (\<^verbatim>\<open>src/internal/messenger.go\<close>): \<open>Diff\<close>, \<open>Push\<close>,
  \<open>ResumeOffset\<close>, \<open>Manifest\<close> and \<open>Pull\<close> on the state of a node, with the parameters of
  \<^verbatim>\<open>src/internal/server.go\<close> and the counters of \<^verbatim>\<open>src/internal/counters.go\<close>.

  A handler takes the stream it receives as the list of packets and the error the stream
  ends with, and the outcome of its own sends as a function of their position.  The
  environment of the system calls is a function of the position too, so that every call
  may fail independently; \<open>Push\<close> is composed of three parts (the checks up to
  \<open>OpenWrite\<close>, the receive loop, the end) between which other goroutines may change
  the storage.
\<close>

section \<open>The state of a node\<close>

record Counters =
  numPeers :: counter
  numMessagesSent :: counter
  numBytesSent :: counter
  numMessagesReceived :: counter
  numBytesReceived :: counter

definition NewCounters :: Counters where
  "NewCounters = \<lparr>numPeers = counter_new, numMessagesSent = counter_new, numBytesSent = counter_new,
     numMessagesReceived = counter_new, numBytesReceived = counter_new\<rparr>"

record Params =
  AdvertisementID :: string
  EnableLocalDiscovery :: bool
  GlobalDiscoveryPaths :: "string list"
  MaxActivePeers :: int
  MaxHops :: int
  MaxMessageLength :: int64
  MountTTL :: duration
  RateAclIn :: RateAcl
  RateAclOut :: RateAcl
  RateAclSender :: RateAcl
  ScanInterval :: duration
  Store :: storage

text \<open>\<open>notifier\<close> is what was published on the \<open>PubSub\<close>, or \<open>None\<close> for a \<open>nil\<close> notifier.\<close>

record Messenger =
  params :: Params
  notifier :: "message list option"
  counters :: Counters

definition set_store :: "storage \<Rightarrow> Messenger \<Rightarrow> Messenger" where
  "set_store s m = m\<lparr>params := (params m)\<lparr>Store := s\<rparr>\<rparr>"

abbreviation store :: "Messenger \<Rightarrow> storage" where
  "store m \<equiv> Store (params m)"

definition authorize_in :: "lib \<Rightarrow> time \<Rightarrow> Messenger \<Rightarrow> sec_call \<Rightarrow> Messenger \<times> err option" where
  "authorize_in L t m call =
     (let (r, er) = Authorize L t (RateAclIn (params m)) call
      in (m\<lparr>params := (params m)\<lparr>RateAclIn := r\<rparr>\<rparr>, er))"

definition authorize_sender :: "lib \<Rightarrow> time \<Rightarrow> Messenger \<Rightarrow> sec_call \<Rightarrow> Messenger \<times> err option" where
  "authorize_sender L t m call =
     (let (r, er) = Authorize L t (RateAclSender (params m)) call
      in (m\<lparr>params := (params m)\<lparr>RateAclSender := r\<rparr>\<rparr>, er))"

section \<open>Push\<close>

definition sender_call :: "sec_call \<Rightarrow> message \<Rightarrow> sec_call" where
  "sender_call call msg = call\<lparr>RemoteBlessings := SenderBlessings msg, RemoteDischarges := SenderDischarges msg\<rparr>"

definition push_start :: "codec \<Rightarrow> lib \<Rightarrow> env \<Rightarrow> Messenger \<Rightarrow> sec_call \<Rightarrow> message \<Rightarrow> int64 \<Rightarrow>
    Messenger \<times> (err + fileWrapper)" where
  "push_start v L e m call msg offset =
     (case authorize_in L (now e) m call of
        (m, Some er) \<Rightarrow> (m, Inl er)
      | (m, None) \<Rightarrow>
     (case authorize_sender L (now e) m (sender_call call msg) of
        (m, Some er) \<Rightarrow> (m, Inl er)
      | (m, None) \<Rightarrow>
     (case Validate (PublicKey L) (Verify L) (now e) msg of
        Some er \<Rightarrow> (m, Inl er)
      | None \<Rightarrow>
          if MaxHops (params m) > 0 \<and> int (length (Hops msg)) > MaxHops (params m)
          then (m, Inl (ErrTooManyHops (MaxHops (params m))))
          else if MaxMessageLength (params m) > 0 \<and> Length msg > MaxMessageLength (params m)
          then (m, Inl (ErrTooBig (MaxMessageLength (params m))))
          else let (s, w) = OpenWrite v e (store m) msg offset in (set_store s m, w))))"

text \<open>The receive loop: the state, the writer, the bytes received, and the error of a failed write.\<close>

fun push_recv :: "(nat \<Rightarrow> env) \<Rightarrow> nat \<Rightarrow> Messenger \<Rightarrow> fileWrapper \<Rightarrow> int64 \<Rightarrow> bytes list \<Rightarrow>
    Messenger \<times> fileWrapper \<times> int64 \<times> err option" where
  "push_recv E n m w sz [] = (m, w, sz, None)"
| "push_recv E n m w sz (packet # packets) =
     (case Write (E n) (store m) w packet of
        (s, w, Some er) \<Rightarrow> (set_store s m, w, sz, Some er)
      | (s, w, None) \<Rightarrow>
          push_recv E (Suc n)
            ((set_store s m)\<lparr>counters := (counters m)\<lparr>numBytesReceived :=
               Incr (now (E n)) (int (length packet)) (numBytesReceived (counters m))\<rparr>\<rparr>)
            w (sz + int (length packet)) packets)"

definition close_quietly :: "env \<Rightarrow> Messenger \<Rightarrow> fileWrapper \<Rightarrow> Messenger" where
  "close_quietly e m w = set_store (fst (Close e (store m) w)) m"

definition push_end :: "env \<Rightarrow> Messenger \<Rightarrow> fileWrapper \<Rightarrow> message \<Rightarrow> int64 \<Rightarrow> err option \<Rightarrow> Messenger \<times> err option" where
  "push_end e m w msg sz stream_err =
     (if stream_err \<noteq> None \<and> sz \<noteq> Length msg then (close_quietly e m w, stream_err)
      else case Close e (store m) w of
        (s, Some er) \<Rightarrow> (set_store s m, Some er)
      | (s, None) \<Rightarrow>
          ((set_store s m)\<lparr>counters := (counters m)\<lparr>numMessagesReceived :=
              Incr (now e) 1 (numMessagesReceived (counters m))\<rparr>,
            notifier := map_option (\<lambda>ms. ms @ [msg]) (notifier m)\<rparr>, None))"

definition Push :: "codec \<Rightarrow> lib \<Rightarrow> env \<Rightarrow> (nat \<Rightarrow> env) \<Rightarrow> env \<Rightarrow> Messenger \<Rightarrow> sec_call \<Rightarrow> message \<Rightarrow> int64 \<Rightarrow>
    bytes list \<Rightarrow> err option \<Rightarrow> Messenger \<times> err option" where
  "Push v L e E e' m call msg offset packets stream_err =
     (case push_start v L e m call msg offset of
        (m, Inl er) \<Rightarrow> (m, Some er)
      | (m, Inr w) \<Rightarrow>
          (case push_recv E 0 m w 0 packets of
             (m, w, sz, Some er) \<Rightarrow> (close_quietly e' m w, Some er)
           | (m, w, sz, None) \<Rightarrow> push_end e' m w msg sz stream_err))"

section \<open>Diff, ResumeOffset, Manifest and Pull\<close>

text \<open>The answers that were sent, and the error the handler returns.\<close>

fun diff_loop :: "(nat \<Rightarrow> env) \<Rightarrow> (nat \<Rightarrow> err option) \<Rightarrow> nat \<Rightarrow> storage \<Rightarrow> string list list \<Rightarrow> bool list list \<times> err option" where
  "diff_loop E send n s [] = ([], None)"
| "diff_loop E send n s (ids # batches) =
     (let responses = map (Exists (E n) s) ids
      in case send n of
           Some er \<Rightarrow> ([], Some er)
         | None \<Rightarrow> let (rs, er) = diff_loop E send (Suc n) s batches in (responses # rs, er))"

definition Diff :: "lib \<Rightarrow> env \<Rightarrow> (nat \<Rightarrow> env) \<Rightarrow> (nat \<Rightarrow> err option) \<Rightarrow> Messenger \<Rightarrow> sec_call \<Rightarrow> string list list \<Rightarrow>
    Messenger \<times> bool list list \<times> err option" where
  "Diff L e E send m call batches =
     (case authorize_in L (now e) m call of
        (m, Some er) \<Rightarrow> (m, [], Some er)
      | (m, None) \<Rightarrow> (m, diff_loop E send 0 (store m) batches))"

definition ResumeOffset :: "lib \<Rightarrow> env \<Rightarrow> Messenger \<Rightarrow> sec_call \<Rightarrow> message \<Rightarrow> Messenger \<times> (err + int64)" where
  "ResumeOffset L e m call msg =
     (case authorize_in L (now e) m call of
        (m, Some er) \<Rightarrow> (m, Inl er)
      | (m, None) \<Rightarrow> let (s, r) = Offset e (store m) (Id msg) in (set_store s m, r))"

definition serve_Manifest :: "codec \<Rightarrow> lib \<Rightarrow> env \<Rightarrow> Messenger \<Rightarrow> sec_call \<Rightarrow> Messenger \<times> message list \<times> err option" where
  "serve_Manifest v L e m call =
     (case authorize_in L (now e) m call of
        (m, Some er) \<Rightarrow> (m, [], Some er)
      | (m, None) \<Rightarrow>
          (case Manifest v e (store m) of
             Inl er \<Rightarrow> (m, [], Some er)
           | Inr ms \<Rightarrow> (m, ms, None)))"

text \<open>The loop of \<open>Pull\<close> over the pieces the reader returns; a failing read ends it after \<open>short\<close> pieces.\<close>

fun send_all :: "(nat \<Rightarrow> err option) \<Rightarrow> nat \<Rightarrow> bytes list \<Rightarrow> bytes list \<times> err option" where
  "send_all send n [] = ([], None)"
| "send_all send n (p # ps) =
     (case send n of
        Some er \<Rightarrow> ([], Some er)
      | None \<Rightarrow> let (qs, er) = send_all send (Suc n) ps in (p # qs, er))"

definition Pull :: "codec \<Rightarrow> lib \<Rightarrow> env \<Rightarrow> (nat \<Rightarrow> err option) \<Rightarrow> Messenger \<Rightarrow> sec_call \<Rightarrow> string \<Rightarrow> int64 \<Rightarrow>
    Messenger \<times> bytes list \<times> (err + message)" where
  "Pull v L e send m call mid offset =
     (case authorize_in L (now e) m call of
        (m, Some er) \<Rightarrow> (m, [], Inl er)
      | (m, None) \<Rightarrow>
     (case OpenRead v e (store m) mid of
        (s, Inl er) \<Rightarrow> (set_store s m, [], Inl er)
      | (s, Inr (msg, r)) \<Rightarrow>
     (case Seek r offset of
        Inl er \<Rightarrow> (set_store s m, [], Inl er)
      | Inr r \<Rightarrow>
          let cs = chunks 2048 (read_rest s r);
              failed = fails e (SysRead contentFileName)
          in case send_all send 0 (if failed then take (short e) cs else cs) of
               (ps, Some er) \<Rightarrow> (set_store s m, ps, Inl er)
             | (ps, None) \<Rightarrow> (set_store s m, ps, if failed then Inl (ErrOS ''read'') else Inr msg))))"

section \<open>Basic facts\<close>

lemma set_store_simps [simp]:
  "store (set_store s m) = s" "notifier (set_store s m) = notifier m" "counters (set_store s m) = counters m"
  "RateAclIn (params (set_store s m)) = RateAclIn (params m)"
  "RateAclSender (params (set_store s m)) = RateAclSender (params m)"
  "MaxHops (params (set_store s m)) = MaxHops (params m)"
  "MaxMessageLength (params (set_store s m)) = MaxMessageLength (params m)"
  by (simp_all add: set_store_def)

lemma set_store_twice [simp]: "set_store s (set_store t m) = set_store s m"
  by (simp add: set_store_def)

lemma authorize_in_keeps:
  "authorize_in L t m call = (m', er) \<Longrightarrow> store m' = store m \<and> notifier m' = notifier m \<and> counters m' = counters m
    \<and> RateAclSender (params m') = RateAclSender (params m) \<and> MaxHops (params m') = MaxHops (params m)
    \<and> MaxMessageLength (params m') = MaxMessageLength (params m)
    \<and> Authorize L t (RateAclIn (params m)) call = (RateAclIn (params m'), er)"
  by (auto simp: authorize_in_def split: prod.splits)

lemma authorize_sender_keeps:
  "authorize_sender L t m call = (m', er) \<Longrightarrow> store m' = store m \<and> notifier m' = notifier m \<and> counters m' = counters m
    \<and> RateAclIn (params m') = RateAclIn (params m) \<and> MaxHops (params m') = MaxHops (params m)
    \<and> MaxMessageLength (params m') = MaxMessageLength (params m)
    \<and> Authorize L t (RateAclSender (params m)) call = (RateAclSender (params m'), er)"
  by (auto simp: authorize_sender_def split: prod.splits)

section \<open>What a Push has checked\<close>

lemma push_start_Inl:
  assumes "push_start v L e m call msg offset = (m', Inl er)"
  shows "notifier m' = notifier m \<and> counters m' = counters m
    \<and> (store m' = store m \<or> OpenWrite v e (store m) msg offset = (store m', Inl er))"
  using assms
  by (auto simp: push_start_def Let_def split: prod.splits option.splits if_splits
      dest!: authorize_in_keeps authorize_sender_keeps)

lemma push_start_Inr:
  assumes "push_start v L e m call msg offset = (m', Inr w)"
  shows "notifier m' = notifier m \<and> counters m' = counters m
    \<and> OpenWrite v e (store m) msg offset = (store m', Inr w)
    \<and> snd (Authorize L (now e) (RateAclIn (params m)) call) = None
    \<and> snd (Authorize L (now e) (RateAclSender (params m)) (sender_call call msg)) = None
    \<and> Validate (PublicKey L) (Verify L) (now e) msg = None
    \<and> (MaxHops (params m) > 0 \<longrightarrow> int (length (Hops msg)) \<le> MaxHops (params m))
    \<and> (MaxMessageLength (params m) > 0 \<longrightarrow> Length msg \<le> MaxMessageLength (params m))"
  using assms
  by (auto simp: push_start_def Let_def split: prod.splits option.splits if_splits
      dest!: authorize_in_keeps authorize_sender_keeps)

lemma push_recv_keeps:
  "push_recv E n m w sz ps = (m', w', sz', er) \<Longrightarrow> notifier m' = notifier m
    \<and> numMessagesReceived (counters m') = numMessagesReceived (counters m) \<and> w_msg w' = w_msg w"
proof (induction ps arbitrary: n m w sz)
  case (Cons p ps)
  obtain s1 w1 er1 where "Write (E n) (store m) w p = (s1, w1, er1)" by (metis prod_cases3)
  with Cons show ?case using Write_busy [of "E n" "store m" w p s1 w1 er1] by (fastforce split: option.splits)
qed simp

lemma push_end_cases:
  assumes "push_end e m w msg sz serr = (m', er)"
  shows "(er \<noteq> None \<and> notifier m' = notifier m \<and> numMessagesReceived (counters m') = numMessagesReceived (counters m))
    \<or> (er = None \<and> notifier m' = map_option (\<lambda>ms. ms @ [msg]) (notifier m) \<and> snd (Close e (store m) w) = None
       \<and> numMessagesReceived (counters m') = Incr (now e) 1 (numMessagesReceived (counters m)))"
  using assms by (auto simp: push_end_def close_quietly_def split: if_splits prod.splits option.splits)


section \<open>Transfers\<close>

definition admitted :: "lib \<Rightarrow> env \<Rightarrow> Messenger \<Rightarrow> sec_call \<Rightarrow> message \<Rightarrow> bool" where
  "admitted L e m call msg \<longleftrightarrow>
     snd (Authorize L (now e) (RateAclIn (params m)) call) = None
     \<and> snd (Authorize L (now e) (RateAclSender (params m)) (sender_call call msg)) = None
     \<and> Validate (PublicKey L) (Verify L) (now e) msg = None
     \<and> \<not> (MaxHops (params m) > 0 \<and> int (length (Hops msg)) > MaxHops (params m))
     \<and> \<not> (MaxMessageLength (params m) > 0 \<and> Length msg > MaxMessageLength (params m))"

text \<open>What the store holds of a message before a transfer that can be resumed.\<close>

definition resumable :: "codec \<Rightarrow> storage \<Rightarrow> message \<Rightarrow> message \<Rightarrow> bytes \<Rightarrow> bool" where
  "resumable v s msg m0 b \<longleftrightarrow> (fs_view v s (Id msg) = Absent \<and> b = [] \<and> m0 = msg)
     \<or> (fs_view v s (Id msg) = Partial m0 b \<and> Hash m0 = Hash msg)"

lemma fs_writing_env: "fs_writing v e s w m0 m b \<Longrightarrow> quiet e' \<Longrightarrow> fs_writing v e' s w m0 m b"
  by (simp add: fs_writing_def)

lemma fs_idle_env: "fs_idle v e s mid \<Longrightarrow> quiet e' \<Longrightarrow> fs_idle v e' s mid"
  by (simp add: fs_idle_def)

lemma push_start_admitted:
  assumes "admitted L e m call msg" and "OpenWrite v e (store m) msg offset = (s, r)"
  shows "\<exists>m'. push_start v L e m call msg offset = (m', r) \<and> store m' = s \<and> notifier m' = notifier m
    \<and> counters m' = counters m"
proof -
  obtain m1 er1 where a: "authorize_in L (now e) m call = (m1, er1)" by force
  obtain m2 er2 where b: "authorize_sender L (now e) m1 (sender_call call msg) = (m2, er2)" by force
  note k = authorize_in_keeps [OF a] authorize_sender_keeps [OF b]
  have "er1 = None" "er2 = None" using assms(1) k by (auto simp: admitted_def)
  then show ?thesis using assms a b k by (auto simp: push_start_def admitted_def)
qed

lemma push_recv_writing:
  assumes "\<And>n. quiet (E n)" and "fs_writing v e (store m) w m0 msg b"
  shows "\<exists>m' w'. push_recv E n m w sz ps = (m', w', sz + int (length (concat ps)), None)
    \<and> fs_writing v e (store m') w' m0 msg (b @ concat ps) \<and> notifier m' = notifier m
    \<and> Value (numBytesReceived (counters m')) = Value (numBytesReceived (counters m)) + int (length (concat ps))"
  using assms(2)
proof (induction ps arbitrary: n m w sz b)
  case (Cons p ps)
  have e: "quiet e" using Cons.prems by (simp add: fs_writing_def)
  obtain s1 w1 where w: "Write (E n) (store m) w p = (s1, w1, None)" "fs_writing v (E n) s1 w1 m0 msg (b @ p)"
    using fs_writes [OF fs_writing_env [OF Cons.prems assms(1)]] by blast
  let ?m1 = "(set_store s1 m)\<lparr>counters := (counters m)\<lparr>numBytesReceived :=
     Incr (now (E n)) (int (length p)) (numBytesReceived (counters m))\<rparr>\<rparr>"
  have "fs_writing v e (store ?m1) w1 m0 msg (b @ p)" using fs_writing_env [OF w(2) e] by simp
  from Cons.IH [OF this, of "Suc n" "sz + int (length p)"] w(1) show ?case by (auto simp: algebra_simps)
qed simp

lemma Push_reaches_end:
  assumes "admitted L e m call msg" and "fs_idle v e (store m) (Id msg)"
    and "resumable v (store m) msg m0 b" and "\<And>n. quiet (E n)"
  obtains m2 w2 where "Push v L e E e' m call msg (int (length b)) packets serr =
      push_end e' m2 w2 msg (int (length (concat packets))) serr"
    and "fs_writing v e (store m2) w2 m0 msg (b @ concat packets)" and "notifier m2 = notifier m"
    and "Value (numBytesReceived (counters m2)) = Value (numBytesReceived (counters m)) + int (length (concat packets))"
proof -
  obtain s1 w1 where o: "OpenWrite v e (store m) msg (int (length b)) = (s1, Inr w1)" "fs_writing v e s1 w1 m0 msg b"
    using fstore.transfer [OF assms(2), of b m0 "[]"] assms(3) by (auto simp: resumable_def)
  obtain m1 where s: "push_start v L e m call msg (int (length b)) = (m1, Inr w1)" "store m1 = s1"
    "notifier m1 = notifier m" "counters m1 = counters m"
    using push_start_admitted [OF assms(1) o(1)] by blast
  obtain m2 w2 where r: "push_recv E 0 m1 w1 0 packets = (m2, w2, int (length (concat packets)), None)"
    "fs_writing v e (store m2) w2 m0 msg (b @ concat packets)" "notifier m2 = notifier m1"
    "Value (numBytesReceived (counters m2)) = Value (numBytesReceived (counters m1)) + int (length (concat packets))"
    using push_recv_writing [of E v e m1 w1 m0 msg b 0 0 packets, OF assms(4)] o(2) s(2) by auto
  show thesis by (rule that [of m2 w2]) (use s r in \<open>simp_all add: Push_def\<close>)
qed

lemma Push_complete_ok:
  assumes "admitted L e m call msg" and "fs_idle v e (store m) (Id msg)"
    and "resumable v (store m) msg m0 b" and "\<forall>n. quiet (E n)" and "quiet e'"
    and "int (length (b @ concat packets)) = Length msg" and "sha256 (b @ concat packets) = Sha256 msg"
  shows "\<exists>m'. Push v L e E e' m call msg (int (length b)) packets None = (m', None)
    \<and> fs_idle v e' (store m') (Id msg) \<and> fs_view v (store m') (Id msg) = Complete m0 (b @ concat packets)
    \<and> notifier m' = map_option (\<lambda>ms. ms @ [msg]) (notifier m)
    \<and> Value (numBytesReceived (counters m')) = Value (numBytesReceived (counters m)) + int (length (concat packets))"
proof -
  obtain m2 w2 where p: "Push v L e E e' m call msg (int (length b)) packets None =
      push_end e' m2 w2 msg (int (length (concat packets))) None"
    "fs_writing v e (store m2) w2 m0 msg (b @ concat packets)" "notifier m2 = notifier m"
    "Value (numBytesReceived (counters m2)) = Value (numBytesReceived (counters m)) + int (length (concat packets))"
    by (rule Push_reaches_end [OF assms(1-3), of E e' packets None]) (use assms(4) in auto)
  obtain s where "Close e' (store m2) w2 = (s, None)" "fs_idle v e' s (Id msg)"
    "fs_view v s (Id msg) = Complete m0 (b @ concat packets)"
    using fs_close_complete [OF fs_writing_env [OF p(2) assms(5)] assms(6,7)] by blast
  with p show ?thesis by (auto simp: push_end_def)
qed

text \<open>
  An admitted \<open>Push\<close> that supplies the missing bytes, at the offset where the
  storage stopped, succeeds: the message is complete with exactly the promised content, it
  is published once, and the byte counter grows by what was sent.
\<close>

theorem Push_completes:
  assumes "admitted L e m call msg" and "fs_idle v e (store m) (Id msg)"
    and "resumable v (store m) msg m0 b" and "\<forall>n. quiet (E n)" and "quiet e'"
    and "int (length (b @ concat packets)) = Length msg" and "sha256 (b @ concat packets) = Sha256 msg"
  shows "\<exists>m'. Push v L e E e' m call msg (int (length b)) packets None = (m', None)
    \<and> fs_idle v e' (store m') (Id msg) \<and> fs_view v (store m') (Id msg) = Complete m0 (b @ concat packets)
    \<and> notifier m' = map_option (\<lambda>ms. ms @ [msg]) (notifier m)
    \<and> Value (numBytesReceived (counters m')) = Value (numBytesReceived (counters m)) + int (length (concat packets))"
  by (rule Push_complete_ok [OF assms])


text \<open>
  When the stream ends without an error before all the content has arrived, \<open>Push\<close>
  still returns success, counts the message and publishes it, although the store holds only
  a part of it.
\<close>

theorem Push_short_stream_succeeds:
  assumes "admitted L e m call msg" and "fs_idle v e (store m) (Id msg)"
    and "resumable v (store m) msg m0 b" and "\<forall>n. quiet (E n)" and "quiet e'"
    and "int (length (b @ concat packets)) < Length msg"
  shows "\<exists>m'. Push v L e E e' m call msg (int (length b)) packets None = (m', None)
    \<and> fs_view v (store m') (Id msg) = Partial m0 (b @ concat packets)
    \<and> notifier m' = map_option (\<lambda>ms. ms @ [msg]) (notifier m)"
proof -
  obtain m2 w2 where p: "Push v L e E e' m call msg (int (length b)) packets None =
      push_end e' m2 w2 msg (int (length (concat packets))) None"
    "fs_writing v e (store m2) w2 m0 msg (b @ concat packets)" "notifier m2 = notifier m"
    by (rule Push_reaches_end [OF assms(1-3), of E e' packets None]) (use assms(4) in auto)
  obtain s where "Close e' (store m2) w2 = (s, None)" "fs_view v s (Id msg) = Partial m0 (b @ concat packets)"
    using fs_close_partial [OF fs_writing_env [OF p(2) assms(5)] assms(6)] by blast
  with p show ?thesis by (auto simp: push_end_def)
qed

section \<open>Reading\<close>

lemma send_all_ok: "(\<And>n. send n = None) \<Longrightarrow> send_all send n ps = (ps, None)"
  by (induction ps arbitrary: n) auto

text \<open>A failing send ends the stream: what was sent is a prefix of the pieces.\<close>

lemma send_all_prefix: "prefix (fst (send_all send n ps)) ps"
  by (induction ps arbitrary: n) (auto split: option.splits prod.splits, metis fst_conv)

text \<open>
  \<open>Pull\<close> of a complete message sends the content from the requested offset on, in
  pieces of at most 2048 bytes, and returns the message that was stored.
\<close>

lemma Pull_content:
  assumes "snd (Authorize L (now e) (RateAclIn (params m)) call) = None" and "fs_idle v e (store m) mid"
    and "fs_view v (store m) mid = Complete msg b" and "Id msg = mid" and "0 \<le> offset" and "\<forall>n. send n = None"
  shows "\<exists>m' ps. Pull v L e send m call mid offset = (m', ps, Inr msg)
    \<and> concat ps = drop (nat offset) b \<and> (\<forall>p \<in> set ps. p \<noteq> [] \<and> length p \<le> 2048) \<and> notifier m' = notifier m"
proof -
  obtain m1 er where a: "authorize_in L (now e) m call = (m1, er)" by force
  note k = authorize_in_keeps [OF a]
  have er: "er = None" using assms(1) k by auto
  obtain s r where o: "OpenRead v e (store m) mid = (s, Inr (msg, r))" "read_rest s r = b"
    using fs_read_back [OF assms(2-4)] by blast
  have q: "\<not> fails e op" for op using assms(2) by (simp add: fs_idle_def quiet_def)
  have "r_pos r = 0" using o(1) by (auto simp: OpenRead_def split: if_splits sum.splits)
  then have "read_rest s (r\<lparr>r_pos := nat offset\<rparr>) = drop (nat offset) b" using o(2) by (simp add: read_rest_def)
  then have "Pull v L e send m call mid offset = (set_store s m1, chunks 2048 (drop (nat offset) b), Inr msg)"
    using a er k o(1) assms(5,6) q by (simp add: Pull_def Seek_def send_all_ok)
  moreover have "\<forall>p \<in> set (chunks 2048 (drop (nat offset) b)). p \<noteq> [] \<and> length p \<le> 2048"
    using chunks_bounds by blast
  ultimately show ?thesis using k by auto
qed

lemma diff_loop_ok:
  "(\<And>n. send n = None) \<Longrightarrow> (\<And>n. quiet (E n)) \<Longrightarrow>
    diff_loop E send n s batches = (map (map (\<lambda>i. Exists (E 0) s i)) batches, None)"
  by (induction batches arbitrary: n) (auto simp: Exists_def isComplete_def quiet_def)

text \<open>
  The answers of \<open>Diff\<close>: for every batch that was answered one boolean per
  identifier, true exactly when the message is complete in the store.
\<close>

theorem Diff_answers:
  assumes "snd (Authorize L (now e) (RateAclIn (params m)) call) = None" and "\<forall>n. send n = None"
    and "\<forall>n. quiet (E n)" and "\<forall>ids \<in> set batches. \<forall>i \<in> set ids. fs_idle v e (store m) i \<and> fs_view v (store m) i \<noteq> Broken"
  shows "\<exists>m'. Diff L e E send m call batches =
    (m', map (map (\<lambda>i. \<exists>msg b. fs_view v (store m) i = Complete msg b)) batches, None) \<and> store m' = store m"
proof -
  obtain m1 er where a: "authorize_in L (now e) m call = (m1, er)" by force
  note k = authorize_in_keeps [OF a]
  have "Diff L e E send m call batches = (m1, map (map (\<lambda>i. Exists (E 0) (store m) i)) batches, None)"
    using a k assms(1-3) diff_loop_ok [of send E 0 "store m" batches] by (auto simp: Diff_def)
  moreover have "Exists (E 0) (store m) i \<longleftrightarrow> (\<exists>msg b. fs_view v (store m) i = Complete msg b)"
    if "ids \<in> set batches" "i \<in> set ids" for ids i
    using fs_holds [OF fs_idle_env [of v e "store m" i "E 0"]] assms(3,4) that by blast
  ultimately show ?thesis using k by (auto intro!: map_cong)
qed

lemma authorize_in_ok:
  "snd (Authorize L t (RateAclIn (params m)) call) = None \<Longrightarrow> \<exists>m'. authorize_in L t m call = (m', None)"
  by (cases "Authorize L t (RateAclIn (params m)) call") (auto simp: authorize_in_def)

lemma ResumeOffset_partial:
  assumes "snd (Authorize L (now e) (RateAclIn (params m)) call) = None" and "fs_idle v e (store m) (Id msg)"
    and "resumable v (store m) msg m0 b" and "ResumeOffset L e m call msg = (m', r)"
  shows "r = Inr (int (length b)) \<and> store m' = store m \<and> notifier m' = notifier m"
proof -
  obtain m1 where a: "authorize_in L (now e) m call = (m1, None)" using authorize_in_ok [OF assms(1)] by blast
  have "Offset e (store m) (Id msg) = (store m, Inr (int (length b)))"
    using fs_offset [OF assms(2), of b m0] assms(3) by (auto simp: resumable_def)
  with assms(4) a authorize_in_keeps [OF a] show ?thesis by (auto simp: ResumeOffset_def)
qed

text \<open>
  The offset that \<open>ResumeOffset\<close> reports is the one at which \<open>OpenWrite\<close> accepts
  the rest of the message.
\<close>

theorem ResumeOffset_accepted:
  assumes "snd (Authorize L (now e) (RateAclIn (params m)) call) = None" and "fs_idle v e (store m) (Id msg)"
    and "resumable v (store m) msg m0 b" and "quiet e'"
  shows "\<exists>m' s w. ResumeOffset L e m call msg = (m', Inr (int (length b))) \<and> store m' = store m
    \<and> OpenWrite v e' (store m') msg (int (length b)) = (s, Inr w) \<and> fs_writing v e' s w m0 msg b"
proof -
  obtain m' r where "ResumeOffset L e m call msg = (m', r)" by force
  then have "ResumeOffset L e m call msg = (m', Inr (int (length b)))" "store m' = store m"
    using ResumeOffset_partial [OF assms(1-3)] by blast+
  moreover obtain s w where "OpenWrite v e' (store m) msg (int (length b)) = (s, Inr w)" "fs_writing v e' s w m0 msg b"
    using fstore.transfer [OF fs_idle_env [OF assms(2,4)], of b m0 "[]"] assms(3) by (auto simp: resumable_def)
  ultimately show ?thesis by auto
qed

text \<open>The limits are never changed by a call.\<close>

lemma push_recv_limits:
  "push_recv E n m w sz ps = (m', w', sz', er) \<Longrightarrow>
    MaxHops (params m') = MaxHops (params m) \<and> MaxMessageLength (params m') = MaxMessageLength (params m)"
proof (induction ps arbitrary: n m w sz)
  case (Cons p ps)
  obtain s1 w1 er1 where "Write (E n) (store m) w p = (s1, w1, er1)" by (metis prod_cases3)
  with Cons show ?case by (fastforce split: option.splits)
qed simp

lemma push_start_limits:
  "push_start v L e m call msg off = (m', r) \<Longrightarrow>
    MaxHops (params m') = MaxHops (params m) \<and> MaxMessageLength (params m') = MaxMessageLength (params m)"
  by (auto simp: push_start_def Let_def split: prod.splits option.splits if_splits
      dest!: authorize_in_keeps authorize_sender_keeps)

lemma Push_limits:
  assumes "Push v L e E e' m call msg offset packets serr = (m', er)"
  shows "MaxHops (params m') = MaxHops (params m) \<and> MaxMessageLength (params m') = MaxMessageLength (params m)"
proof -
  obtain m1 x where s: "push_start v L e m call msg offset = (m1, x)" by force
  show ?thesis
  proof (cases x)
    case (Inl er)
    with assms s push_start_limits [OF s] show ?thesis by (simp add: Push_def)
  next
    case (Inr w)
    obtain m2 w2 sz er2 where r: "push_recv E 0 m1 w 0 packets = (m2, w2, sz, er2)" by (metis prod_cases4)
    from assms s Inr r push_start_limits [OF s] push_recv_limits [OF r] show ?thesis
      by (auto simp: Push_def push_end_def close_quietly_def split: option.splits if_splits prod.splits)
  qed
qed

lemma ResumeOffset_limits:
  "ResumeOffset L e m call msg = (m', r) \<Longrightarrow>
    MaxHops (params m') = MaxHops (params m) \<and> MaxMessageLength (params m') = MaxMessageLength (params m)"
  by (auto simp: ResumeOffset_def split: prod.splits option.splits dest!: authorize_in_keeps)

section \<open>A small node\<close>

definition ex_node :: Messenger where
  "ex_node = \<lparr>params = \<lparr>AdvertisementID = '''', EnableLocalDiscovery = True, GlobalDiscoveryPaths = [],
       MaxActivePeers = 2, MaxHops = 3, MaxMessageLength = 100, MountTTL = 0, RateAclIn = ex_acl, RateAclOut = [],
       RateAclSender = ex_acl, ScanInterval = 0, Store = storage_init\<rparr>,
     notifier = Some [], counters = NewCounters\<rparr>"

lemma ex_node_simps [simp]: "store ex_node = storage_init" "notifier ex_node = Some []"
  "RateAclIn (params ex_node) = ex_acl"
  by (simp_all add: ex_node_def)

lemma ex_authorized: "snd (Authorize ex_lib t ex_acl ex_call) = None"
  by (simp add: Authorize_def same_key_def ex_lib_def ex_acl_def ex_call_def last_minute_def)

lemma ex_admitted: "admitted ex_lib ex_env ex_node ex_call ex_msg"
proof -
  have "sender_call ex_call ex_msg = ex_call" by (simp add: sender_call_def ex_call_def ex_msg_def)
  moreover have "Validate (PublicKey ex_lib) (Verify ex_lib) 5 ex_msg = None"
    by (simp add: Validate_def Expired_def ex_lib_def ex_msg_def)
  ultimately show ?thesis by (simp add: admitted_def ex_authorized) (simp add: ex_node_def ex_authorized)
qed

lemma ex_resumable: "resumable text_codec (store ex_node) ex_msg ex_msg []"
  by (simp add: resumable_def init_idle)

lemmas ex_push = ex_admitted ex_idle [folded ex_node_simps(1)] ex_resumable

lemma ex_quiet: "\<forall>n :: nat. quiet ((\<lambda>_. ex_env) n)"
  by simp


theorem Push_completes_witness:
  "\<exists>m'. Push text_codec ex_lib ex_env (\<lambda>_. ex_env) ex_env ex_node ex_call ex_msg 0 [''h'', ''i''] None = (m', None)
     \<and> fs_view text_codec (store m') ''m1'' = Complete ex_msg ''hi'' \<and> notifier m' = Some [ex_msg]"
  using Push_completes [OF ex_push ex_quiet, of ex_env "[''h'', ''i'']"] by auto


theorem Push_short_stream_succeeds_witness:
  "\<exists>m'. Push text_codec ex_lib ex_env (\<lambda>_. ex_env) ex_env ex_node ex_call ex_msg 0 [''h''] None = (m', None)
     \<and> fs_view text_codec (store m') ''m1'' = Partial ex_msg ''h'' \<and> notifier m' = Some [ex_msg]"
  using Push_short_stream_succeeds [OF ex_push ex_quiet, of ex_env "[''h'']"] by auto

lemma ex_stored_node:
  "\<exists>m. RateAclIn (params m) = ex_acl \<and> fs_idle text_codec ex_env (store m) ''m1''
     \<and> fs_view text_codec (store m) ''m1'' = Complete ex_msg ''hi''"
proof -
  obtain s where "fs_idle text_codec ex_env s ''m1''" "fs_view text_codec s ''m1'' = Complete ex_msg ''hi''"
    using ex_complete by blast
  then show ?thesis by (intro exI [of _ "set_store s ex_node"]) (simp add: ex_node_def set_store_def)
qed

theorem Diff_answers_witness:
  "\<exists>m m'. Diff ex_lib ex_env (\<lambda>_. ex_env) (\<lambda>_. None) m ex_call [[''m1'']] = (m', [[True]], None)"
proof -
  obtain m where m: "RateAclIn (params m) = ex_acl" "fs_idle text_codec ex_env (store m) ''m1''"
    "fs_view text_codec (store m) ''m1'' = Complete ex_msg ''hi''" using ex_stored_node by blast
  have "snd (Authorize ex_lib (now ex_env) (RateAclIn (params m)) ex_call) = None" by (simp add: m(1) ex_authorized)
  from Diff_answers [OF this, of "\<lambda>_. None" "\<lambda>_. ex_env" "[[''m1'']]" text_codec] m show ?thesis by auto
qed

theorem ResumeOffset_accepted_witness:
  "\<exists>m'. ResumeOffset ex_lib ex_env ex_node ex_call ex_msg = (m', Inr 0)"
  using ResumeOffset_accepted [OF _ ex_idle [folded ex_node_simps(1)] ex_resumable, of ex_lib ex_call ex_env]
  by (auto simp: ex_authorized)

end
