(* ===== verification/Backoff.thy ===== *)
theory Backoff
  imports RateAcl "HOL-Library.Word"
begin

text \<open>
  Retries with exponential back-off (\<^verbatim>\<open>src/internal/peers.go\<close>): the function \<open>backoff\<close>,
  which repeats an operation while its error asks for it, and the three delays that the
  peers compute.  The delays are computed in \<open>int64\<close> arithmetic, as in the code: the
  shift and the product wrap around.
\<close>

section \<open>Delays\<close>

text \<open>
  \<open>time.Duration(b << n) * unit\<close>, capped at \<open>max\<close>, where \<open>b\<close> includes the random part.
\<close>

definition exp_delay :: "int \<Rightarrow> nat \<Rightarrow> duration \<Rightarrow> duration \<Rightarrow> duration" where
  "exp_delay b n unit mx =
     (let d = sint (push_bit n (word_of_int b :: 64 word) * word_of_int unit)
      in if d > mx then mx else d)"

abbreviation (input) millisecond :: duration where
  "millisecond \<equiv> 1000000"

definition backoff_delay :: "nat \<Rightarrow> nat \<Rightarrow> duration" where
  "backoff_delay rnd n = exp_delay (100 + int rnd) n millisecond (60 * second)"

definition diff_delay :: "nat \<Rightarrow> nat \<Rightarrow> duration" where
  "diff_delay rnd attempt = exp_delay (5 + int rnd) attempt second (5 * 60 * second)"

definition retry_delay :: "nat \<Rightarrow> nat \<Rightarrow> duration" where
  "retry_delay rnd n = exp_delay (10 + int rnd) n second (5 * 60 * second)"

lemma exp_delay_word:
  "push_bit n (word_of_int b :: 64 word) * word_of_int u = word_of_int (b * 2 ^ n * u)"
  by (simp add: push_bit_eq_mult)

lemma exp_delay_exact:
  assumes "0 \<le> b * 2 ^ n * u" and "b * 2 ^ n * u < 2 ^ 63"
  shows "exp_delay b n u mx = min (b * 2 ^ n * u) mx"
proof -
  have "sint (word_of_int (b * 2 ^ n * u) :: 64 word) = b * 2 ^ n * u"
    using assms by (subst sint_sbintrunc') (rule signed_take_bit_int_eq_self, auto)
  then show ?thesis unfolding exp_delay_def exp_delay_word Let_def by simp
qed

lemma exp_delay_vanishes:
  assumes "2 ^ k dvd u" and "64 \<le> n + k" and "0 \<le> mx"
  shows "exp_delay b n u mx = 0"
proof -
  obtain r where r: "u = 2 ^ k * r" using assms(1) by blast
  have "(2 :: int) ^ 64 dvd 2 ^ (n + k)" using assms(2) by (rule le_imp_power_dvd)
  then have "(2 :: int) ^ 64 dvd 2 ^ (n + k) * (b * r)" by (rule dvd_mult2)
  also have "2 ^ (n + k) * (b * r) = b * 2 ^ n * u" unfolding r by (simp add: power_add)
  finally have "(2 :: int) ^ 64 dvd b * 2 ^ n * u" .
  then have "(word_of_int (b * 2 ^ n * u) :: 64 word) = 0"
    unfolding word_of_int_eq_0_iff by simp
  then show ?thesis using assms(3) unfolding exp_delay_def exp_delay_word by simp
qed



text \<open>
  The doubling wraps around: from some number of attempts on, all three delays are
  zero, whatever the random part, so that the retries no longer wait at all.
\<close>

theorem delays_vanish:
  assumes "58 \<le> n"
  shows "backoff_delay rnd n = 0 \<and> diff_delay rnd n = 0 \<and> retry_delay rnd n = 0"
proof -
  have "(2 :: int) ^ 6 dvd millisecond" "(2 :: int) ^ 9 dvd second" by simp_all
  with assms show ?thesis
    unfolding backoff_delay_def diff_delay_def retry_delay_def
    by (intro conjI; intro exp_delay_vanishes [of 6] exp_delay_vanishes [of 9]) auto
qed

theorem delays_vanish_witness: "backoff_delay 0 60 = 0 \<and> backoff_delay 0 3 = 800 * millisecond"
  using delays_vanish [of 60 0] exp_delay_exact [of 100 3 millisecond "60 * second"]
  by (simp add: backoff_delay_def)

section \<open>The retry loop\<close>

text \<open>
  \<open>f\<close> is the repeated operation, given the number of the attempt and the state it works
  on.  The loop may not end; then its value is \<open>None\<close>.  The cancellation of the context
  only shortens the waits: the loop itself does not look at it.
\<close>

partial_function (option) backoff ::
  "(verror_id \<Rightarrow> action) \<Rightarrow> (nat \<Rightarrow> 's \<Rightarrow> 's \<times> err option) \<Rightarrow> nat \<Rightarrow> 's \<Rightarrow> ('s \<times> err option) option"
where
  "backoff va f n s =
     (let r = f n s in
      if Action va (snd r) = RetryBackoff then backoff va f (Suc n) (fst r) else Some r)"

text \<open>The state before the attempt number \<open>k\<close>.\<close>

fun after_tries :: "(nat \<Rightarrow> 's \<Rightarrow> 's \<times> err option) \<Rightarrow> nat \<Rightarrow> 's \<Rightarrow> nat \<Rightarrow> 's" where
  "after_tries f n s 0 = s"
| "after_tries f n s (Suc k) = after_tries f (Suc n) (fst (f n s)) k"

lemma backoff_first:
  assumes "\<And>j. j < k \<Longrightarrow> Action va (snd (f (n + j) (after_tries f n s j))) = RetryBackoff"
    and "Action va (snd (f (n + k) (after_tries f n s k))) \<noteq> RetryBackoff"
  shows "backoff va f n s = Some (f (n + k) (after_tries f n s k))"
  using assms
proof (induction k arbitrary: n s)
  case 0
  then show ?case by (subst backoff.simps) (simp add: Let_def)
next
  case (Suc k)
  have "Action va (snd (f n s)) = RetryBackoff" using Suc.prems(1) [of 0] by simp
  moreover have "backoff va f (Suc n) (fst (f n s)) = Some (f (Suc n + k) (after_tries f (Suc n) (fst (f n s)) k))"
    by (rule Suc.IH) (use Suc.prems(1) [of "Suc _"] Suc.prems(2) in auto)
  ultimately show ?case by (subst backoff.simps) (simp add: Let_def)
qed

lemma backoff_result:
  assumes "backoff va f n s = Some r"
  shows "\<exists>k. r = f (n + k) (after_tries f n s k) \<and> Action va (snd r) \<noteq> RetryBackoff"
proof (rule backoff.raw_induct [OF _ assms])
  fix g :: "(verror_id \<Rightarrow> action) \<Rightarrow> (nat \<Rightarrow> 'a \<Rightarrow> 'a \<times> err option) \<Rightarrow> nat \<Rightarrow> 'a \<Rightarrow> ('a \<times> err option) option"
    and va f n s r
  assume ih: "\<And>va f n s r. g va f n s = Some r \<Longrightarrow>
      \<exists>k. r = f (n + k) (after_tries f n s k) \<and> Action va (snd r) \<noteq> RetryBackoff"
    and step: "(let r = f n s in if Action va (snd r) = RetryBackoff then g va f (Suc n) (fst r) else Some r) = Some r"
  show "\<exists>k. r = f (n + k) (after_tries f n s k) \<and> Action va (snd r) \<noteq> RetryBackoff"
  proof (cases "Action va (snd (f n s)) = RetryBackoff")
    case True
    with step have "g va f (Suc n) (fst (f n s)) = Some r" by (simp add: Let_def)
    from ih [OF this] obtain k where "r = f (Suc n + k) (after_tries f (Suc n) (fst (f n s)) k)"
      "Action va (snd r) \<noteq> RetryBackoff" by blast
    then show ?thesis by (intro exI [of _ "Suc k"]) simp
  next
    case False
    with step show ?thesis by (intro exI [of _ 0]) (auto simp: Let_def)
  qed
qed

text \<open>
  C32: \<open>backoff\<close> returns exactly when some attempt, in the sequence of states the
  attempts produce, ends with a result that does not ask for a retry, and it returns the
  first such result.
\<close>

theorem backoff_returns:
  "backoff va f 0 s =
     (if \<exists>k. Action va (snd (f k (after_tries f 0 s k))) \<noteq> RetryBackoff
      then (let k = LEAST k. Action va (snd (f k (after_tries f 0 s k))) \<noteq> RetryBackoff
            in Some (f k (after_tries f 0 s k)))
      else None)"
proof (cases "\<exists>k. Action va (snd (f k (after_tries f 0 s k))) \<noteq> RetryBackoff")
  case True
  let ?k = "LEAST k. Action va (snd (f k (after_tries f 0 s k))) \<noteq> RetryBackoff"
  have "Action va (snd (f ?k (after_tries f 0 s ?k))) \<noteq> RetryBackoff" using True by (rule LeastI_ex)
  moreover have "Action va (snd (f j (after_tries f 0 s j))) = RetryBackoff" if "j < ?k" for j
    using not_less_Least [OF that] by blast
  ultimately show ?thesis using True backoff_first [of ?k va f 0 s] by (simp add: Let_def)
next
  case False
  then show ?thesis using backoff_result [of va f 0 s] by (cases "backoff va f 0 s") auto
qed

end
