(* ===== verification/MsgQueue.thy ===== *)
theory MsgQueue
  imports GoTime "HOL-Library.Multiset"
begin

text \<open>
  The queue of scheduled messages (\<^verbatim>\<open>src/internal/queue.go\<close>): the ordered list with
  \<open>Insert\<close>, and the goroutine started by \<open>Pop\<close>, which sleeps until the front element is
  due and hands it to the reader of the pop channel.  The list operations implement the
  contract of a stable priority queue; the goroutine is a transition system in which
  inserts, the clock and the cancellation of the context interleave freely.
\<close>

record msgQueueElement =
  q_t :: time
  q_msgId :: string

section \<open>The list\<close>

fun insert_elem :: "msgQueueElement \<Rightarrow> msgQueueElement list \<Rightarrow> msgQueueElement list" where
  "insert_elem qe [] = [qe]"
| "insert_elem qe (e # es) = (if q_t e > q_t qe then qe # e # es else e # insert_elem qe es)"

definition Len :: "msgQueueElement list \<Rightarrow> nat" where
  "Len q = length q"

definition Empty :: "msgQueueElement list \<Rightarrow> bool" where
  "Empty q \<longleftrightarrow> q = []"

fun Front :: "msgQueueElement list \<Rightarrow> msgQueueElement option" where
  "Front [] = None"
| "Front (e # es) = Some e"

definition Remove_front :: "msgQueueElement list \<Rightarrow> msgQueueElement list" where
  "Remove_front q = tl q"

definition in_order :: "msgQueueElement list \<Rightarrow> bool" where
  "in_order q \<longleftrightarrow> sorted (map q_t q)"

definition at_time :: "time \<Rightarrow> msgQueueElement list \<Rightarrow> msgQueueElement list" where
  "at_time t q = filter (\<lambda>e. q_t e = t) q"

lemma mset_insert_elem [simp]: "mset (insert_elem qe q) = add_mset qe (mset q)"
  by (induction q) auto

lemma set_insert_elem [simp]: "set (insert_elem qe q) = insert qe (set q)"
  by (induction q) auto

lemma in_order_insert: "in_order q \<Longrightarrow> in_order (insert_elem qe q)"
  unfolding in_order_def by (induction q) auto

lemma in_order_simps [simp]:
  "in_order []" "in_order (e # es) \<longleftrightarrow> (\<forall>x \<in> set es. q_t e \<le> q_t x) \<and> in_order es"
  by (auto simp: in_order_def)

lemma at_time_insert:
  assumes "in_order q"
  shows "at_time t (insert_elem qe q) = (if q_t qe = t then at_time t q @ [qe] else at_time t q)"
  using assms
proof (induction q)
  case (Cons e es)
  have "at_time t (e # es) = []" if "q_t qe < q_t e" "q_t qe = t"
    using that Cons.prems by (auto simp: at_time_def filter_empty_conv)
  with Cons show ?case by (auto simp: at_time_def)
qed (auto simp: at_time_def)

text \<open>
  The contract: \<open>contents\<close> as a multiset, the front least among the contents, and elements
  of equal time in the order of their insertion.
\<close>

fun drain :: "('q \<Rightarrow> msgQueueElement option) \<Rightarrow> ('q \<Rightarrow> 'q) \<Rightarrow> nat \<Rightarrow> 'q \<Rightarrow> msgQueueElement list" where
  "drain front pop 0 q = []"
| "drain front pop (Suc n) q = (case front q of None \<Rightarrow> [] | Some e \<Rightarrow> e # drain front pop n (pop q))"

locale timed_queue =
  fixes ins :: "msgQueueElement \<Rightarrow> 'q \<Rightarrow> 'q"
    and front :: "'q \<Rightarrow> msgQueueElement option"
    and pop :: "'q \<Rightarrow> 'q"
    and contents :: "'q \<Rightarrow> msgQueueElement multiset"
    and same_time :: "time \<Rightarrow> 'q \<Rightarrow> msgQueueElement list"
    and inv :: "'q \<Rightarrow> bool"
  assumes inv_ins: "inv q \<Longrightarrow> inv (ins e q)"
    and inv_pop: "inv q \<Longrightarrow> inv (pop q)"
    and contents_ins: "inv q \<Longrightarrow> contents (ins e q) = add_mset e (contents q)"
    and front_none: "inv q \<Longrightarrow> front q = None \<longleftrightarrow> contents q = {#}"
    and front_least: "inv q \<Longrightarrow> front q = Some e \<Longrightarrow> x \<in># contents q \<Longrightarrow> q_t e \<le> q_t x"
    and contents_pop: "inv q \<Longrightarrow> front q = Some e \<Longrightarrow> contents q = add_mset e (contents (pop q))"
    and fifo_ins: "inv q \<Longrightarrow> same_time t (ins e q) = (if q_t e = t then same_time t q @ [e] else same_time t q)"
    and fifo_pop: "inv q \<Longrightarrow> front q = Some e \<Longrightarrow>
      same_time t q = (if q_t e = t then e # same_time t (pop q) else same_time t (pop q))"
begin

lemma drain_all:
  assumes "inv q"
  shows "mset (drain front pop (size (contents q)) q) = contents q"
    and "sorted (map q_t (drain front pop n q))"
    and "set (drain front pop n q) \<subseteq> set_mset (contents q)"
proof -
  show "mset (drain front pop (size (contents q)) q) = contents q"
    using assms
  proof (induction "size (contents q)" arbitrary: q)
    case 0
    then show ?case by simp
  next
    case (Suc n)
    have "contents q \<noteq> {#}" using Suc(2) by auto
    then obtain e where e: "front q = Some e" using front_none [OF Suc.prems] by auto
    note c = contents_pop [OF Suc.prems e]
    have n: "n = size (contents (pop q))" using Suc(2) c by simp
    from Suc(1) [OF n inv_pop [OF Suc.prems]] have "mset (drain front pop n (pop q)) = contents (pop q)"
      unfolding n [symmetric] .
    with e c Suc(2) [symmetric] show ?case by simp
  qed
  have sub: "set (drain front pop n q) \<subseteq> set_mset (contents q)" if "inv q" for n q
    using that
  proof (induction n arbitrary: q)
    case (Suc n)
    then show ?case using contents_pop [OF Suc.prems] Suc.IH [OF inv_pop [OF Suc.prems]]
      by (cases "front q") auto
  qed simp
  then show "set (drain front pop n q) \<subseteq> set_mset (contents q)" using assms by blast
  show "sorted (map q_t (drain front pop n q))"
    using assms
  proof (induction n arbitrary: q)
    case (Suc n)
    show ?case
    proof (cases "front q")
      case (Some e)
      have "q_t e \<le> q_t x" if "x \<in> set (drain front pop n (pop q))" for x
        using sub [OF inv_pop [OF Suc.prems], of n] that front_least [OF Suc.prems Some]
          contents_pop [OF Suc.prems Some] by auto
      with Suc Some show ?thesis by (auto simp: inv_pop)
    qed simp
  qed simp
qed

text \<open>Elements scheduled for the same time come out in the order in which they went in.\<close>

lemma drain_fifo:
  assumes "inv q"
  shows "filter (\<lambda>x. q_t x = t) (drain front pop n q) = take (length (filter (\<lambda>x. q_t x = t) (drain front pop n q))) (same_time t q)"
  using assms
proof (induction n arbitrary: q)
  case (Suc n)
  then show ?case using fifo_pop [OF Suc.prems] by (cases "front q") (auto simp: inv_pop)
qed simp

end

interpretation mq: timed_queue insert_elem Front Remove_front mset at_time in_order
proof unfold_locales
  fix q e x t
  assume q: "in_order q"
  show "in_order (insert_elem e q)" by (rule in_order_insert [OF q])
  show "in_order (Remove_front q)" using q by (cases q) (auto simp: Remove_front_def)
  show "mset (insert_elem e q) = add_mset e (mset q)" by simp
  show "Front q = None \<longleftrightarrow> mset q = {#}" by (cases q) auto
  show "q_t e \<le> q_t x" if "Front q = Some e" "x \<in># mset q" using q that by (cases q) auto
  show "mset q = add_mset e (mset (Remove_front q))" if "Front q = Some e"
    using that by (cases q) (auto simp: Remove_front_def)
  show "at_time t (insert_elem e q) = (if q_t e = t then at_time t q @ [e] else at_time t q)"
    by (rule at_time_insert [OF q])
  show "at_time t q = (if q_t e = t then e # at_time t (Remove_front q) else at_time t (Remove_front q))"
    if "Front q = Some e" using that by (cases q) (auto simp: Remove_front_def at_time_def)
qed

section \<open>The goroutine of Pop\<close>

text \<open>
  The state of a \<open>MsgQueue\<close> with its goroutine.  \<open>recheck\<close> says whether the one-place
  channel \<open>recheckChan\<close> is full, \<open>notify\<close> counts the calls of \<open>Insert\<close> that have
  released the mutex but not yet run their deferred send on it.  The program counter of the
  goroutine is at the computation of the delay, in the first \<open>select\<close> with a timer that
  fires at the given time, before the second critical section, or in the send to \<open>popChan\<close>.
  \<open>inserted\<close>, \<open>sent\<close> and \<open>lost\<close> record what happened to each element.
\<close>

datatype pop_pc = NoReader | Compute | Wait time | Check | Send msgQueueElement | Stopped

record MsgQueue =
  elems :: "msgQueueElement list"
  recheck :: bool
  notify :: nat
  pc :: pop_pc
  clk :: time
  cancelled :: bool
  inserted :: "msgQueueElement multiset"
  sent :: "(time \<times> msgQueueElement) list"
  lost :: "msgQueueElement list"

definition newMsgQueue :: "time \<Rightarrow> MsgQueue" where
  "newMsgQueue t = \<lparr>elems = [], recheck = False, notify = 0, pc = NoReader, clk = t, cancelled = False,
     inserted = {#}, sent = [], lost = []\<rparr>"

definition Insert :: "time \<Rightarrow> string \<Rightarrow> MsgQueue \<Rightarrow> MsgQueue" where
  "Insert t msgId q =
     (let qe = \<lparr>q_t = t, q_msgId = msgId\<rparr>
      in q\<lparr>elems := insert_elem qe (elems q), notify := Suc (notify q),
           inserted := add_mset qe (inserted q)\<rparr>)"

definition Insert_recheck :: "MsgQueue \<Rightarrow> MsgQueue" where
  "Insert_recheck q = q\<lparr>recheck := True, notify := notify q - 1\<rparr>"

definition Pop :: "MsgQueue \<Rightarrow> MsgQueue" where
  "Pop q = (if pc q = NoReader then q\<lparr>pc := Compute\<rparr> else q)"

definition pop_delay :: "MsgQueue \<Rightarrow> duration" where
  "pop_delay q = (case Front (elems q) of None \<Rightarrow> 60 * second | Some e \<Rightarrow> Sub (q_t e) (clk q))"

definition pop_compute :: "MsgQueue \<Rightarrow> MsgQueue" where
  "pop_compute q = q\<lparr>pc := Wait (clk q + pop_delay q)\<rparr>"

definition pop_check :: "MsgQueue \<Rightarrow> MsgQueue" where
  "pop_check q =
     (case Front (elems q) of
        None \<Rightarrow> q\<lparr>pc := Compute\<rparr>
      | Some e \<Rightarrow> if clk q > q_t e then q\<lparr>elems := Remove_front (elems q), pc := Send e\<rparr>
                  else q\<lparr>pc := Compute\<rparr>)"

text \<open>The steps of the goroutine, of the reader of the channel and of pending notifications.\<close>

inductive pop_step :: "MsgQueue \<Rightarrow> MsgQueue \<Rightarrow> bool" where
  do_notify: "0 < notify q \<Longrightarrow> pop_step q (Insert_recheck q)"
| do_compute: "pc q = Compute \<Longrightarrow> pop_step q (pop_compute q)"
| timeout: "pc q = Wait d \<Longrightarrow> d \<le> clk q \<Longrightarrow> pop_step q (q\<lparr>pc := Check\<rparr>)"
| rechecked: "pc q = Wait d \<Longrightarrow> recheck q \<Longrightarrow> pop_step q (q\<lparr>pc := Check, recheck := False\<rparr>)"
| stop: "pc q = Wait d \<Longrightarrow> cancelled q \<Longrightarrow> pop_step q (q\<lparr>pc := Stopped\<rparr>)"
| do_check: "pc q = Check \<Longrightarrow> pop_step q (pop_check q)"
| deliver: "pc q = Send e \<Longrightarrow> pop_step q (q\<lparr>pc := Compute, sent := sent q @ [(clk q, e)]\<rparr>)"
| abandon: "pc q = Send e \<Longrightarrow> cancelled q \<Longrightarrow> pop_step q (q\<lparr>pc := Compute, lost := lost q @ [e]\<rparr>)"

inductive queue_step :: "MsgQueue \<Rightarrow> MsgQueue \<Rightarrow> bool" where
  goroutine: "pop_step q q' \<Longrightarrow> queue_step q q'"
| do_insert: "queue_step q (Insert t msgId q)"
| do_pop: "queue_step q (Pop q)"
| tick: "clk q \<le> t \<Longrightarrow> queue_step q (q\<lparr>clk := t\<rparr>)"
| cancel: "queue_step q (q\<lparr>cancelled := True\<rparr>)"

inductive queue_reachable :: "MsgQueue \<Rightarrow> bool" where
  queue_init: "queue_reachable (newMsgQueue t)"
| queue_next: "queue_reachable q \<Longrightarrow> queue_step q q' \<Longrightarrow> queue_reachable q'"

section \<open>Its invariant\<close>

definition in_hand :: "pop_pc \<Rightarrow> msgQueueElement multiset" where
  "in_hand p = (case p of Send e \<Rightarrow> {#e#} | _ \<Rightarrow> {#})"

lemma in_hand_simps [simp]: "in_hand (Send e) = {#e#}" "in_hand NoReader = {#}" "in_hand Compute = {#}"
  "in_hand (Wait d) = {#}" "in_hand Check = {#}" "in_hand Stopped = {#}"
  by (simp_all add: in_hand_def)

definition accounted :: "MsgQueue \<Rightarrow> bool" where
  "accounted q \<longleftrightarrow> inserted q = mset (elems q) + in_hand (pc q) + mset (map snd (sent q)) + mset (lost q)
     \<and> (lost q \<noteq> [] \<longrightarrow> cancelled q)"

definition punctual :: "MsgQueue \<Rightarrow> bool" where
  "punctual q \<longleftrightarrow> in_order (elems q) \<and> (\<forall>(t, e) \<in> set (sent q). q_t e < t \<and> t \<le> clk q)
     \<and> (\<forall>e. pc q = Send e \<longrightarrow> q_t e < clk q)"

text \<open>A goroutine that sleeps past the front element has a wake-up pending.\<close>

definition awake :: "MsgQueue \<Rightarrow> bool" where
  "awake q \<longleftrightarrow> (\<forall>d e. pc q = Wait d \<longrightarrow> Front (elems q) = Some e \<longrightarrow>
     d \<le> max (q_t e) (clk q) \<or> recheck q \<or> 0 < notify q)"

lemmas queue_defs = Insert_def Insert_recheck_def Pop_def pop_compute_def pop_check_def Let_def

lemma pop_step_accounted: "pop_step q q' \<Longrightarrow> accounted q \<Longrightarrow> accounted q'"
proof (induction rule: pop_step.induct)
  case (do_check q)
  then show ?case by (cases "elems q") (auto simp: accounted_def queue_defs Remove_front_def)
qed (auto simp: accounted_def queue_defs)

lemma queue_step_accounted: "queue_step q q' \<Longrightarrow> accounted q \<Longrightarrow> accounted q'"
proof (induction rule: queue_step.induct)
  case (goroutine q q')
  then show ?case by (rule pop_step_accounted)
qed (auto simp: queue_defs accounted_def)

lemma pop_step_punctual: "pop_step q q' \<Longrightarrow> punctual q \<Longrightarrow> punctual q'"
proof (induction rule: pop_step.induct)
  case (do_check q)
  then show ?case by (cases "elems q") (auto simp: punctual_def queue_defs Remove_front_def)
qed (auto simp: punctual_def queue_defs)

lemma queue_step_punctual: "queue_step q q' \<Longrightarrow> punctual q \<Longrightarrow> punctual q'"
  by (induction rule: queue_step.induct)
    (fastforce intro: pop_step_punctual simp: queue_defs punctual_def in_order_insert)+

lemma deadline_bound: "c + Sub t c \<le> max t c"
  by (auto simp: Sub_def max_duration_def max_def min_def)

lemma pop_step_awake: "pop_step q q' \<Longrightarrow> awake q \<Longrightarrow> awake q'"
proof (induction rule: pop_step.induct)
  case (do_compute q)
  then show ?case using deadline_bound by (auto simp: awake_def pop_compute_def pop_delay_def)
next
  case (do_check q)
  then show ?case by (auto simp: awake_def pop_check_def split: option.splits)
qed (auto simp: awake_def Insert_recheck_def)

lemma queue_step_awake: "queue_step q q' \<Longrightarrow> awake q \<Longrightarrow> awake q'"
proof (induction rule: queue_step.induct)
  case (goroutine q q')
  then show ?case by (rule pop_step_awake)
next
  case (tick q t)
  then show ?case by (fastforce simp: awake_def)
qed (auto simp: queue_defs awake_def)

lemma queue_reachable_inv:
  "queue_reachable q \<Longrightarrow> accounted q \<and> punctual q \<and> awake q"
proof (induction rule: queue_reachable.induct)
  case (queue_init t)
  show ?case by (simp add: newMsgQueue_def accounted_def punctual_def awake_def)
next
  case (queue_next q q')
  then show ?case by (blast intro: queue_step_accounted queue_step_punctual queue_step_awake)
qed

section \<open>What the queue promises\<close>

lemma fold_insert:
  assumes "in_order q"
  shows "in_order (fold insert_elem es q) \<and> mset (fold insert_elem es q) = mset es + mset q
    \<and> at_time t (fold insert_elem es q) = at_time t q @ at_time t es"
  using assms
proof (induction es arbitrary: q)
  case (Cons e es)
  from Cons.IH [OF in_order_insert [OF Cons.prems, of e]] show ?case
    by (auto simp: at_time_insert [OF Cons.prems]) (auto simp: at_time_def)
qed (simp add: at_time_def)

text \<open>
  C20: inserting any sequence of elements and taking them off the front yields a
  permutation of the sequence, ordered by time, in which elements scheduled for the same
  time keep the order of their insertion.
\<close>

theorem Insert_sorts_stably:
  fixes es :: "msgQueueElement list"
  defines "out \<equiv> drain Front Remove_front (length es) (fold insert_elem es [])"
  shows "mset out = mset es \<and> sorted (map q_t out) \<and> (\<forall>t. at_time t out = at_time t es)"
proof -
  let ?q = "fold insert_elem es []"
  have q: "in_order ?q" "mset ?q = mset es" "at_time t ?q = at_time t es" for t
    using fold_insert [of "[]" es t] by (auto simp: at_time_def)
  have out: "mset out = mset es" "sorted (map q_t out)"
    using mq.drain_all(1,2) [OF q(1)] q(2) unfolding out_def by (auto simp: size_mset [symmetric] simp del: size_mset)
  have "at_time t out = take (length (at_time t out)) (at_time t es)" for t
    using mq.drain_fifo [OF q(1), of t "length es"] unfolding at_time_def [symmetric] q(3) out_def .
  moreover have "length (at_time t out) = length (at_time t es)" for t
    using arg_cong [OF out(1), of "\<lambda>M. size (filter_mset (\<lambda>e. q_t e = t) M)"]
    by (simp add: at_time_def flip: mset_filter)
  ultimately show ?thesis using out by (metis take_all order_refl)
qed

text \<open>
  C18: in every interleaving no element is lost or duplicated while the context lives, and
  no element is handed out before its scheduled time has passed.
\<close>

theorem MsgQueue_conserves:
  assumes "queue_reachable q" and "\<not> cancelled q"
  shows "inserted q = mset (elems q) + in_hand (pc q) + mset (map snd (sent q))
    \<and> (\<forall>(t, e) \<in> set (sent q). q_t e < t) \<and> in_order (elems q)"
  using queue_reachable_inv [OF assms(1)] assms(2) by (auto simp: accounted_def punctual_def)

definition ex_queue :: MsgQueue where
  "ex_queue = Pop (Insert 3 ''a'' (Insert 7 ''b'' (newMsgQueue 0)))"

lemma ex_queue_reachable: "queue_reachable (ex_queue\<lparr>clk := 5\<rparr>)"
proof -
  have "queue_reachable ex_queue" unfolding ex_queue_def by (intro queue_next [OF _ do_pop] queue_next [OF _ do_insert] queue_init)
  moreover have "queue_step ex_queue (ex_queue\<lparr>clk := 5\<rparr>)"
    by (rule tick) (simp add: ex_queue_def queue_defs newMsgQueue_def)
  ultimately show ?thesis by (rule queue_next)
qed

lemma ex_queue_simps: "pc ex_queue = Compute" "notify ex_queue = 2" "cancelled ex_queue = False"
  "elems ex_queue = [\<lparr>q_t = 3, q_msgId = ''a''\<rparr>, \<lparr>q_t = 7, q_msgId = ''b''\<rparr>]"
  "inserted ex_queue = {#\<lparr>q_t = 3, q_msgId = ''a''\<rparr>, \<lparr>q_t = 7, q_msgId = ''b''\<rparr>#}"
  by (simp_all add: ex_queue_def queue_defs newMsgQueue_def)

theorem MsgQueue_conserves_witness:
  "inserted (ex_queue\<lparr>clk := 5\<rparr>) = {#\<lparr>q_t = 3, q_msgId = ''a''\<rparr>, \<lparr>q_t = 7, q_msgId = ''b''\<rparr>#}
     \<and> mset (elems ex_queue) + in_hand (pc ex_queue) + mset (map snd (sent ex_queue)) = inserted ex_queue"
  using MsgQueue_conserves [OF ex_queue_reachable] by (simp add: ex_queue_simps)

lemma due_delivered:
  assumes "pc q = Check" and "Front (elems q) = Some e" and "q_t e < clk q"
  shows "\<exists>q'. pop_step\<^sup>*\<^sup>* q q' \<and> (clk q, e) \<in> set (sent q') \<and> clk q' = clk q"
proof -
  have "pop_step q (pop_check q)" by (rule do_check [OF assms(1)])
  moreover have "pc (pop_check q) = Send e" "clk (pop_check q) = clk q"
    using assms by (auto simp: pop_check_def)
  ultimately have "pop_step\<^sup>*\<^sup>* q ((pop_check q)\<lparr>pc := Compute, sent := sent (pop_check q) @ [(clk q, e)]\<rparr>)"
    using deliver [of "pop_check q" e] by (metis (no_types) converse_rtranclp_into_rtranclp r_into_rtranclp)
  with \<open>clk (pop_check q) = clk q\<close> show ?thesis by force
qed

lemma due_compute:
  assumes "pc q = Compute" and "Front (elems q) = Some e" and "q_t e < clk q"
  shows "\<exists>q'. pop_step\<^sup>*\<^sup>* q q' \<and> (clk q, e) \<in> set (sent q') \<and> clk q' = clk q"
proof -
  let ?q1 = "pop_compute q" and ?q2 = "(pop_compute q)\<lparr>pc := Check\<rparr>"
  have "clk q + pop_delay q \<le> clk q"
    using deadline_bound [of "clk q" "q_t e"] assms(2,3) by (simp add: pop_delay_def)
  then have "pop_step ?q1 ?q2" by (intro timeout) (auto simp: pop_compute_def)
  with do_compute [OF assms(1)] have "pop_step\<^sup>*\<^sup>* q ?q2" by (metis converse_rtranclp_into_rtranclp r_into_rtranclp)
  moreover obtain q' where "pop_step\<^sup>*\<^sup>* ?q2 q'" "(clk q, e) \<in> set (sent q')" "clk q' = clk q"
    using due_delivered [of ?q2 e] assms by (auto simp: pop_compute_def)
  ultimately show ?thesis by (metis rtranclp_trans)
qed

text \<open>
  C19: there is no lost wake-up: whenever the front element is due and the reader is
  there, the goroutine reaches its delivery without any further insert or passage of time.
\<close>

theorem MsgQueue_no_lost_wakeup:
  assumes "queue_reachable q" and "pc q \<notin> {NoReader, Stopped}"
    and "Front (elems q) = Some e" and "q_t e < clk q"
  shows "\<exists>q'. pop_step\<^sup>*\<^sup>* q q' \<and> (clk q, e) \<in> set (sent q')"
proof (cases "pc q")
  case Compute
  then show ?thesis using due_compute assms by blast
next
  case (Wait d)
  have "d \<le> clk q \<or> recheck q \<or> 0 < notify q"
    using queue_reachable_inv [OF assms(1)] Wait assms(3,4) by (fastforce simp: awake_def)
  then obtain q1 where "pop_step\<^sup>*\<^sup>* q q1" "pc q1 = Check" "elems q1 = elems q" "clk q1 = clk q"
  proof (elim disjE)
    assume "d \<le> clk q"
    from that [OF r_into_rtranclp [of pop_step, OF timeout [OF Wait this]]] show thesis by simp
  next
    assume "recheck q"
    from that [OF r_into_rtranclp [of pop_step, OF rechecked [OF Wait this]]] show thesis by simp
  next
    assume "0 < notify q"
    then have "pop_step q (Insert_recheck q)" by (rule do_notify)
    moreover have "pop_step (Insert_recheck q) ((Insert_recheck q)\<lparr>pc := Check, recheck := False\<rparr>)"
      by (rule rechecked) (auto simp: Insert_recheck_def Wait)
    ultimately have "pop_step\<^sup>*\<^sup>* q ((Insert_recheck q)\<lparr>pc := Check, recheck := False\<rparr>)"
      by (metis converse_rtranclp_into_rtranclp r_into_rtranclp)
    from that [OF this] show thesis by (simp add: Insert_recheck_def)
  qed
  then show ?thesis using due_delivered [of q1 e] assms(3,4) by (metis rtranclp_trans)
next
  case Check
  then show ?thesis using due_delivered assms by blast
next
  case (Send x)
  let ?q1 = "q\<lparr>pc := Compute, sent := sent q @ [(clk q, x)]\<rparr>"
  obtain q' where "pop_step\<^sup>*\<^sup>* ?q1 q'" "(clk q, e) \<in> set (sent q')"
    using due_compute [of ?q1 e] assms(3,4) by auto
  then show ?thesis using deliver [OF Send] by (metis converse_rtranclp_into_rtranclp)
qed (use assms(2) in auto)

theorem MsgQueue_no_lost_wakeup_witness:
  "\<exists>q'. pop_step\<^sup>*\<^sup>* (ex_queue\<lparr>clk := 5\<rparr>) q' \<and> (5, \<lparr>q_t = 3, q_msgId = ''a''\<rparr>) \<in> set (sent q')"
  using MsgQueue_no_lost_wakeup [OF ex_queue_reachable, of "\<lparr>q_t = 3, q_msgId = ''a''\<rparr>"]
  by (simp add: ex_queue_simps)

end
