(* ===== verification/Peer.thy ===== *)
theory Peer
  imports Messenger Backoff MsgQueue "HOL-Library.Monad_Syntax"
begin

text \<open>
  A peer of a node (\<^verbatim>\<open>src/internal/peers.go\<close>): the loop that takes message identifiers
  from the queue, pushes the messages to the peer and classifies the outcome, the push with
  its resumption, the subscription to new messages, and the initial exchange of manifests.

  The remote procedure calls go through a record \<open>remote\<close> of functions on the state of
  whatever is at the other end; \<open>node_remote\<close> puts the service of \<^verbatim>\<open>Messenger\<close> there.
\<close>

section \<open>The peer\<close>

record peer =
  localId :: string
  peerId :: string
  p_store :: storage
  p_params :: Params
  queue :: "msgQueueElement list"
  p_counters :: Counters
  p_errors :: counter

definition checkHops :: "peer \<Rightarrow> message \<Rightarrow> err option" where
  "checkHops p msg =
     (if peerId p \<in> set (Hops msg) then Some (ErrAlreadySeen (Id msg))
      else if MaxHops (p_params p) > 0 \<and> int (length (Hops msg)) \<ge> MaxHops (p_params p)
      then Some (ErrTooManyHops (MaxHops (p_params p)))
      else None)"

definition enqueue :: "time \<Rightarrow> string \<Rightarrow> peer \<Rightarrow> peer" where
  "enqueue t msgId p = p\<lparr>queue := insert_elem \<lparr>q_t = t, q_msgId = msgId\<rparr> (queue p)\<rparr>"

text \<open>One message received by \<open>subLoop\<close>.\<close>

definition sub_recv :: "message \<Rightarrow> peer \<Rightarrow> peer" where
  "sub_recv msg p = (if checkHops p msg \<noteq> None then p else enqueue (CreationTime msg) (Id msg) p)"

section \<open>Pushing a message\<close>

text \<open>
  How a streaming call ends for the client: the call could not be started, the send number
  \<open>k\<close> failed, or it was finished with the error of the server.
\<close>

datatype push_outcome = CallFailed err | SendFailed nat err | Finished "err option"

record 'r remote =
  rpc_push :: "'r \<Rightarrow> message \<Rightarrow> int64 \<Rightarrow> bytes list \<Rightarrow> bool \<Rightarrow> 'r \<times> push_outcome"
  rpc_offset :: "'r \<Rightarrow> message \<Rightarrow> 'r \<times> (err + int64)"

record 'r push_state =
  far :: 'r
  rdr :: reader
  bytes_sent :: counter

definition advance :: "bytes list \<Rightarrow> reader \<Rightarrow> reader" where
  "advance ps r = r\<lparr>r_pos := r_pos r + length (concat ps)\<rparr>"

definition count_sent :: "time \<Rightarrow> bytes list \<Rightarrow> counter \<Rightarrow> counter" where
  "count_sent t ps c = fold (\<lambda>p. Incr t (int (length p))) ps c"

text \<open>
  \<open>doPush\<close>: the packets it sends are the pieces the reader returns; when a local read
  fails after \<open>short\<close> pieces the call is left unfinished.
\<close>

definition doPush :: "'r remote \<Rightarrow> env \<Rightarrow> storage \<Rightarrow> message \<Rightarrow> int64 \<Rightarrow> 'r push_state \<Rightarrow> 'r push_state \<times> err option" where
  "doPush N e s msg offset x =
     (let failed = fails e (SysRead contentFileName);
          all = chunks 2048 (read_rest s (rdr x));
          cs = (if failed then take (short e) all else all)
      in case rpc_push N (far x) msg offset cs (\<not> failed) of
           (R, CallFailed er) \<Rightarrow> (x\<lparr>far := R\<rparr>, Some er)
         | (R, SendFailed k er) \<Rightarrow>
             (x\<lparr>far := R, rdr := advance (take (Suc k) cs) (rdr x),
                bytes_sent := count_sent (now e) (take k cs) (bytes_sent x)\<rparr>, Some er)
         | (R, Finished er) \<Rightarrow>
             (x\<lparr>far := R, rdr := advance cs (rdr x), bytes_sent := count_sent (now e) cs (bytes_sent x)\<rparr>,
              if failed then Some (ErrOS ''read'') else er))"

text \<open>The closure \<open>fOffset\<close>: the offset is assigned even when the call fails.\<close>

definition fOffset :: "'r remote \<Rightarrow> message \<Rightarrow> 'r push_state \<times> int64 \<Rightarrow> ('r push_state \<times> int64) \<times> err option" where
  "fOffset N msg x =
     (case rpc_offset N (far (fst x)) msg of
        (R, Inl er) \<Rightarrow> (((fst x)\<lparr>far := R\<rparr>, 0), Some er)
      | (R, Inr off) \<Rightarrow> (((fst x)\<lparr>far := R\<rparr>, off), None))"

definition incorrect_offset :: "err option \<Rightarrow> bool" where
  "incorrect_offset er \<longleftrightarrow> ErrorID er = IdIfc ''messenger/ifc.IncorrectOffset''"

partial_function (option) push_loop ::
  "'r remote \<Rightarrow> (verror_id \<Rightarrow> action) \<Rightarrow> env \<Rightarrow> storage \<Rightarrow> message \<Rightarrow> int64 \<Rightarrow> 'r push_state \<Rightarrow>
    ('r push_state \<times> err option) option"
where
  "push_loop N va e s msg offset x =
     do {
       y \<leftarrow> backoff va (\<lambda>n. doPush N e s msg offset) 0 x;
       if incorrect_offset (snd y) then
         do {
           z \<leftarrow> backoff va (\<lambda>n. fOffset N msg) 0 (fst y, offset);
           if snd z \<noteq> None then Some (fst (fst z), snd z)
           else case Seek (rdr (fst (fst z))) (snd (fst z)) of
             Inl er \<Rightarrow> Some (fst (fst z), Some er)
           | Inr r \<Rightarrow> push_loop N va e s msg (snd (fst z)) ((fst (fst z))\<lparr>rdr := r\<rparr>)
         }
       else Some y
     }"

definition set_bytes_sent :: "counter \<Rightarrow> peer \<Rightarrow> peer" where
  "set_bytes_sent b p = p\<lparr>p_counters := (p_counters p)\<lparr>numBytesSent := b\<rparr>\<rparr>"

definition pushMessage :: "codec \<Rightarrow> lib \<Rightarrow> env \<Rightarrow> 'r remote \<Rightarrow> peer \<Rightarrow> 'r \<Rightarrow> string \<Rightarrow> (peer \<times> 'r \<times> err option) option" where
  "pushMessage v L e N p R msgId =
     (case OpenRead v e (p_store p) msgId of
        (s, Inl er) \<Rightarrow> Some (p\<lparr>p_store := s\<rparr>, R, Some er)
      | (s, Inr (msg, r)) \<Rightarrow>
          (case Expired (now e) msg of
             Some er \<Rightarrow> Some (p\<lparr>p_store := s\<rparr>, R, Some er)
           | None \<Rightarrow>
               do {
                 x \<leftarrow> push_loop N (verror_action L) e s (msg\<lparr>Hops := Hops msg @ [localId p]\<rparr>) 0
                   \<lparr>far = R, rdr = r, bytes_sent = numBytesSent (p_counters p)\<rparr>;
                 Some (set_bytes_sent (bytes_sent (fst x)) (p\<lparr>p_store := s\<rparr>), far (fst x), snd x)
               }))"

section \<open>The outcome of a push\<close>

definition fatal_ids :: "err_id set" where
  "fatal_ids = IdIfc ` {''messenger/ifc.ContentMismatch'', ''messenger/ifc.Expired'', ''messenger/ifc.InvalidSignature'',
       ''messenger/ifc.MessageIdCollision'', ''messenger/ifc.NoRoute'', ''messenger/ifc.TooManyHops'', ''messenger/ifc.TooBig''}
     \<union> IdVerror ` {NoPermissions, UnknownMethod, BadArg, NoAccess, NotTrusted, NoExist}"

text \<open>\<open>int32\<close> increment and the conversion \<open>uint(n)\<close>.\<close>

definition inc32 :: "int \<Rightarrow> int" where
  "inc32 n = (n + 1 + 2 ^ 31) mod 2 ^ 32 - 2 ^ 31"

definition to_uint :: "int \<Rightarrow> nat" where
  "to_uint n = nat (n mod 2 ^ 64)"

definition push_result :: "env \<Rightarrow> nat \<Rightarrow> err option \<Rightarrow> string \<Rightarrow> PeerInfo \<Rightarrow> peer \<Rightarrow> peer \<times> PeerInfo" where
  "push_result e rnd er msgId info p =
     (if er = None then
        (p\<lparr>p_counters := (p_counters p)\<lparr>numMessagesSent := Incr (now e) 1 (numMessagesSent (p_counters p))\<rparr>\<rparr>,
         info\<lparr>Sent := True\<rparr>)
      else if ErrorID er = IdIfc ''messenger/ifc.AlreadySeen'' then (p, info\<lparr>Sent := True\<rparr>)
      else if ErrorID er \<in> fatal_ids then (p, info\<lparr>FatalError := True\<rparr>)
      else let t = now e + retry_delay rnd (to_uint (NumAttempts info))
           in (enqueue t msgId p, info\<lparr>NextAttempt := t\<rparr>))"

definition count_error :: "env \<Rightarrow> PeerInfo \<Rightarrow> peer \<Rightarrow> peer" where
  "count_error e info p =
     (if FatalError info \<or> NumAttempts info > 2 then p\<lparr>p_errors := Incr (now e) 1 (p_errors p)\<rparr> else p)"

text \<open>One round of \<open>msgLoop\<close> with the identifier it took from the queue.\<close>

definition msg_round :: "codec \<Rightarrow> lib \<Rightarrow> env \<Rightarrow> nat \<Rightarrow> 'r remote \<Rightarrow> peer \<Rightarrow> 'r \<Rightarrow> string \<Rightarrow> (peer \<times> 'r) option" where
  "msg_round v L e rnd N p R msgId =
     (let info = getPeerInfo v e (p_store p) msgId (peerId p)
      in if Sent info \<or> FatalError info then Some (p, R)
         else if now e < NextAttempt info then Some (enqueue (NextAttempt info) msgId p, R)
         else do {
           x \<leftarrow> pushMessage v L e N p R msgId;
           let y = push_result e rnd (snd (snd x)) msgId (info\<lparr>NumAttempts := inc32 (NumAttempts info)\<rparr>) (fst x);
               q = count_error e (snd y) (fst y)
           in Some (q\<lparr>p_store := fst (SetPeerInfo v e (p_store q) msgId (peerId q) (snd y))\<rparr>, fst (snd x))
         })"

section \<open>Hops\<close>

text \<open>
  A message that passes \<open>checkHops\<close> has not been at the peer and, once this node has
  added its own identifier, passes the hop check of a peer with the same limit; what
  \<open>subLoop\<close> queues is exactly the messages that pass.
\<close>

theorem checkHops_room:
  "(checkHops p msg = None) =
     (peerId p \<notin> set (Hops msg)
      \<and> \<not> (MaxHops (p_params p) > 0 \<and> int (length (Hops msg @ [localId p])) > MaxHops (p_params p)))
   \<and> mset (queue (sub_recv msg p)) = mset (queue p)
       + (if checkHops p msg = None then {#\<lparr>q_t = CreationTime msg, q_msgId = Id msg\<rparr>#} else {#})"
  by (auto simp: checkHops_def sub_recv_def enqueue_def)

section \<open>No message is forgotten\<close>

lemma OpenRead_store:
  "OpenRead v e s mid = (s', r) \<Longrightarrow> fs_wf (st_fs s) \<Longrightarrow> fs_wf (st_fs s') \<and> (is_dir (st_fs s) d \<longrightarrow> is_dir (st_fs s') d)"
  by (auto simp: OpenRead_def split: if_splits sum.splits dest: fs_create_wf(1,4))

lemma pushMessage_store:
  assumes "pushMessage v L e N p R msgId = Some (p', R', er)" and "fs_wf (st_fs (p_store p))"
  shows "fs_wf (st_fs (p_store p')) \<and> (is_dir (st_fs (p_store p)) d \<longrightarrow> is_dir (st_fs (p_store p')) d)
    \<and> queue p' = queue p \<and> peerId p' = peerId p \<and> localId p' = localId p \<and> p_params p' = p_params p
    \<and> p_errors p' = p_errors p"
proof -
  obtain s r where o: "OpenRead v e (p_store p) msgId = (s, r)" by force
  show ?thesis using assms(1) o OpenRead_store [OF o assms(2), of d]
    by (auto simp: pushMessage_def set_bytes_sent_def Option.bind_eq_Some_conv split: sum.splits option.splits)
qed

lemma push_result_cases:
  assumes "push_result e rnd er msgId info p = (p', info')"
  shows "(Sent info' \<or> FatalError info') \<or> (NextAttempt info' = now e + retry_delay rnd (to_uint (NumAttempts info))
      \<and> \<lparr>q_t = NextAttempt info', q_msgId = msgId\<rparr> \<in> set (queue p'))"
    and "p_store p' = p_store p \<and> peerId p' = peerId p \<and> set (queue p) \<subseteq> set (queue p')"
  using assms by (auto simp: push_result_def enqueue_def Let_def split: if_splits)

text \<open>
  C16: a round of the loop that takes an identifier from the queue never forgets the
  message: afterwards the stored record of the peer says that the message was sent or can
  not be sent, or the identifier is in the queue again, at the time of the next attempt.
  Nothing else leaves the queue.
\<close>

theorem msg_round_keeps:
  assumes "msg_round v L e rnd N p R msgId = Some (p', R')" and "codec_ok v" and "quiet e"
    and "fs_wf (st_fs (p_store p))" and "is_dir (st_fs (p_store p)) (messageDir msgId)" and "msgId \<noteq> ''''"
  shows "set (queue p) \<subseteq> set (queue p')
    \<and> (let info = getPeerInfo v e (p_store p') msgId (peerId p)
       in Sent info \<or> FatalError info \<or> \<lparr>q_t = NextAttempt info, q_msgId = msgId\<rparr> \<in> set (queue p'))"
proof -
  let ?i = "getPeerInfo v e (p_store p) msgId (peerId p)"
  show ?thesis
  proof (cases "Sent ?i \<or> FatalError ?i \<or> now e < NextAttempt ?i")
    case True
    then show ?thesis using assms(1) by (auto simp: msg_round_def enqueue_def Let_def split: if_splits)
  next
    case False
    then obtain p1 R1 er where pm: "pushMessage v L e N p R msgId = Some (p1, R1, er)"
      using assms(1) by (auto simp: msg_round_def Let_def Option.bind_eq_Some_conv)
    obtain p2 i2 where pr: "push_result e rnd er msgId (?i\<lparr>NumAttempts := inc32 (NumAttempts ?i)\<rparr>) p1 = (p2, i2)" by force
    let ?q = "count_error e i2 p2"
    have q: "p_store ?q = p_store p2" "peerId ?q = peerId p2" "queue ?q = queue p2" by (simp_all add: count_error_def)
    note st = pushMessage_store [OF pm assms(4), of "messageDir msgId"] and rc = push_result_cases [OF pr]
    have p': "p' = ?q\<lparr>p_store := fst (SetPeerInfo v e (p_store ?q) msgId (peerId ?q) i2)\<rparr>"
      using assms(1) False pm pr by (simp add: msg_round_def Let_def)
    have d: "is_dir (st_fs (p_store ?q)) (messageDir msgId)" "fs_wf (st_fs (p_store ?q))" "peerId ?q = peerId p"
      using st rc q assms(5) by auto
    obtain s' where sp: "SetPeerInfo v e (p_store ?q) msgId (peerId p) i2 = (s', None)"
      using quiet_create [OF assms(3) d(1), of "peerFile (peerId p)"] assms(3,6) by (auto simp: SetPeerInfo_def quiet_def)
    have "getPeerInfo v e s' msgId (peerId p) = i2"
      by (rule PeerInfo_get_set [OF assms(2) d(2) sp assms(3)])
    with p' sp d(3) q st rc show ?thesis by (auto simp: Let_def)
  qed
qed

section \<open>Pushing to another node\<close>

text \<open>The service of a node, in the environment \<open>e\<close>, as the far end of the calls.\<close>

definition node_remote :: "codec \<Rightarrow> lib \<Rightarrow> env \<Rightarrow> sec_call \<Rightarrow> Messenger remote" where
  "node_remote v L e call =
     \<lparr>rpc_push = (\<lambda>M msg off cs fin.
        (case Push v L e (\<lambda>_. e) e M call msg off cs (if fin then None else Some (ErrVerror Canceled)) of
           (M, er) \<Rightarrow> (M, Finished er))),
      rpc_offset = (\<lambda>M msg. ResumeOffset L e M call msg)\<rparr>"

lemma count_sent_Value: "Value (count_sent t ps h) = Value h + int (length (concat ps))"
  by (induction ps arbitrary: h) (simp_all add: count_sent_def)

lemma backoff_once: "Action va (snd (f 0 s)) \<noteq> RetryBackoff \<Longrightarrow> backoff va f 0 s = Some (f 0 s)"
  by (subst backoff.simps) (simp add: Let_def)

lemma push_loop_done:
  assumes "doPush N e s msg offset x = (y, er)" and "Action va er \<noteq> RetryBackoff" and "\<not> incorrect_offset er"
  shows "push_loop N va e s msg offset x = Some (y, er)"
  using assms by (subst push_loop.simps) (simp add: backoff_once)

lemma push_loop_resume:
  assumes "doPush N e s msg offset x = (y, Some (ErrIncorrectOffset a b))"
    and "rpc_offset N (far y) msg = (R, Inr off)" and "0 \<le> off"
  shows "push_loop N va e s msg offset x =
    push_loop N va e s msg off (y\<lparr>far := R, rdr := (rdr y)\<lparr>r_pos := nat off\<rparr>\<rparr>)"
proof -
  have "backoff va (\<lambda>n. doPush N e s msg offset) 0 x = Some (y, Some (ErrIncorrectOffset a b))"
    using backoff_once [of va "\<lambda>n. doPush N e s msg offset" x] assms(1) by simp
  moreover have "backoff va (\<lambda>n. fOffset N msg) 0 (y, offset) = Some ((y\<lparr>far := R\<rparr>, off), None)"
    using backoff_once [of va "\<lambda>n. fOffset N msg" "(y, offset)"] assms(2) by (simp add: fOffset_def)
  ultimately show ?thesis
    using assms(3) by (subst push_loop.simps) (simp add: incorrect_offset_def Seek_def)
qed

lemma doPush_finished:
  assumes "quiet e" and "rpc_push N (far x) msg offset (chunks 2048 (read_rest s (rdr x))) True = (R, Finished er)"
  shows "doPush N e s msg offset x =
    (x\<lparr>far := R, rdr := advance (chunks 2048 (read_rest s (rdr x))) (rdr x),
       bytes_sent := count_sent (now e) (chunks 2048 (read_rest s (rdr x))) (bytes_sent x)\<rparr>, er)"
  using assms by (simp add: doPush_def quiet_def Let_def)

text \<open>
  What \<open>pushMessage\<close> relies on at the far end.  \<open>accepts\<close> and \<open>answers\<close> say that the
  far end lets the next call of \<open>Push\<close> and of \<open>ResumeOffset\<close> through, \<open>holds R m m0 b\<close>
  that it holds the prefix \<open>b\<close> of the content of \<open>m\<close>, with the metadata \<open>m0\<close>, \<open>stored\<close>
  that it has all of it, and \<open>announced\<close> what it has told its subscribers.
\<close>

locale push_target =
  fixes N :: "'r remote"
    and accepts :: "'r \<Rightarrow> message \<Rightarrow> bool"
    and answers :: "'r \<Rightarrow> message \<Rightarrow> bool"
    and holds :: "'r \<Rightarrow> message \<Rightarrow> message \<Rightarrow> bytes \<Rightarrow> bool"
    and stored :: "'r \<Rightarrow> message \<Rightarrow> message \<Rightarrow> bytes \<Rightarrow> bool"
    and announced :: "'r \<Rightarrow> message list option"
  assumes push_rest: "accepts R m \<Longrightarrow> holds R m m0 b \<Longrightarrow> int (length (b @ concat cs)) = Length m \<Longrightarrow>
      sha256 (b @ concat cs) = Sha256 m \<Longrightarrow>
      \<exists>R'. rpc_push N R m (int (length b)) cs True = (R', Finished None) \<and> stored R' m m0 (b @ concat cs)
        \<and> announced R' = map_option (\<lambda>ms. ms @ [m]) (announced R)"
    and push_elsewhere: "accepts R m \<Longrightarrow> holds R m m0 b \<Longrightarrow> b \<noteq> [] \<Longrightarrow> off \<noteq> int (length b) \<Longrightarrow>
      \<exists>R'. rpc_push N R m off cs True = (R', Finished (Some (ErrIncorrectOffset off (int (length b)))))
        \<and> holds R' m m0 b \<and> announced R' = announced R"
    and offset_of: "answers R m \<Longrightarrow> holds R m m0 b \<Longrightarrow>
      \<exists>R'. rpc_offset N R m = (R', Inr (int (length b))) \<and> holds R' m m0 b \<and> announced R' = announced R"
begin

lemma sends_rest:
  assumes "quiet e" and "accepts (far x) m" and "holds (far x) m m0 b" and "prefix b content"
    and "read_rest s (rdr x) = drop (length b) content"
    and "int (length content) = Length m" and "sha256 content = Sha256 m"
  shows "\<exists>y. push_loop N va e s m (int (length b)) x = Some (y, None) \<and> stored (far y) m m0 content
    \<and> announced (far y) = map_option (\<lambda>ms. ms @ [m]) (announced (far x))
    \<and> Value (bytes_sent y) = Value (bytes_sent x) + (Length m - int (length b))
    \<and> (\<exists>cs. rpc_push N (far x) m (int (length b)) cs True = (far y, Finished None))"
proof -
  let ?cs = "chunks 2048 (read_rest s (rdr x))"
  have c: "b @ concat ?cs = content" "int (length (concat ?cs)) = Length m - int (length b)"
    using assms(4-6) by (auto simp: prefix_def)
  obtain R where R: "rpc_push N (far x) m (int (length b)) ?cs True = (R, Finished None)" "stored R m m0 content"
    "announced R = map_option (\<lambda>ms. ms @ [m]) (announced (far x))"
    using push_rest [OF assms(2,3), of ?cs] c assms(6,7) by auto
  from push_loop_done [OF doPush_finished [OF assms(1) R(1)], of va] R c(2) show ?thesis
    by (auto simp: incorrect_offset_def count_sent_Value)
qed

lemma resumes:
  assumes "quiet e" and "accepts (far x) m" and "holds (far x) m m0 b" and "b \<noteq> []" and "prefix b content"
    and "\<And>k. read_rest s ((rdr x)\<lparr>r_pos := k\<rparr>) = drop k content" and "r_pos (rdr x) = 0"
    and "int (length content) = Length m" and "sha256 content = Sha256 m"
    and "rpc_push N (far x) m 0 (chunks 2048 content) True = (R1, o1)" and "answers R1 m"
    and "rpc_offset N R1 m = (R2, o2)" and "accepts R2 m"
  shows "\<exists>y. push_loop N va e s m 0 x = Some (y, None) \<and> stored (far y) m m0 content
    \<and> announced (far y) = map_option (\<lambda>ms. ms @ [m]) (announced (far x))
    \<and> (\<exists>cs. rpc_push N R2 m (int (length b)) cs True = (far y, Finished None))"
proof -
  have "rdr x = (rdr x)\<lparr>r_pos := 0\<rparr>" using assms(7) by simp
  then have rd: "read_rest s (rdr x) = content" using assms(6) [of 0] by simp
  have R1: "o1 = Finished (Some (ErrIncorrectOffset 0 (int (length b))))" "holds R1 m m0 b" "announced R1 = announced (far x)"
    using push_elsewhere [OF assms(2-4), of 0 "chunks 2048 content"] assms(4,10) by auto
  have R2: "o2 = Inr (int (length b))" "holds R2 m m0 b" "announced R2 = announced (far x)"
    using offset_of [OF assms(11) R1(2)] assms(12) R1(3) by auto
  define y where "y = x\<lparr>far := R1, rdr := advance (chunks 2048 content) (rdr x),
      bytes_sent := count_sent (now e) (chunks 2048 content) (bytes_sent x)\<rparr>"
  define z where "z = y\<lparr>far := R2, rdr := (rdr y)\<lparr>r_pos := length b\<rparr>\<rparr>"
  have "doPush N e s m 0 x = (y, Some (ErrIncorrectOffset 0 (int (length b))))"
    using doPush_finished [OF assms(1), of N x m 0 s] rd assms(10) R1(1) by (simp add: y_def)
  then have "push_loop N va e s m 0 x = push_loop N va e s m (int (length b)) z"
    using push_loop_resume [of N e s m 0 x y 0 "int (length b)" R2 "int (length b)" va] assms(12) R2(1)
    by (simp add: z_def) (simp add: y_def)
  moreover have "far z = R2" "read_rest s (rdr z) = drop (length b) content"
    using assms(6) [of "length b"] by (simp_all add: z_def y_def advance_def)
  ultimately show ?thesis
    using sends_rest [OF assms(1), of z m m0 b content s va] assms(5,8,9,13) R2(2,3) by auto
qed

end

text \<open>What it takes for a peer to have a message to push.\<close>

definition has_message :: "codec \<Rightarrow> env \<Rightarrow> peer \<Rightarrow> message \<Rightarrow> bytes \<Rightarrow> bool" where
  "has_message v e p msg content \<longleftrightarrow> fs_idle v e (p_store p) (Id msg)
     \<and> fs_view v (p_store p) (Id msg) = Complete msg content
     \<and> int (length content) = Length msg \<and> sha256 content = Sha256 msg \<and> Expired (now e) msg = None"

definition with_hop :: "peer \<Rightarrow> message \<Rightarrow> message" where
  "with_hop p msg = msg\<lparr>Hops := Hops msg @ [localId p]\<rparr>"

lemma with_hop_simps [simp]: "Id (with_hop p msg) = Id msg" "Hash (with_hop p msg) = Hash msg"
  "Length (with_hop p msg) = Length msg" "Sha256 (with_hop p msg) = Sha256 msg"
  by (simp_all add: with_hop_def)

lemma has_message_read:
  assumes "has_message v e p msg content"
  obtains i where "OpenRead v e (p_store p) (Id msg) = (p_store p, Inr (msg, \<lparr>r_f = i, r_pos = 0\<rparr>))"
    and "\<And>k. read_rest (p_store p) \<lparr>r_f = i, r_pos = k\<rparr> = drop k content"
proof -
  obtain s r where o: "OpenRead v e (p_store p) (Id msg) = (s, Inr (msg, r))" "read_rest s r = content"
    using fs_read_back [of v e "p_store p" "Id msg" msg content] assms by (auto simp: has_message_def)
  have "fs_find (st_fs (p_store p)) (messageDir (Id msg)) contentFileName \<noteq> None"
    using assms by (auto simp: has_message_def fs_view_simps fs_read_def)
  then have s: "s = p_store p"
    using o(1) by (auto simp: OpenRead_def split: if_splits sum.splits elim!: fs_create_Inr)
  have "r_pos r = 0" using o(1) by (auto simp: OpenRead_def split: if_splits sum.splits)
  then have "r = \<lparr>r_f = r_f r, r_pos = 0\<rparr>" "\<And>k. read_rest s \<lparr>r_f = r_f r, r_pos = k\<rparr> = drop k content"
    using o(2) by (cases r, auto simp: read_rest_def)
  with o(1) s that show thesis by metis
qed

lemma pushMessage_loop:
  assumes "has_message v e p msg content"
    and "OpenRead v e (p_store p) (Id msg) = (p_store p, Inr (msg, r))"
    and "push_loop N (verror_action L) e (p_store p) (with_hop p msg) 0
      \<lparr>far = R, rdr = r, bytes_sent = numBytesSent (p_counters p)\<rparr> = Some (x, er)"
  shows "pushMessage v L e N p R (Id msg) = Some (set_bytes_sent (bytes_sent x) p, far x, er)"
  using assms by (simp add: pushMessage_def has_message_def with_hop_def)

context push_target
begin

lemma delivers:
  assumes "has_message v e p msg content" and "accepts R (with_hop p msg)" and "holds R (with_hop p msg) m0 []"
  shows "\<exists>R' h cs. pushMessage v L e N p R (Id msg) = Some (set_bytes_sent h p, R', None)
    \<and> stored R' (with_hop p msg) m0 content
    \<and> announced R' = map_option (\<lambda>ms. ms @ [with_hop p msg]) (announced R)
    \<and> Value h = Value (numBytesSent (p_counters p)) + Length msg
    \<and> rpc_push N R (with_hop p msg) 0 cs True = (R', Finished None)"
proof -
  let ?m = "with_hop p msg"
  have q: "quiet e" and con: "int (length content) = Length ?m" "sha256 content = Sha256 ?m"
    using assms(1) by (simp_all add: has_message_def fs_idle_def)
  obtain i where o: "OpenRead v e (p_store p) (Id msg) = (p_store p, Inr (msg, \<lparr>r_f = i, r_pos = 0\<rparr>))"
    "\<And>k. read_rest (p_store p) \<lparr>r_f = i, r_pos = k\<rparr> = drop k content" by (rule has_message_read [OF assms(1)]) blast
  let ?x = "\<lparr>far = R, rdr = \<lparr>r_f = i, r_pos = 0\<rparr>, bytes_sent = numBytesSent (p_counters p)\<rparr>"
  obtain y cs where y: "push_loop N (verror_action L) e (p_store p) ?m 0 ?x = Some (y, None)" "stored (far y) ?m m0 content"
    "announced (far y) = map_option (\<lambda>ms. ms @ [?m]) (announced R)"
    "Value (bytes_sent y) = Value (bytes_sent ?x) + Length msg" "rpc_push N R ?m 0 cs True = (far y, Finished None)"
    using sends_rest [OF q, of ?x ?m m0 "[]" content "p_store p" "verror_action L"] assms(2,3) o(2) con by auto
  from pushMessage_loop [OF assms(1) o(1) y(1)] y(2-5) show ?thesis by auto
qed

lemma redelivers:
  assumes "has_message v e p msg content" and "accepts R (with_hop p msg)" and "holds R (with_hop p msg) m0 b"
    and "b \<noteq> []" and "prefix b content"
    and "rpc_push N R (with_hop p msg) 0 (chunks 2048 content) True = (R1, o1)" and "answers R1 (with_hop p msg)"
    and "rpc_offset N R1 (with_hop p msg) = (R2, o2)" and "accepts R2 (with_hop p msg)"
  shows "\<exists>R' h cs. pushMessage v L e N p R (Id msg) = Some (set_bytes_sent h p, R', None)
    \<and> stored R' (with_hop p msg) m0 content
    \<and> announced R' = map_option (\<lambda>ms. ms @ [with_hop p msg]) (announced R)
    \<and> rpc_push N R2 (with_hop p msg) (int (length b)) cs True = (R', Finished None)"
proof -
  let ?m = "with_hop p msg" and ?s = "p_store p"
  have q: "quiet e" and con: "int (length content) = Length ?m" "sha256 content = Sha256 ?m"
    using assms(1) by (simp_all add: has_message_def fs_idle_def)
  obtain i where o: "OpenRead v e ?s (Id msg) = (?s, Inr (msg, \<lparr>r_f = i, r_pos = 0\<rparr>))"
    "\<And>k. read_rest ?s \<lparr>r_f = i, r_pos = k\<rparr> = drop k content" by (rule has_message_read [OF assms(1)]) blast
  let ?x = "\<lparr>far = R, rdr = \<lparr>r_f = i, r_pos = 0\<rparr>, bytes_sent = numBytesSent (p_counters p)\<rparr>"
  obtain y cs where y: "push_loop N (verror_action L) e ?s ?m 0 ?x = Some (y, None)" "stored (far y) ?m m0 content"
    "announced (far y) = map_option (\<lambda>ms. ms @ [?m]) (announced R)" "rpc_push N R2 ?m (int (length b)) cs True = (far y, Finished None)"
    using resumes [OF q, where x = ?x and s = ?s and va = "verror_action L", simplified, OF assms(2-5) _ _ _ assms(6-9)] o(2) con by auto
  from pushMessage_loop [OF assms(1) o(1) y(1)] y(2-4) show ?thesis by auto
qed

end

lemma Push_wrong_offset:
  assumes "admitted L e M call msg" and "fs_idle v e (store M) (Id msg)"
    and "fs_view v (store M) (Id msg) = Partial m0 b" and "Hash m0 = Hash msg" and "off \<noteq> int (length b)"
  shows "\<exists>M'. Push v L e E e' M call msg off packets serr = (M', Some (ErrIncorrectOffset off (int (length b))))
    \<and> fs_idle v e (store M') (Id msg) \<and> fs_view v (store M') (Id msg) = Partial m0 b \<and> notifier M' = notifier M"
proof -
  obtain s where s: "OpenWrite v e (store M) msg off = (s, Inl (ErrIncorrectOffset off (int (length b))))"
    "fs_idle v e s (Id msg)" "fs_view v s (Id msg) = Partial m0 b"
    using fs_open_offset [OF assms(2-5)] by blast
  obtain M' where "push_start v L e M call msg off = (M', Inl (ErrIncorrectOffset off (int (length b))))"
    "store M' = s" "notifier M' = notifier M" using push_start_admitted [OF assms(1) s(1)] by blast
  with s show ?thesis by (auto simp: Push_def)
qed

text \<open>The service of a node is such a far end.\<close>

definition node_holds :: "codec \<Rightarrow> env \<Rightarrow> Messenger \<Rightarrow> message \<Rightarrow> message \<Rightarrow> bytes \<Rightarrow> bool" where
  "node_holds v e M msg m0 b \<longleftrightarrow> fs_idle v e (store M) (Id msg) \<and> resumable v (store M) msg m0 b"

definition node_stored :: "codec \<Rightarrow> env \<Rightarrow> Messenger \<Rightarrow> message \<Rightarrow> message \<Rightarrow> bytes \<Rightarrow> bool" where
  "node_stored v e M msg m0 b \<longleftrightarrow> fs_idle v e (store M) (Id msg) \<and> fs_view v (store M) (Id msg) = Complete m0 b"

interpretation node: push_target "node_remote v L e call" "\<lambda>M. admitted L e M call"
  "\<lambda>M _. snd (Authorize L (now e) (RateAclIn (params M)) call) = None" "node_holds v e" "node_stored v e" notifier
  for v L e call
proof (unfold_locales, goal_cases)
  case (1 M m m0 b cs)
  then show ?case
    using Push_complete_ok [of L e M call m v m0 b "\<lambda>_. e" e cs]
    by (auto simp: node_remote_def node_holds_def node_stored_def fs_idle_def)
next
  case (2 M m m0 b off cs)
  then show ?case
    using Push_wrong_offset [of L e M call m v m0 b off "\<lambda>_. e" e cs None]
    by (fastforce simp: node_remote_def node_holds_def resumable_def)
next
  case (3 M m m0 b)
  then show ?case using ResumeOffset_partial [of L e M call v m m0 b]
    by (cases "ResumeOffset L e M call m") (auto simp: node_remote_def node_holds_def)
qed

lemma pushMessage_fresh:
  assumes "has_message v e p msg content" and "quiet e'"
    and "admitted L e' M call (with_hop p msg)" and "fs_idle v e' (store M) (Id msg)"
    and "fs_view v (store M) (Id msg) = Absent"
  shows "\<exists>p' M'. pushMessage v L e (node_remote v L e' call) p M (Id msg) = Some (p', M', None)
    \<and> fs_idle v e' (store M') (Id msg) \<and> fs_view v (store M') (Id msg) = Complete (with_hop p msg) content
    \<and> notifier M' = map_option (\<lambda>ms. ms @ [with_hop p msg]) (notifier M)
    \<and> Value (numBytesSent (p_counters p')) = Value (numBytesSent (p_counters p)) + Length msg"
proof -
  have "node_holds v e' M (with_hop p msg) (with_hop p msg) []" using assms(4,5) by (simp add: node_holds_def resumable_def)
  from node.delivers [OF assms(1,3) this, of L] show ?thesis by (auto simp: node_stored_def set_bytes_sent_def)
qed

text \<open>
  C3: pushing a complete message to a node that does not hold it, and that admits it,
  returns success: afterwards that node has the complete message with the sender's content,
  the metadata unchanged but for the sender's hop, has published it, and the sender has
  counted exactly the bytes of the content.
\<close>

theorem pushMessage_delivers:
  assumes "has_message v e p msg content" and "quiet e'"
    and "admitted L e' M call (with_hop p msg)" and "fs_idle v e' (store M) (Id msg)"
    and "fs_view v (store M) (Id msg) = Absent"
  shows "\<exists>p' M'. pushMessage v L e (node_remote v L e' call) p M (Id msg) = Some (p', M', None)
    \<and> fs_view v (store M') (Id msg) = Complete (with_hop p msg) content
    \<and> notifier M' = map_option (\<lambda>ms. ms @ [with_hop p msg]) (notifier M)
    \<and> Value (numBytesSent (p_counters p')) = Value (numBytesSent (p_counters p)) + Length msg"
  using pushMessage_fresh [OF assms] by blast

text \<open>
  C4: when the other node already holds the beginning of the message, the push is first
  refused for its offset, the peer asks where to resume, and the second call sends the rest
  and completes the message; the access lists are consulted for each of the three calls.
\<close>

theorem pushMessage_resumes:
  assumes "has_message v e p msg content" and "quiet e'"
    and "fs_idle v e' (store M) (Id msg)" and "fs_view v (store M) (Id msg) = Partial m0 b"
    and "Hash m0 = Hash msg" and "prefix b content" and "b \<noteq> []" and "b \<noteq> content"
    and "admitted L e' M call (with_hop p msg)"
    and "Push v L e' (\<lambda>_. e') e' M call (with_hop p msg) 0 (chunks 2048 content) None = (M1, er1)"
    and "snd (Authorize L (now e') (RateAclIn (params M1)) call) = None"
    and "ResumeOffset L e' M1 call (with_hop p msg) = (M2, r2)"
    and "admitted L e' M2 call (with_hop p msg)"
  shows "\<exists>p' M'. pushMessage v L e (node_remote v L e' call) p M (Id msg) = Some (p', M', None)
    \<and> fs_view v (store M') (Id msg) = Complete m0 content
    \<and> notifier M' = map_option (\<lambda>ms. ms @ [with_hop p msg]) (notifier M)"
proof -
  let ?m = "with_hop p msg" and ?N = "node_remote v L e' call"
  have "node_holds v e' M ?m m0 b" using assms(3-5) by (simp add: node_holds_def resumable_def)
  moreover have "rpc_push ?N M ?m 0 (chunks 2048 content) True = (M1, Finished er1)" "rpc_offset ?N M1 ?m = (M2, r2)"
    using assms(10,12) by (simp_all add: node_remote_def)
  ultimately show ?thesis
    using node.redelivers [OF assms(1,9) _ assms(7,6) _ assms(11) _ assms(13), of v m0 "Finished er1" r2 L]
    by (fastforce simp: node_stored_def)
qed

section \<open>Two small nodes\<close>

definition ex_peer :: "storage \<Rightarrow> peer" where
  "ex_peer s = \<lparr>localId = ''n1'', peerId = ''n2'', p_store = s, p_params = params ex_node, queue = [],
     p_counters = NewCounters, p_errors = counter_new\<rparr>"

text \<open>A call between two processes of the same principal.\<close>

definition ex_self :: sec_call where
  "ex_self = \<lparr>LocalBlessings = ''alice'', RemoteBlessings = ''alice'', RemoteDischarges = []\<rparr>"

lemma ex_self_admitted:
  assumes "MaxHops (params M) = 3" and "MaxMessageLength (params M) = 100"
  shows "snd (Authorize ex_lib t (RateAclIn (params M)) ex_self) = None"
    and "admitted ex_lib ex_env M ex_self (with_hop (ex_peer s) ex_msg)"
proof -
  have "same_key ex_lib ex_self" by (simp add: same_key_def ex_lib_def ex_self_def)
  then have a: "snd (Authorize ex_lib t r ex_self) = None" for t r by (simp add: Authorize_def)
  then show "snd (Authorize ex_lib t (RateAclIn (params M)) ex_self) = None" .
  have "sender_call ex_self (with_hop (ex_peer s) ex_msg) = ex_self"
    by (simp add: sender_call_def ex_self_def ex_msg_def with_hop_def)
  moreover have "Validate (PublicKey ex_lib) (Verify ex_lib) 5 (with_hop (ex_peer s) ex_msg) = None"
    by (simp add: Validate_def Expired_def ex_lib_def ex_msg_def with_hop_def)
  ultimately show "admitted ex_lib ex_env M ex_self (with_hop (ex_peer s) ex_msg)"
    using a assms by (simp add: admitted_def) (simp add: with_hop_def ex_peer_def)
qed

lemma ex_has_message: "\<exists>s. has_message text_codec ex_env (ex_peer s) ex_msg ''hi''"
proof -
  obtain s where "fs_idle text_codec ex_env s ''m1''" "fs_view text_codec s ''m1'' = Complete ex_msg ''hi''"
    using ex_complete by blast
  then show ?thesis by (intro exI [of _ s]) (simp add: has_message_def ex_peer_def Expired_def)
qed

lemma ex_node_limits: "MaxHops (params ex_node) = 3" "MaxMessageLength (params ex_node) = 100"
  by (simp_all add: ex_node_def)

theorem pushMessage_delivers_witness:
  "\<exists>s p' M'. pushMessage text_codec ex_lib ex_env (node_remote text_codec ex_lib ex_env ex_self) (ex_peer s) ex_node ''m1''
       = Some (p', M', None)
     \<and> fs_view text_codec (store M') ''m1'' = Complete (ex_msg\<lparr>Hops := [''alice'', ''n1'']\<rparr>) ''hi''"
proof -
  obtain s where s: "has_message text_codec ex_env (ex_peer s) ex_msg ''hi''" using ex_has_message by blast
  have "with_hop (ex_peer s) ex_msg = ex_msg\<lparr>Hops := [''alice'', ''n1'']\<rparr>" by (simp add: with_hop_def ex_peer_def)
  with pushMessage_delivers [OF s ex_env_simps(3) ex_self_admitted(2) [OF ex_node_limits]]
  show ?thesis using ex_idle init_idle(2) by auto
qed

lemma msg_round_pushed:
  assumes "pushMessage v L e N p R msgId = Some x"
  shows "\<exists>y. msg_round v L e rnd N p R msgId = Some y"
  using assms by (simp add: msg_round_def Let_def)

theorem msg_round_keeps_witness:
  "\<exists>s p' M'. msg_round text_codec ex_lib ex_env 0 (node_remote text_codec ex_lib ex_env ex_self) (ex_peer s) ex_node ''m1''
       = Some (p', M') \<and> (let info = getPeerInfo text_codec ex_env (p_store p') ''m1'' ''n2'' in
       Sent info \<or> FatalError info \<or> \<lparr>q_t = NextAttempt info, q_msgId = ''m1''\<rparr> \<in> set (queue p'))"
proof -
  let ?N = "node_remote text_codec ex_lib ex_env ex_self"
  obtain s where s: "has_message text_codec ex_env (ex_peer s) ex_msg ''hi''" using ex_has_message by blast
  obtain x where "pushMessage text_codec ex_lib ex_env ?N (ex_peer s) ex_node ''m1'' = Some x"
    using pushMessage_fresh [OF s ex_env_simps(3) ex_self_admitted(2) [OF ex_node_limits]] ex_idle init_idle(2) by auto
  then obtain p' M' where r: "msg_round text_codec ex_lib ex_env 0 ?N (ex_peer s) ex_node ''m1'' = Some (p', M')"
    using msg_round_pushed by (metis surj_pair)
  have "fs_wf (st_fs (p_store (ex_peer s)))" "is_dir (st_fs (p_store (ex_peer s))) (messageDir ''m1'')"
    using s by (auto simp: has_message_def fs_idle_def fs_view_simps dest: stored_msg_dir)
  from msg_round_keeps [OF r text_codec_ok ex_env_simps(3) this] r show ?thesis by (auto simp: ex_peer_def)
qed

lemma ex_partial:
  "\<exists>s. fs_idle text_codec ex_env s ''m1'' \<and> fs_view text_codec s ''m1'' = Partial ex_msg ''h''"
proof -
  obtain s1 w1 s2 w2 where "fs_writing text_codec ex_env s2 w2 ex_msg ex_msg ''h''"
    using fstore.transfer [OF ex_idle, of "[]" ex_msg "[''h'']"] init_idle(2) by auto
  from fs_close_partial [OF this] show ?thesis by auto
qed

theorem pushMessage_resumes_witness:
  "\<exists>s M p' M'. fs_view text_codec (store M) ''m1'' = Partial ex_msg ''h''
     \<and> pushMessage text_codec ex_lib ex_env (node_remote text_codec ex_lib ex_env ex_self) (ex_peer s) M ''m1''
       = Some (p', M', None)
     \<and> fs_view text_codec (store M') ''m1'' = Complete ex_msg ''hi''"
proof -
  obtain s where s: "has_message text_codec ex_env (ex_peer s) ex_msg ''hi''" using ex_has_message by blast
  obtain t where t: "fs_idle text_codec ex_env t ''m1''" "fs_view text_codec t ''m1'' = Partial ex_msg ''h''"
    using ex_partial by blast
  let ?M = "set_store t ex_node" and ?m = "with_hop (ex_peer s) ex_msg"
  obtain M1 er1 where p: "Push text_codec ex_lib ex_env (\<lambda>_. ex_env) ex_env ?M ex_self ?m 0 (chunks 2048 ''hi'') None = (M1, er1)"
    by force
  obtain M2 r2 where r: "ResumeOffset ex_lib ex_env M1 ex_self ?m = (M2, r2)" by force
  have lim: "MaxHops (params ?M) = 3" "MaxMessageLength (params ?M) = 100" by (simp_all add: ex_node_limits)
  note lim1 = Push_limits [OF p, unfolded lim] and lim2 = ResumeOffset_limits [OF r]
  have l2: "MaxHops (params M2) = 3" "MaxMessageLength (params M2) = 100" using lim1 lim2 by simp_all
  have "\<exists>p' M'. pushMessage text_codec ex_lib ex_env (node_remote text_codec ex_lib ex_env ex_self) (ex_peer s) ?M (Id ex_msg)
       = Some (p', M', None) \<and> fs_view text_codec (store M') (Id ex_msg) = Complete ex_msg ''hi''
     \<and> notifier M' = map_option (\<lambda>ms. ms @ [?m]) (notifier ?M)"
    by (rule pushMessage_resumes [OF s ex_env_simps(3) _ _ refl _ _ _ ex_self_admitted(2) [OF lim] p
          ex_self_admitted(1) r ex_self_admitted(2) [OF l2]])
      (use t lim1 in auto)
  with t show ?thesis by (auto intro!: exI [of _ s] exI [of _ ?M])
qed

end
