(* ===== verification/StorageFrame.thy ===== *)
theory StorageFrame
  imports StorageSpec
begin

text \<open>
  What the operations of the storage leave alone: a transfer of one message, with any system
  call failing, changes nothing that belongs to another message.
\<close>

section \<open>One message is touched\<close>

definition touches :: "string \<Rightarrow> storage \<Rightarrow> storage \<Rightarrow> bool" where
  "touches i s s' \<longleftrightarrow> fs_wf (st_fs s') \<and> busy s' - {i} = busy s - {i}
     \<and> (\<forall>d n. d \<noteq> messageDir i \<and> \<not> (d = '''' \<and> n = messageDir i) \<longrightarrow> fs_read (st_fs s') d n = fs_read (st_fs s) d n)"

lemma touches_refl: "fs_wf (st_fs s) \<Longrightarrow> touches i s s"
  by (simp add: touches_def)

lemma touches_trans: "touches i s s' \<Longrightarrow> touches i s' s'' \<Longrightarrow> touches i s s''"
  unfolding touches_def by (intro conjI allI impI) (metis, metis, metis)

lemma touches_wf: "touches i s s' \<Longrightarrow> fs_wf (st_fs s')"
  by (simp add: touches_def)

lemma touches_lock: "fs_wf (st_fs s) \<Longrightarrow> lock s i = Inr s' \<Longrightarrow> touches i s s'"
  by (auto simp: touches_def lock_def split: if_splits)

lemma touches_unlock: "touches i s s' \<Longrightarrow> touches i s (unlock i s')"
  by (auto simp: touches_def unlock_def)

lemma touches_create:
  assumes "fs_create e (st_fs s) (messageDir i) n = Inr (F, k)" and "fs_wf (st_fs s)"
  shows "touches i s (s\<lparr>st_fs := F\<rparr>)" and "touches i s (s\<lparr>st_fs := fs_set k b F\<rparr>)"
  using fs_create_wf(1) [OF assms] fs_read_create [OF assms] fs_read_put [OF assms]
  by (auto simp: touches_def fs_simps)

lemma touches_set:
  assumes "fs_find (st_fs s) (messageDir i) n = Some k" and "fs_wf (st_fs s)"
  shows "touches i s (s\<lparr>st_fs := fs_set k b (st_fs s)\<rparr>)"
proof -
  have "fs_find (st_fs s) d x \<noteq> Some k" if "d \<noteq> messageDir i" for d x
    using fs_wfD(2) [OF assms(2,1)] that by blast
  then have "fs_read (fs_set k b (st_fs s)) d x = fs_read (st_fs s) d x" if "d \<noteq> messageDir i" for d x
    using that by (cases "fs_find (st_fs s) d x") (auto simp: fs_read_def fs_simps)
  then show ?thesis using assms(2) by (simp add: touches_def fs_simps)
qed

lemma touches_mkdirall:
  assumes "fs_mkdirall e (st_fs s) d = Inr F" and "fs_wf (st_fs s)"
  shows "touches i s (s\<lparr>st_fs := F\<rparr>)"
  using assms(2) by (simp add: touches_def fs_wf_def fs_read_def fs_mkdirall_Inr [OF assms(1)])

lemma touches_removeall:
  assumes "fs_wf (st_fs s)" and "i \<noteq> ''''"
  shows "touches i s (s\<lparr>st_fs := fs_removeall e (st_fs s) (messageDir i)\<rparr>)"
proof -
  have "fs_wf (fs_removeall e (st_fs s) (messageDir i))"
    using assms(1) unfolding fs_wf_def fs_removeall_find by (auto split: if_splits)
  then show ?thesis using assms(2) by (auto simp: touches_def fs_read_def fs_removeall_find gone_def)
qed

section \<open>What is not touched\<close>

lemma touches_other:
  assumes "touches i s s'" and "j \<noteq> i" and "j \<noteq> ''''" and "i \<noteq> ''''"
  shows "fs_view v s' j = fs_view v s j" and "fs_idle v e s j \<Longrightarrow> fs_idle v e s' j" and "Exists e s' j = Exists e s j"
    and "getPeerInfo v e s' j peer = getPeerInfo v e s j peer"
proof -
  have d: "messageDir j \<noteq> messageDir i" "messageDir j \<noteq> ''''" "messageDir i \<noteq> ''''" using assms(2-4) by simp_all
  then have rd: "fs_read (st_fs s') (messageDir j) n = fs_read (st_fs s) (messageDir j) n"
    "fs_read (st_fs s') '''' (messageDir j) = fs_read (st_fs s) '''' (messageDir j)" for n
    using assms(1) unfolding touches_def by metis+
  show "fs_view v s' j = fs_view v s j" by (rule fs_view_cong) (simp add: rd)
  have "j \<in> busy s' \<longleftrightarrow> j \<in> busy s" using assms(1,2) unfolding touches_def by blast
  then show "fs_idle v e s' j" if "fs_idle v e s j"
    using that assms(1) by (simp add: fs_idle_def fs_find_None rd touches_def)
  show "Exists e s' j = Exists e s j" using d(2) by (simp add: Exists_def isComplete_def fs_exists_def fs_find_None rd)
  show "getPeerInfo v e s' j peer = getPeerInfo v e s j peer" by (simp add: getPeerInfo_read rd)
qed

section \<open>The operations\<close>

lemma writeMessage_touches:
  assumes "writeMessage v e s m = (s', er)" and "fs_wf (st_fs s)"
  shows "touches (Id m) s s'"
proof (cases "fs_mkdirall e (st_fs s) (messageDir (Id m))")
  case (Inr F)
  note mk = touches_mkdirall [OF Inr assms(2), of "Id m"]
  show ?thesis
  proof (cases "fs_create e F (messageDir (Id m)) messageFileName")
    case (Inr r)
    obtain G k where r: "r = (G, k)" by force
    have "touches (Id m) (s\<lparr>st_fs := F\<rparr>) (s\<lparr>st_fs := fs_set k b G\<rparr>)" for b
      using touches_create(2) [of e "s\<lparr>st_fs := F\<rparr>" "Id m"] Inr r touches_wf [OF mk] by simp
    with assms(1) \<open>fs_mkdirall e (st_fs s) (messageDir (Id m)) = Inr F\<close> Inr r show ?thesis
      by (auto simp: writeMessage_def split: if_splits intro: touches_trans [OF mk])
  qed (use assms(1) Inr mk in \<open>auto simp: writeMessage_def\<close>)
qed (use assms in \<open>auto simp: writeMessage_def intro: touches_refl\<close>)

lemma storeMessage_touches:
  assumes "storeMessage v e s m = (s', er)" and "fs_wf (st_fs s)"
  shows "touches (Id m) s s'"
  using assms writeMessage_touches [of v e s m s' er] touches_refl
  by (auto simp: storeMessage_def split: sum.splits if_splits)

text \<open>A writer and the file it writes to.\<close>

definition writer_at :: "storage \<Rightarrow> fileWrapper \<Rightarrow> message \<Rightarrow> bool" where
  "writer_at s w m \<longleftrightarrow> w_msg w = m \<and> fs_wf (st_fs s) \<and> fs_find (st_fs s) (messageDir (Id m)) contentFileName = Some (w_f w)"

lemma OpenWrite_touches:
  assumes "OpenWrite v e s m off = (s', r)" and "fs_wf (st_fs s)"
  shows "touches (Id m) s s'" and "r = Inr w \<Longrightarrow> writer_at s' w m"
proof -
  have "touches (Id m) s s' \<and> (r = Inr w \<longrightarrow> writer_at s' w m)"
  proof (cases "lock s (Id m)")
    case (Inr s1)
    note t1 = touches_lock [OF assms(2) Inr]
    obtain s2 er where s2: "storeMessage v e s1 m = (s2, er)" by force
    note t2 = touches_trans [OF t1 storeMessage_touches [OF s2 touches_wf [OF t1]]]
    show ?thesis
    proof (cases "fs_create e (st_fs s2) (messageDir (Id m)) contentFileName")
      case (Inr p)
      obtain F k where p: "p = (F, k)" by force
      note c = touches_create(1) [OF Inr [unfolded p] touches_wf [OF t2]]
      have "fs_wf F" "fs_find F (messageDir (Id m)) contentFileName = Some k"
        using fs_create_wf(1,2) [OF Inr [unfolded p] touches_wf [OF t2]] by simp_all
      then show ?thesis
        using assms(1) \<open>lock s (Id m) = Inr s1\<close> s2 Inr p t1 t2 touches_trans [OF t2 c]
        by (auto simp: OpenWrite_def Let_def writer_at_def intro: touches_unlock split: if_splits option.splits)
    qed (use assms(1) Inr s2 t1 t2 in \<open>auto simp: OpenWrite_def intro: touches_unlock split: if_splits option.splits\<close>)
  qed (use assms in \<open>auto simp: OpenWrite_def intro: touches_refl\<close>)
  then show "touches (Id m) s s'" and "r = Inr w \<Longrightarrow> writer_at s' w m" by blast+
qed

lemma Write_touches:
  assumes "Write e s w p = (s', w', er)" and "writer_at s w m"
  shows "touches (Id m) s s' \<and> writer_at s' w' m"
  using assms touches_set [of s "Id m" contentFileName "w_f w"]
  by (auto simp: Write_def writer_at_def Let_def fs_simps)

lemma Close_touches:
  assumes "Close e s w = (s', er)" and "writer_at s w m" and "Id m \<noteq> ''''"
  shows "touches (Id m) s s'"
proof -
  have w: "w_msg w = m" "fs_wf (st_fs s)" using assms(2) by (simp_all add: writer_at_def)
  obtain s1 er1 where b: "closeBody e s w = (s1, er1)" by force
  have "touches (Id m) s s1"
  proof (cases "fs_create e (st_fs s) (messageDir (Id m)) doneFileName")
    case (Inl x)
    then show ?thesis using b w touches_removeall [OF w(2) assms(3)] touches_refl [OF w(2)]
      by (auto simp: closeBody_def writeDone_def Let_def split: if_splits)
  next
    case (Inr p)
    then show ?thesis using b w touches_removeall [OF w(2) assms(3)] touches_refl [OF w(2)]
        touches_create(2) [of e s "Id m" doneFileName "fst p" "snd p"]
      by (auto simp: closeBody_def writeDone_def Let_def split: if_splits prod.splits)
  qed
  with assms(1) b w(1) show ?thesis by (auto simp: Close_def intro: touches_unlock)
qed

lemma SetPeerInfo_touches:
  assumes "SetPeerInfo v e s mid peer info = (s', er)" and "fs_wf (st_fs s)"
  shows "touches mid s s'"
  using assms touches_create(2) [OF _ assms(2)] touches_refl [OF assms(2)]
  by (auto simp: SetPeerInfo_def split: sum.splits if_splits)

text \<open>The records of the peers are not part of what a store holds of a message.\<close>

lemma SetPeerInfo_views:
  assumes "SetPeerInfo v e s mid peer info = (s', er)" and "fs_wf (st_fs s)" and "mid \<noteq> ''''"
  shows "fs_view v s' j = fs_view v s j" and "fs_idle v e' s j \<Longrightarrow> fs_idle v e' s' j"
proof -
  have *: "fs_wf (st_fs s') \<and> busy s' = busy s \<and> (d \<noteq> messageDir mid \<or> n \<noteq> peerFile peer \<longrightarrow>
      fs_read (st_fs s') d n = fs_read (st_fs s) d n)" for d n
    using assms(1,2) by (cases rule: SetPeerInfo_cases) (use assms(2) in auto)
  have "peerFile peer \<notin> {messageFileName, contentFileName, doneFileName}"
    by (simp add: peerFile_def messageFileName_def contentFileName_def doneFileName_def)
  then show "fs_view v s' j = fs_view v s j" using * by (intro fs_view_cong) metis
  have "'''' \<noteq> messageDir mid" using assms(3) by simp
  then show "fs_idle v e' s' j" if "fs_idle v e' s j" using * that by (simp add: fs_idle_def fs_find_None)
qed

end
