(* ===== verification/DiffSync.thy ===== *)
theory DiffSync
  imports Peer StorageFrame
begin

text \<open>
  The initial exchange with a peer (\<open>diffAndEnqueue\<close> of \<^verbatim>\<open>src/internal/peers.go\<close>): the
  messages of the manifest that may be of interest to the peer are offered to it in
  batches, those it has are recorded as sent and the others are queued.
\<close>

section \<open>The exchange\<close>

text \<open>
  The far end of the \<open>Diff\<close> call: starting the stream, the answer to one batch (the error
  of the send, or the end of the stream, or the booleans), and closing it.
\<close>

record 'r diff_remote =
  d_open :: "'r \<Rightarrow> 'r \<times> err option"
  d_batch :: "'r \<Rightarrow> string list \<Rightarrow> 'r \<times> (err + bool list option)"
  d_finish :: "'r \<Rightarrow> 'r \<times> err option"

definition batchSize :: nat where
  "batchSize = 256"

definition batch_item :: "codec \<Rightarrow> env \<Rightarrow> peer \<Rightarrow> message \<Rightarrow> (string \<times> PeerInfo) option" where
  "batch_item v e p msg =
     (let info = getPeerInfo v e (p_store p) (Id msg) (peerId p)
      in if Sent info \<or> FatalError info then None
         else if checkHops p msg \<noteq> None then None
         else Some (Id msg, if IsZero (NextAttempt info) then info\<lparr>NextAttempt := CreationTime msg\<rparr> else info))"

definition answer :: "codec \<Rightarrow> env \<Rightarrow> (string \<times> PeerInfo) \<times> bool \<Rightarrow> peer \<Rightarrow> peer" where
  "answer v e x p =
     (case x of ((mid, info), hasIt) \<Rightarrow>
        if hasIt then p\<lparr>p_store := fst (SetPeerInfo v e (p_store p) mid (peerId p) (info\<lparr>Sent := True\<rparr>))\<rparr>
        else enqueue (NextAttempt info) mid p)"

text \<open>
  The loop over the batches.  \<open>budget\<close> is the number of receives from the manifest channel
  before the context is cancelled; a batch makes one receive for each entry and one more
  when the channel is exhausted within it.
\<close>

definition receives :: "message list \<Rightarrow> nat" where
  "receives ms = min batchSize (Suc (length ms))"

function diff_batches :: "codec \<Rightarrow> env \<Rightarrow> 'r diff_remote \<Rightarrow> nat option \<Rightarrow> bool \<Rightarrow> peer \<Rightarrow> 'r \<Rightarrow> message list \<Rightarrow>
    peer \<times> 'r \<times> bool \<times> err option" where
  "diff_batches v e N budget opened p R ms =
     (if (\<exists>k. budget = Some k \<and> k < receives ms) then (p, R, opened, Some (ErrVerror Canceled))
      else let items = List.map_filter (batch_item v e p) (take batchSize ms)
      in if items = [] then (p, R, opened, None)
         else case (if opened then (R, None) else d_open N R) of
           (R, Some er) \<Rightarrow> (p, R, opened, Some er)
         | (R, None) \<Rightarrow>
             (case d_batch N R (map fst items) of
                (R, Inl er) \<Rightarrow> (p, R, True, Some er)
              | (R, Inr None) \<Rightarrow> (p, R, True, Some (ErrVerror BadProtocol))
              | (R, Inr (Some responses)) \<Rightarrow>
                  if length items \<noteq> length responses then (p, R, True, Some (ErrVerror BadProtocol))
                  else diff_batches v e N (map_option (\<lambda>k. k - receives ms) budget) True
                    (fold (answer v e) (zip items responses) p) R (drop batchSize ms)))"
  by pat_completeness auto
termination
proof (relation "measure (\<lambda>(v, e, N, budget, opened, p, R, ms). length ms)", goal_cases)
  case (2 v e N budget opened p R ms items)
  then have "ms \<noteq> []" by (auto simp: List.map_filter_def)
  then show ?case by (simp add: batchSize_def)
qed simp

declare diff_batches.simps [simp del]

definition diffAndEnqueue :: "codec \<Rightarrow> env \<Rightarrow> 'r diff_remote \<Rightarrow> nat option \<Rightarrow> peer \<Rightarrow> 'r \<Rightarrow> peer \<times> 'r \<times> err option" where
  "diffAndEnqueue v e N budget p R =
     (case Manifest v e (p_store p) of
        Inl er \<Rightarrow> (p, R, Some er)
      | Inr ms \<Rightarrow>
          (case diff_batches v e N budget False p R ms of
             (p, R, _, Some er) \<Rightarrow> (p, R, Some er)
           | (p, R, False, None) \<Rightarrow> (p, R, None)
           | (p, R, True, None) \<Rightarrow> (let (R, er) = d_finish N R in (p, R, er))))"

section \<open>One batch\<close>

lemma SetPeerInfo_frame:
  assumes "fs_wf (st_fs s)" and "SetPeerInfo v e s mid peer info = (s', er)"
  shows "fs_wf (st_fs s') \<and> is_dir (st_fs s') = is_dir (st_fs s)"
    and "mid' \<noteq> mid \<Longrightarrow> getPeerInfo v e' s' mid' peer' = getPeerInfo v e' s mid' peer'"
proof -
  have *: "(fs_wf (st_fs s') \<and> is_dir (st_fs s') = is_dir (st_fs s)) \<and>
      (mid' \<noteq> mid \<longrightarrow> fs_read (st_fs s') (messageDir mid') n = fs_read (st_fs s) (messageDir mid') n)" for n
    using assms(2,1) by (cases rule: SetPeerInfo_cases) (use assms(1) in auto)
  then show "fs_wf (st_fs s') \<and> is_dir (st_fs s') = is_dir (st_fs s)" by blast
  show "getPeerInfo v e' s' mid' peer' = getPeerInfo v e' s mid' peer'" if "mid' \<noteq> mid"
    using * that by (simp add: getPeerInfo_read)
qed

definition same_peer :: "peer \<Rightarrow> peer \<Rightarrow> bool" where
  "same_peer p q \<longleftrightarrow> peerId q = peerId p \<and> localId q = localId p \<and> p_params q = p_params p"

lemma answer_frame:
  assumes "fs_wf (st_fs (p_store p))"
  shows "fs_wf (st_fs (p_store (answer v e ((mid, info), h) p)))
      \<and> is_dir (st_fs (p_store (answer v e ((mid, info), h) p))) = is_dir (st_fs (p_store p))
      \<and> same_peer p (answer v e ((mid, info), h) p)"
    and "mid' \<noteq> mid \<or> \<not> h \<Longrightarrow> getPeerInfo v e (p_store (answer v e ((mid, info), h) p)) mid' peer' =
      getPeerInfo v e (p_store p) mid' peer'"
    and "mset (queue (answer v e ((mid, info), h) p)) =
      mset (queue p) + (if h then {#} else {#\<lparr>q_t = NextAttempt info, q_msgId = mid\<rparr>#})"
proof -
  obtain s' er where s: "SetPeerInfo v e (p_store p) mid (peerId p) (info\<lparr>Sent := True\<rparr>) = (s', er)" by force
  note f = SetPeerInfo_frame [OF assms s]
  show "fs_wf (st_fs (p_store (answer v e ((mid, info), h) p)))
      \<and> is_dir (st_fs (p_store (answer v e ((mid, info), h) p))) = is_dir (st_fs (p_store p))
      \<and> same_peer p (answer v e ((mid, info), h) p)"
    using f(1) assms s by (auto simp: answer_def enqueue_def same_peer_def)
  show "mid' \<noteq> mid \<or> \<not> h \<Longrightarrow> getPeerInfo v e (p_store (answer v e ((mid, info), h) p)) mid' peer' =
      getPeerInfo v e (p_store p) mid' peer'"
    using f(2) s by (auto simp: answer_def enqueue_def)
  show "mset (queue (answer v e ((mid, info), h) p)) =
      mset (queue p) + (if h then {#} else {#\<lparr>q_t = NextAttempt info, q_msgId = mid\<rparr>#})"
    by (simp add: answer_def enqueue_def)
qed

lemma answers_frame:
  fixes v :: codec and e :: env
  assumes "fs_wf (st_fs (p_store p))" and "length rs = length items"
  defines "q \<equiv> fold (answer v e) (zip items rs) p"
  shows "fs_wf (st_fs (p_store q)) \<and> is_dir (st_fs (p_store q)) = is_dir (st_fs (p_store p)) \<and> same_peer p q
    \<and> (\<forall>mid peer'. (\<forall>info. ((mid, info), True) \<notin> set (zip items rs)) \<longrightarrow>
        getPeerInfo v e (p_store q) mid peer' = getPeerInfo v e (p_store p) mid peer')
    \<and> mset (queue q) = mset (queue p) + mset (map (\<lambda>((mid, info), h). \<lparr>q_t = NextAttempt info, q_msgId = mid\<rparr>)
        (filter (\<lambda>(x, h). \<not> h) (zip items rs)))"
  using assms(1,2) unfolding q_def
proof (induction items arbitrary: rs p)
  case Nil
  then show ?case by (simp add: same_peer_def)
next
  case (Cons x items)
  obtain mid info where x: "x = (mid, info)" by (cases x)
  obtain h rs' where rs: "rs = h # rs'" "length rs' = length items" using Cons.prems(2) by (cases rs) auto
  let ?p = "answer v e ((mid, info), h) p"
  note af = answer_frame [OF Cons.prems(1), where v = v and e = e and mid = mid and info = info and h = h]
  have wf: "fs_wf (st_fs (p_store ?p))" using af(1) by blast
  from Cons.IH [OF wf rs(2)] af show ?case by (auto simp: x rs(1) same_peer_def)
qed

lemma zip_has:
  "((mid, info), True) \<in> set (zip items (map (\<lambda>x. has (fst x)) items)) \<longleftrightarrow> (mid, info) \<in> set items \<and> has mid"
  by (induction items) auto

lemma answers_sent:
  assumes "fs_wf (st_fs (p_store p))" and "codec_ok v" and "quiet e" and "distinct (map fst items)"
    and "\<forall>x \<in> set items. fst x \<noteq> '''' \<and> is_dir (st_fs (p_store p)) (messageDir (fst x))"
    and "x \<in> set items" and "has (fst x)"
  shows "Sent (getPeerInfo v e (p_store (fold (answer v e) (zip items (map (\<lambda>x. has (fst x)) items)) p)) (fst x) (peerId p))"
  using assms(1,4,5,6,7)
proof (induction items arbitrary: p)
  case (Cons y items)
  obtain mid info where y: "y = (mid, info)" by (cases y)
  let ?q = "answer v e ((mid, info), has mid) p"
  note af = answer_frame [OF Cons.prems(1), where v = v and e = e and mid = mid and info = info and h = "has mid"]
  have q: "fs_wf (st_fs (p_store ?q))" "is_dir (st_fs (p_store ?q)) = is_dir (st_fs (p_store p))" "peerId ?q = peerId p"
    using af(1) by (auto simp: same_peer_def)
  show ?case
  proof (cases "x = y")
    case False
    then have "x \<in> set items" using Cons.prems(4) by simp
    from Cons.IH [OF q(1) _ _ this Cons.prems(5)] Cons.prems q(2,3) show ?thesis by (simp add: y)
  next
    case True
    obtain s' where s: "SetPeerInfo v e (p_store p) mid (peerId p) (info\<lparr>Sent := True\<rparr>) = (s', None)"
      using quiet_create [OF assms(3), of "st_fs (p_store p)" "messageDir mid" "peerFile (peerId p)"] Cons.prems(3) assms(3)
      by (auto simp: SetPeerInfo_def quiet_def y)
    have "getPeerInfo v e (p_store ?q) mid (peerId p) = info\<lparr>Sent := True\<rparr>"
      using PeerInfo_get_set [OF assms(2) Cons.prems(1) s assms(3)] s True Cons.prems(5) by (simp add: answer_def y)
    moreover have "mid \<notin> fst ` set items" using Cons.prems(2) by (simp add: y)
    ultimately show ?thesis
      using answers_frame [OF q(1), of "map (\<lambda>x. has (fst x)) items" items v e, unfolded zip_has] True
      by (force simp: y)
  qed
qed simp

section \<open>The whole exchange\<close>

text \<open>Every batch of consecutive manifest entries offers something.\<close>

definition no_gap :: "codec \<Rightarrow> env \<Rightarrow> peer \<Rightarrow> message list \<Rightarrow> bool" where
  "no_gap v e p ms \<longleftrightarrow> (\<forall>k. drop (k * batchSize) ms \<noteq> [] \<longrightarrow>
     (\<exists>m \<in> set (take batchSize (drop (k * batchSize) ms)). batch_item v e p m \<noteq> None))"

lemma no_gap_drop:
  assumes "no_gap v e p ms" shows "no_gap v e p (drop batchSize ms)"
  unfolding no_gap_def
proof (intro allI impI)
  fix k
  assume "drop (k * batchSize) (drop batchSize ms) \<noteq> []"
  moreover have "drop (k * batchSize) (drop batchSize ms) = drop (Suc k * batchSize) ms" by (simp add: add.commute)
  ultimately show "\<exists>m \<in> set (take batchSize (drop (k * batchSize) (drop batchSize ms))). batch_item v e p m \<noteq> None"
    using assms unfolding no_gap_def by metis
qed

lemma batch_item_Id: "batch_item v e p m = Some x \<Longrightarrow> fst x = Id m"
  by (auto simp: batch_item_def Let_def split: if_splits)

lemma batch_item_cong:
  assumes "same_peer p q" and "getPeerInfo v e (p_store q) (Id m) (peerId p) = getPeerInfo v e (p_store p) (Id m) (peerId p)"
  shows "batch_item v e q m = batch_item v e p m"
  using assms by (auto simp: batch_item_def same_peer_def checkHops_def Let_def)

lemma map_filter_append: "List.map_filter f (xs @ ys) = List.map_filter f xs @ List.map_filter f ys"
  by (simp add: List.map_filter_def)

lemma map_filter_cong: "(\<And>x. x \<in> set xs \<Longrightarrow> f x = g x) \<Longrightarrow> List.map_filter f xs = List.map_filter g xs"
  by (induction xs) (auto simp: List.map_filter_simps split: option.splits)

definition wanted :: "(string \<Rightarrow> bool) \<Rightarrow> (string \<times> PeerInfo) list \<Rightarrow> msgQueueElement list" where
  "wanted has items = map (\<lambda>(mid, info). \<lparr>q_t = NextAttempt info, q_msgId = mid\<rparr>) (filter (\<lambda>x. \<not> has (fst x)) items)"

lemma wanted_zip:
  "map (\<lambda>((mid, info), h). \<lparr>q_t = NextAttempt info, q_msgId = mid\<rparr>)
     (filter (\<lambda>(x, h). \<not> h) (zip items (map (\<lambda>x. has (fst x)) items))) = wanted has items"
  by (induction items) (auto simp: wanted_def)

definition answers :: "codec \<Rightarrow> env \<Rightarrow> (string \<Rightarrow> bool) \<Rightarrow> (string \<times> PeerInfo) list \<Rightarrow> peer \<Rightarrow> peer" where
  "answers v e has items p = fold (answer v e) (zip items (map (\<lambda>x. has (fst x)) items)) p"

lemma answers_props:
  assumes "fs_wf (st_fs (p_store p))"
  shows "fs_wf (st_fs (p_store (answers v e has items p)))"
    and "is_dir (st_fs (p_store (answers v e has items p))) = is_dir (st_fs (p_store p))"
    and "same_peer p (answers v e has items p)"
    and "mid \<notin> fst ` set items \<or> \<not> has mid \<Longrightarrow>
      getPeerInfo v e (p_store (answers v e has items p)) mid peer' = getPeerInfo v e (p_store p) mid peer'"
    and "mset (queue (answers v e has items p)) = mset (queue p) + mset (wanted has items)"
  using answers_frame [OF assms, of "map (\<lambda>x. has (fst x)) items" items v e, unfolded wanted_zip zip_has]
  unfolding answers_def by (simp_all only: length_map simp_thms) force

text \<open>The peer's records aside, the exchange leaves the store as it was.\<close>

definition same_store :: "codec \<Rightarrow> env \<Rightarrow> peer \<Rightarrow> peer \<Rightarrow> bool" where
  "same_store v e p q \<longleftrightarrow> (\<forall>j. fs_view v (p_store q) j = fs_view v (p_store p) j)
     \<and> (\<forall>j. fs_idle v e (p_store p) j \<longrightarrow> fs_idle v e (p_store q) j)"

lemma answers_store:
  assumes "fs_wf (st_fs (p_store p))" and "\<forall>x \<in> set items. fst x \<noteq> ''''" and "length rs = length items"
  shows "same_store v e p (fold (answer v e) (zip items rs) p)"
  using assms
proof (induction items arbitrary: rs p)
  case (Cons x items)
  obtain mid info where x: "x = (mid, info)" by (cases x)
  obtain h rs' where rs: "rs = h # rs'" "length rs' = length items" using Cons.prems(3) by (cases rs) auto
  let ?p = "answer v e ((mid, info), h) p"
  have wf: "fs_wf (st_fs (p_store ?p))" using answer_frame(1) [OF Cons.prems(1)] by blast
  obtain s' er where s: "SetPeerInfo v e (p_store p) mid (peerId p) (info\<lparr>Sent := True\<rparr>) = (s', er)" by force
  have "same_store v e p ?p"
    using SetPeerInfo_views [OF s Cons.prems(1)] Cons.prems(2) s by (auto simp: same_store_def answer_def enqueue_def x)
  with Cons.IH [OF wf _ rs(2)] Cons.prems(2) show ?case by (auto simp: x rs(1) same_store_def)
qed (simp add: same_store_def)

definition offered :: "codec \<Rightarrow> env \<Rightarrow> peer \<Rightarrow> message list \<Rightarrow> (string \<times> PeerInfo) list" where
  "offered v e p ms = List.map_filter (batch_item v e p) ms"

lemma no_gap_head: "no_gap v e p ms \<Longrightarrow> ms \<noteq> [] \<Longrightarrow> offered v e p (take batchSize ms) \<noteq> []"
  using spec [of "\<lambda>k. drop (k * batchSize) ms \<noteq> [] \<longrightarrow> _ k" 0] unfolding no_gap_def offered_def
  by (metis (no_types, lifting) drop0 empty_iff in_map_filter list.set(1) mult_0 not_Some_eq)

lemma offered_fst: "fst ` set (offered v e p ms) \<subseteq> Id ` set ms"
  by (auto simp: offered_def in_map_filter dest!: batch_item_Id)

lemma distinct_offered: "distinct (map Id ms) \<Longrightarrow> distinct (map fst (offered v e p ms))"
proof (induction ms)
  case (Cons m ms)
  have "fst x \<noteq> fst y" if "batch_item v e p m = Some x" "y \<in> set (offered v e p ms)" for x y
    using Cons.prems that offered_fst [of v e p ms] batch_item_Id [OF that(1)] by auto
  with Cons show ?case by (cases "batch_item v e p m") (auto simp: offered_def List.map_filter_simps)
qed (simp add: offered_def List.map_filter_simps)

definition synced :: "codec \<Rightarrow> env \<Rightarrow> (string \<Rightarrow> bool) \<Rightarrow> peer \<Rightarrow> message list \<Rightarrow> peer \<Rightarrow> bool" where
  "synced v e has p ms q \<longleftrightarrow> mset (queue q) = mset (queue p) + mset (wanted has (offered v e p ms))
     \<and> (\<forall>x \<in> set (offered v e p ms). has (fst x) \<longrightarrow> Sent (getPeerInfo v e (p_store q) (fst x) (peerId p)))
     \<and> (\<forall>mid. mid \<notin> Id ` set ms \<or> \<not> has mid \<longrightarrow>
          getPeerInfo v e (p_store q) mid (peerId p) = getPeerInfo v e (p_store p) mid (peerId p))
     \<and> same_peer p q \<and> same_store v e p q"

lemma answers_synced:
  assumes "codec_ok v" and "quiet e" and "distinct (map Id ms)" and "fs_wf (st_fs (p_store p))"
    and "\<forall>m \<in> set ms. Id m \<noteq> '''' \<and> is_dir (st_fs (p_store p)) (messageDir (Id m))"
  shows "synced v e has p ms (answers v e has (offered v e p ms) p)"
proof -
  let ?items = "offered v e p ms"
  note fr = answers_props [OF assms(4), where v = v and e = e and has = has and items = ?items]
  have items: "\<forall>x \<in> set ?items. fst x \<noteq> '''' \<and> is_dir (st_fs (p_store p)) (messageDir (fst x))"
  proof
    fix x
    assume "x \<in> set ?items"
    then obtain m where "m \<in> set ms" "fst x = Id m" using offered_fst [of v e p ms] by (meson imageE image_eqI subsetD)
    with assms(5) show "fst x \<noteq> '''' \<and> is_dir (st_fs (p_store p)) (messageDir (fst x))" by simp
  qed
  have "Sent (getPeerInfo v e (p_store (answers v e has ?items p)) (fst x) (peerId p))"
    if "x \<in> set ?items" "has (fst x)" for x
    using answers_sent [OF assms(4,1,2) distinct_offered [OF assms(3)] items that(1), of has] that(2)
    by (simp add: answers_def)
  moreover have "getPeerInfo v e (p_store (answers v e has ?items p)) mid (peerId p) = getPeerInfo v e (p_store p) mid (peerId p)"
    if "mid \<notin> Id ` set ms \<or> \<not> has mid" for mid
    using that offered_fst [of v e p ms] by (intro fr(4)) blast
  moreover have "same_store v e p (answers v e has ?items p)"
    unfolding answers_def using answers_store [OF assms(4)] items by simp
  ultimately show ?thesis using fr(3,5) by (simp add: synced_def del: de_Morgan_conj)
qed

lemma synced_item:
  assumes "synced v e has p xs q" and "Id m \<notin> Id ` set xs"
  shows "batch_item v e q m = batch_item v e p m"
  by (rule batch_item_cong) (use assms in \<open>auto simp: synced_def\<close>)

lemma synced_append:
  assumes "distinct (map Id (xs @ ys))" and "synced v e has p xs q" and "synced v e has q ys r"
  shows "synced v e has p (xs @ ys) r"
proof -
  have "Id m \<notin> Id ` set xs" if "m \<in> set ys" for m using assms(1) that by auto
  then have off: "offered v e q ys = offered v e p ys"
    unfolding offered_def using synced_item [OF assms(2)] by (intro map_filter_cong) blast
  have ap: "offered v e p (xs @ ys) = offered v e p xs @ offered v e p ys"
    by (simp add: offered_def map_filter_append)
  have pid: "peerId q = peerId p" using assms(2) by (simp add: synced_def same_peer_def)
  have "Sent (getPeerInfo v e (p_store r) (fst x) (peerId p))"
    if "x \<in> set (offered v e p xs)" "has (fst x)" for x
  proof -
    have "fst x \<in> Id ` set xs" using that(1) offered_fst [of v e p xs] by blast
    then have "fst x \<notin> Id ` set ys" using assms(1) by auto
    with that assms(2,3) pid show ?thesis by (simp add: synced_def)
  qed
  with assms(2,3) pid show ?thesis
    by (auto simp: synced_def ap off wanted_def same_peer_def same_store_def ball_Un image_Un)
qed

text \<open>
  What the exchange relies on: a far end that is \<open>ready\<close> starts the stream, and while the
  stream is \<open>live\<close> it answers every batch truthfully for the set \<open>has\<close> of messages.
\<close>

locale diff_target =
  fixes N :: "'r diff_remote"
    and ready :: "'r \<Rightarrow> bool"
    and live :: "'r \<Rightarrow> bool"
    and has :: "string \<Rightarrow> bool"
  assumes starts: "ready R \<Longrightarrow> \<exists>R'. d_open N R = (R', None) \<and> live R'"
    and truthful: "live R \<Longrightarrow> \<exists>R'. d_batch N R ids = (R', Inr (Some (map has ids))) \<and> live R'"
    and finishes: "live R \<Longrightarrow> \<exists>R'. d_finish N R = (R', None)"
begin

lemma diff_batches_step:
  assumes "if opened then live R else ready R" and "offered v e p (take batchSize ms) \<noteq> []"
  shows "\<exists>R'. diff_batches v e N None opened p R ms =
    diff_batches v e N None True
      (answers v e has (offered v e p (take batchSize ms)) p) R' (drop batchSize ms) \<and> live R'"
proof -
  let ?items = "offered v e p (take batchSize ms)"
  obtain R1 where R1: "(if opened then (R, None) else d_open N R) = (R1, None)" "live R1"
    using assms(1) starts [of R] by (cases opened) auto
  obtain R2 where R2: "d_batch N R1 (map fst ?items) = (R2, Inr (Some (map has (map fst ?items))))" "live R2"
    using truthful [OF R1(2)] by blast
  from R1(1) R2 assms(2) show ?thesis
    by (intro exI [of _ R2]) (subst diff_batches.simps, simp add: Let_def offered_def answers_def comp_def)
qed

lemma diff_batches_synced:
  assumes "codec_ok v" and "quiet e" and "distinct (map Id ms)" and "no_gap v e p ms"
    and "if opened then live R else ready R"
    and "fs_wf (st_fs (p_store p))" and "\<forall>m \<in> set ms. Id m \<noteq> '''' \<and> is_dir (st_fs (p_store p)) (messageDir (Id m))"
  shows "\<exists>q R' o'. diff_batches v e N None opened p R ms = (q, R', o', None) \<and> synced v e has p ms q \<and> (o' \<longrightarrow> live R')"
  using assms(3-7)
proof (induction ms arbitrary: opened p R rule: length_induct)
  case (1 ms)
  show ?case
  proof (cases "ms = []")
    case True
    then show ?thesis using "1.prems"(3)
      by (subst diff_batches.simps) (simp add: synced_def offered_def wanted_def same_peer_def same_store_def List.map_filter_simps)
  next
    case False
    let ?hd = "take batchSize ms" and ?tl = "drop batchSize ms"
    let ?q = "answers v e has (offered v e p ?hd) p"
    note fr = answers_props [OF "1.prems"(4), where v = v and e = e and has = has and items = "offered v e p ?hd"]
    have dis: "distinct (map Id (?hd @ ?tl))" using "1.prems"(1) by simp
    then have hd: "synced v e has p ?hd ?q"
      using "1.prems"(4,5) by (intro answers_synced [OF assms(1,2)]) (simp_all only: map_append distinct_append, auto dest: in_set_takeD)
    have "batch_item v e ?q m = batch_item v e p m" if "m \<in> set ?tl" for m
    proof (rule synced_item [OF hd])
      have "Id ` set ?hd \<inter> Id ` set ?tl = {}" using dis unfolding map_append distinct_append set_map by blast
      with that show "Id m \<notin> Id ` set ?hd" by blast
    qed
    then have gap: "no_gap v e ?q ?tl"
      using no_gap_drop [OF "1.prems"(2)] unfolding no_gap_def by (metis in_set_dropD in_set_takeD)
    obtain R1 where st: "diff_batches v e N None opened p R ms = diff_batches v e N None True ?q R1 ?tl" "live R1"
      using diff_batches_step [OF "1.prems"(3) no_gap_head [OF "1.prems"(2) False]] by blast
    have "length ?tl < length ms" using False by (simp add: batchSize_def)
    moreover have "\<forall>m \<in> set ?tl. Id m \<noteq> '''' \<and> is_dir (st_fs (p_store ?q)) (messageDir (Id m))"
      using "1.prems"(5) fr(2) by (metis in_set_dropD)
    moreover have "distinct (map Id ?tl)" using dis unfolding map_append distinct_append by blast
    ultimately obtain q R' o' where q: "diff_batches v e N None True ?q R1 ?tl = (q, R', o', None)"
      "synced v e has ?q ?tl q" "o' \<longrightarrow> live R'" using "1.IH" gap fr(1) st(2) by (metis (full_types))
    from synced_append [OF dis hd q(2)] st q(1,3) show ?thesis by auto
  qed
qed

lemma exchange:
  assumes "ready R" and "codec_ok v" and "quiet e" and "Manifest v e (p_store p) = Inr ms"
    and "distinct (map Id ms)" and "no_gap v e p ms" and "fs_wf (st_fs (p_store p))"
    and "\<forall>m \<in> set ms. Id m \<noteq> '''' \<and> is_dir (st_fs (p_store p)) (messageDir (Id m))"
  shows "\<exists>q R'. diffAndEnqueue v e N None p R = (q, R', None) \<and> synced v e has p ms q"
proof -
  obtain q R' o' where d: "diff_batches v e N None False p R ms = (q, R', o', None)" "synced v e has p ms q" "o' \<longrightarrow> live R'"
    using diff_batches_synced [OF assms(2,3,5,6) _ assms(7,8), of False R] assms(1) by auto
  then obtain R2 where "o' \<longrightarrow> d_finish N R' = (R2, None)" using finishes by metis
  with d assms(4) show ?thesis by (cases o') (auto simp: diffAndEnqueue_def)
qed

end

text \<open>
  The handler \<open>Diff\<close> of a node at the other end of the stream: the handler runs up to its first
  receive when the stream is opened, then once around its loop for every batch; a handler
  that refused the call has ended the stream.
\<close>

definition node_diff :: "lib \<Rightarrow> env \<Rightarrow> sec_call \<Rightarrow> (Messenger \<times> err option) diff_remote" where
  "node_diff L e call =
     \<lparr>d_open = (\<lambda>R. (authorize_in L (now e) (fst R) call, None)),
      d_batch = (\<lambda>R ids. (R, Inr (if snd R = None then Some (map (Exists e (store (fst R))) ids) else None))),
      d_finish = (\<lambda>R. (R, snd R))\<rparr>"

fun run_batches :: "'r diff_remote \<Rightarrow> 'r \<Rightarrow> string list list \<Rightarrow> bool list list" where
  "run_batches N R [] = []"
| "run_batches N R (ids # batches) =
     (case d_batch N R ids of (R, Inr (Some rs)) \<Rightarrow> rs # run_batches N R batches | _ \<Rightarrow> [])"

lemma node_diff_is_Diff:
  assumes "d_open (node_diff L e call) (M, er0) = (R, None)"
  shows "Diff L e (\<lambda>_. e) (\<lambda>_. None) M call batches =
    (fst R, run_batches (node_diff L e call) R batches, snd (d_finish (node_diff L e call) R))"
proof -
  obtain M' er where a: "authorize_in L (now e) M call = (M', er)" by force
  have "diff_loop (\<lambda>_. e) (\<lambda>_. None) n (store M') batches = (run_batches (node_diff L e call) (M', None) batches, None)" for n
    by (induction batches arbitrary: n) (simp_all add: node_diff_def)
  moreover have "run_batches (node_diff L e call) (M', Some x) batches = []" for x
    by (cases batches) (simp_all add: node_diff_def)
  ultimately show ?thesis using assms a by (cases er) (auto simp: Diff_def node_diff_def)
qed

interpretation node_diff: diff_target "node_diff L e call"
  "\<lambda>R. store (fst R) = s \<and> snd (Authorize L (now e) (RateAclIn (params (fst R))) call) = None"
  "\<lambda>R. store (fst R) = s \<and> snd R = None" "Exists e s" for L e call s
proof (unfold_locales, goal_cases)
  case (1 R)
  then obtain M' where "authorize_in L (now e) (fst R) call = (M', None)" using authorize_in_ok by blast
  with 1 authorize_in_keeps [OF this] show ?case by (simp add: node_diff_def)
qed (simp_all add: node_diff_def)


text \<open>
  A full batch of consecutive manifest entries with nothing to offer ends the
  exchange: whatever follows in the manifest is neither offered nor queued, and the exchange
  reports success.
\<close>

theorem diffAndEnqueue_stops_at_gap:
  assumes "Manifest v e (p_store p) = Inr (ms @ later)" and "length ms = 256"
    and "\<forall>m \<in> set ms. batch_item v e p m = None"
  shows "diffAndEnqueue v e N None p R = (p, R, None)"
proof -
  have "List.map_filter (batch_item v e p) (take batchSize (ms @ later)) = []"
    using assms(2,3) by (auto simp: batchSize_def List.map_filter_def filter_empty_conv)
  then have "diff_batches v e N None False p R (ms @ later) = (p, R, False, None)"
    by (subst diff_batches.simps) (simp add: Let_def)
  with assms(1) show ?thesis by (simp add: diffAndEnqueue_def)
qed

section \<open>Witnesses\<close>

text \<open>A store with the given complete messages.\<close>

definition store_of :: "codec \<Rightarrow> message list \<Rightarrow> storage" where
  "store_of v msgs = \<lparr>st_fs = \<lparr>fs_dirs = ('''', []) # map (\<lambda>i. (messageDir (Id (msgs ! i)),
       [(messageFileName, i), (doneFileName, length msgs + i)])) [0..<length msgs],
       fs_data = (\<lambda>i. if i < length msgs then enc_msg v (msgs ! i) else ''done''), fs_next = 2 * length msgs\<rparr>,
     busy = {}\<rparr>"

definition plain_ids :: "message list \<Rightarrow> bool" where
  "plain_ids msgs \<longleftrightarrow> distinct (map Id msgs) \<and> '''' \<notin> set (map Id msgs)"

lemma store_of_dir:
  assumes "plain_ids msgs" and "i < length msgs"
  shows "map_of (fs_dirs (st_fs (store_of v msgs))) (messageDir (Id (msgs ! i))) =
    Some [(messageFileName, i), (doneFileName, length msgs + i)]"
proof -
  have "Id (msgs ! i) \<noteq> ''''" using assms by (metis length_map nth_map nth_mem plain_ids_def)
  moreover have "distinct (map (\<lambda>i. messageDir (Id (msgs ! i))) [0..<length msgs])"
    using assms(1) by (auto simp: distinct_map inj_on_def plain_ids_def distinct_conv_nth)
  then have "map_of (map (\<lambda>i. (messageDir (Id (msgs ! i)), [(messageFileName, i), (doneFileName, length msgs + i)]))
      [0..<length msgs]) (messageDir (Id (msgs ! i))) = Some [(messageFileName, i), (doneFileName, length msgs + i)]"
    using assms(2) by (intro map_of_is_SomeI) (auto simp: comp_def)
  ultimately show ?thesis by (auto simp: store_of_def)
qed

lemma store_of_entry:
  assumes "plain_ids msgs" and "i < length msgs" and "codec_ok v" and "quiet e"
  shows "manifest_entry v e (store_of v msgs) (messageDir (Id (msgs ! i))) =
    (if Expired (now e) (msgs ! i) = None then Some (msgs ! i) else None)"
proof -
  have "fs_find (st_fs (store_of v msgs)) (messageDir (Id (msgs ! i))) doneFileName = Some (length msgs + i)"
    "fs_find (st_fs (store_of v msgs)) (messageDir (Id (msgs ! i))) messageFileName = Some i"
    by (simp_all add: fs_find_def store_of_dir [OF assms(1,2)])
  moreover have "fs_data (st_fs (store_of v msgs)) i = enc_msg v (msgs ! i)" using assms(2) by (simp add: store_of_def)
  ultimately show ?thesis using assms(3,4)
    by (simp add: manifest_entry_def isComplete_def fs_exists_def readMessage_def quiet_def codec_ok_def)
qed

lemma store_of_manifest:
  assumes "plain_ids msgs" and "codec_ok v" and "quiet e" and "\<forall>m \<in> set msgs. Expired (now e) m = None"
  shows "Manifest v e (store_of v msgs) = Inr msgs"
proof -
  have ne: "Id (msgs ! i) \<noteq> ''''" if "i < length msgs" for i
    using assms(1) that by (metis length_map nth_map nth_mem plain_ids_def)
  have "fs_readdir (st_fs (store_of v msgs)) = map (\<lambda>i. messageDir (Id (msgs ! i))) [0..<length msgs]"
    using ne by (auto simp: fs_readdir_def store_of_def comp_def filter_id_conv)
  moreover have "map (\<lambda>i. manifest_entry v e (store_of v msgs) (messageDir (Id (msgs ! i)))) [0..<length msgs]
      = map Some msgs"
    using store_of_entry [OF assms(1) _ assms(2,3)] assms(4) by (intro nth_equalityI) auto
  moreover have "List.map_filter f xs = List.map_filter (\<lambda>x. x) (map f xs)" for f :: "string \<Rightarrow> message option" and xs
    by (induction xs) (auto simp: List.map_filter_simps split: option.splits)
  moreover have "List.map_filter (\<lambda>x. x) (map Some msgs) = msgs"
    by (induction msgs) (auto simp: List.map_filter_simps)
  moreover have "is_dir (st_fs (store_of v msgs)) ''''" by (simp add: is_dir_def store_of_def)
  ultimately show ?thesis using assms(3) by (simp add: Manifest_def quiet_def comp_def)
qed

lemma store_of_no_info:
  assumes "plain_ids msgs" and "m \<in> set msgs"
  shows "getPeerInfo v e (store_of v msgs) (Id m) peer = zero_PeerInfo"
proof -
  obtain i where "i < length msgs" "m = msgs ! i" using assms(2) by (auto simp: in_set_conv_nth)
  with store_of_dir [OF assms(1)] show ?thesis by (simp add: getPeerInfo_def fs_find_def)
qed

lemma zero_PeerInfo_simps [simp]: "Sent zero_PeerInfo = False" "FatalError zero_PeerInfo = False"
  by (simp_all add: zero_PeerInfo_def)

theorem diffAndEnqueue_stops_at_gap_witness:
  "\<exists>p. \<exists>msgs. Manifest text_codec ex_env (p_store p) = Inr (msgs @ [ex_msg\<lparr>Hops := []\<rparr>])
     \<and> checkHops p (ex_msg\<lparr>Hops := []\<rparr>) = None
     \<and> diffAndEnqueue text_codec ex_env (node_diff ex_lib ex_env ex_self) None p (ex_node, None) = (p, (ex_node, None), None)"
proof -
  define msgs where "msgs = map (\<lambda>k. ex_msg\<lparr>Id := replicate (Suc k) (CHR ''a'')\<rparr>) [0..<256]"
  define p where "p = (ex_peer (store_of text_codec (msgs @ [ex_msg\<lparr>Hops := []\<rparr>])))\<lparr>peerId := ''alice''\<rparr>"
  have "''m1'' \<noteq> replicate (Suc k) (CHR ''a'')" for k by (cases k) auto
  then have ids: "plain_ids (msgs @ [ex_msg\<lparr>Hops := []\<rparr>])"
    by (auto simp: plain_ids_def msgs_def distinct_map inj_on_def comp_def replicate_eq_replicate image_iff simp del: replicate.simps)
  have man: "Manifest text_codec ex_env (p_store p) = Inr (msgs @ [ex_msg\<lparr>Hops := []\<rparr>])"
    unfolding p_def ex_peer_def
    using store_of_manifest [OF ids text_codec_ok ex_env_simps(3)] by (simp add: msgs_def Expired_def)
  have "batch_item text_codec ex_env p m = None" if "m \<in> set msgs" for m
    using that by (auto simp: batch_item_def checkHops_def p_def msgs_def Let_def)
  with diffAndEnqueue_stops_at_gap [OF man, of "node_diff ex_lib ex_env ex_self" "(ex_node, None)"]
  have "diffAndEnqueue text_codec ex_env (node_diff ex_lib ex_env ex_self) None p (ex_node, None) = (p, (ex_node, None), None)" by (auto simp: msgs_def)
  moreover have "checkHops p (ex_msg\<lparr>Hops := []\<rparr>) = None" by (simp add: checkHops_def p_def ex_peer_def ex_node_def)
  ultimately show ?thesis using man by blast
qed


end
