(* ===== verification/MsgLoop.thy ===== *)
theory MsgLoop
  imports DiffSync
begin

text \<open>
  The goroutine of a peer as a whole (\<open>msgLoop\<close> of \<^verbatim>\<open>src/internal/peers.go\<close>): the
  manifest exchange is repeated until it succeeds or the peer is stopped, and then the
  identifiers that come out of the queue are handled one after the other.
\<close>

section \<open>The loop\<close>

text \<open>
  \<open>f a n\<close> is the call of \<open>diffAndEnqueue\<close> in the attempt \<open>a\<close> (and the retry \<open>n\<close> within
  \<open>backoff\<close>), \<open>t a\<close> the time at which that attempt fails, and \<open>halt a\<close> whether the peer is
  stopped during the wait that follows.  The result says whether the exchange succeeded.
\<close>

definition diff_failed :: "time \<Rightarrow> peer \<times> 'r \<Rightarrow> peer \<times> 'r" where
  "diff_failed t s = ((fst s)\<lparr>p_errors := Incr t 1 (p_errors (fst s))\<rparr>, snd s)"

partial_function (option) diff_phase ::
  "(verror_id \<Rightarrow> action) \<Rightarrow> (nat \<Rightarrow> nat \<Rightarrow> peer \<times> 'r \<Rightarrow> (peer \<times> 'r) \<times> err option) \<Rightarrow> (nat \<Rightarrow> time) \<Rightarrow> (nat \<Rightarrow> bool) \<Rightarrow> nat \<Rightarrow>
    peer \<times> 'r \<Rightarrow> ((peer \<times> 'r) \<times> bool) option"
where
  "diff_phase va f t halt a s =
     do {
       x \<leftarrow> backoff va (f a) 0 s;
       if snd x = None then Some (fst x, True)
       else if halt a then Some (diff_failed (t a) (fst x), False)
       else diff_phase va f t halt (Suc a) (diff_failed (t a) (fst x))
     }"

definition diff_attempt :: "codec \<Rightarrow> env \<Rightarrow> 'r diff_remote \<Rightarrow> nat option \<Rightarrow> peer \<times> 'r \<Rightarrow> (peer \<times> 'r) \<times> err option" where
  "diff_attempt v e N budget s = (case diffAndEnqueue v e N budget (fst s) (snd s) of (p, R, er) \<Rightarrow> ((p, R), er))"

text \<open>The rounds for the identifiers that \<open>Pop\<close> delivers until the peer is stopped.\<close>

fun msg_rounds :: "codec \<Rightarrow> lib \<Rightarrow> (nat \<Rightarrow> env \<times> nat) \<Rightarrow> 'r remote \<Rightarrow> nat \<Rightarrow> string list \<Rightarrow> peer \<Rightarrow> 'r \<Rightarrow> (peer \<times> 'r) option" where
  "msg_rounds v L E N n [] p R = Some (p, R)"
| "msg_rounds v L E N n (msgId # ids) p R =
     do {
       x \<leftarrow> msg_round v L (fst (E n)) (snd (E n)) N p R msgId;
       msg_rounds v L E N (Suc n) ids (fst x) (snd x)
     }"

definition msgLoop :: "codec \<Rightarrow> lib \<Rightarrow> (nat \<Rightarrow> nat \<Rightarrow> env \<times> nat option) \<Rightarrow> (nat \<Rightarrow> bool) \<Rightarrow> (nat \<Rightarrow> env \<times> nat) \<Rightarrow>
    'r diff_remote \<Rightarrow> 'r remote \<Rightarrow> string list \<Rightarrow> peer \<Rightarrow> 'r \<Rightarrow> (peer \<times> 'r) option" where
  "msgLoop v L X halt E Nd N ids p R =
     do {
       y \<leftarrow> diff_phase (verror_action L) (\<lambda>a n. diff_attempt v (fst (X a n)) Nd (snd (X a n))) (\<lambda>a. now (fst (X a 0))) halt 0 (p, R);
       if snd y then msg_rounds v L E N 0 ids (fst (fst y)) (snd (fst y)) else Some (fst y)
     }"

section \<open>Its first phase\<close>

text \<open>The state before the attempt \<open>k\<close>, if the earlier ones failed.\<close>

fun before_attempt :: "(verror_id \<Rightarrow> action) \<Rightarrow> (nat \<Rightarrow> nat \<Rightarrow> peer \<times> 'r \<Rightarrow> (peer \<times> 'r) \<times> err option) \<Rightarrow> (nat \<Rightarrow> time) \<Rightarrow> nat \<Rightarrow>
    peer \<times> 'r \<Rightarrow> nat \<Rightarrow> (peer \<times> 'r) option" where
  "before_attempt va f t a s 0 = Some s"
| "before_attempt va f t a s (Suc k) =
     do {
       x \<leftarrow> backoff va (f a) 0 s;
       if snd x = None then None else before_attempt va f t (Suc a) (diff_failed (t a) (fst x)) k
     }"

lemma diff_phase_succeeds:
  assumes "before_attempt va f t a s k = Some s'" and "\<And>j. j < k \<Longrightarrow> \<not> halt (a + j)"
    and "backoff va (f (a + k)) 0 s' = Some (s'', None)"
  shows "diff_phase va f t halt a s = Some (s'', True)"
  using assms
proof (induction k arbitrary: a s)
  case 0
  then show ?case by (subst diff_phase.simps) simp
next
  case (Suc k)
  obtain x where x: "backoff va (f a) 0 s = Some x" "snd x \<noteq> None"
    "before_attempt va f t (Suc a) (diff_failed (t a) (fst x)) k = Some s'"
    using Suc.prems(1) by (auto simp: Option.bind_eq_Some_conv split: if_splits)
  have "diff_phase va f t halt (Suc a) (diff_failed (t a) (fst x)) = Some (s'', True)"
    by (rule Suc.IH [OF x(3)]) (use Suc.prems(2) [of "Suc _"] Suc.prems(3) in auto)
  then show ?case using x(1,2) Suc.prems(2) [of 0] by (subst diff_phase.simps) auto
qed

section \<open>No message is forgotten by the rounds\<close>

text \<open>
  Whatever the rounds do, what is in the queue stays there: only \<open>Pop\<close>, which handed out the
  identifiers, removes elements.
\<close>

lemma msg_round_queue:
  assumes "msg_round v L e rnd N p R msgId = Some (p', R')" and "fs_wf (st_fs (p_store p))"
  shows "set (queue p) \<subseteq> set (queue p') \<and> peerId p' = peerId p"
proof -
  let ?i = "getPeerInfo v e (p_store p) msgId (peerId p)"
  show ?thesis
  proof (cases "Sent ?i \<or> FatalError ?i \<or> now e < NextAttempt ?i")
    case True
    then show ?thesis using assms(1) by (auto simp: msg_round_def enqueue_def Let_def split: if_splits)
  next
    case False
    then obtain p1 R1 er where pm: "pushMessage v L e N p R msgId = Some (p1, R1, er)"
      using assms(1) by (auto simp: msg_round_def Let_def Option.bind_eq_Some_conv)
    obtain p2 i2 where pr: "push_result e rnd er msgId (?i\<lparr>NumAttempts := inc32 (NumAttempts ?i)\<rparr>) p1 = (p2, i2)" by force
    have p': "p' = (count_error e i2 p2)\<lparr>p_store := fst (SetPeerInfo v e (p_store (count_error e i2 p2)) msgId (peerId (count_error e i2 p2)) i2)\<rparr>"
      using assms(1) False pm pr by (simp add: msg_round_def Let_def)
    have "queue (count_error e i2 p2) = queue p2" "peerId (count_error e i2 p2) = peerId p2" by (simp_all add: count_error_def)
    with p' push_result_cases(2) [OF pr] pushMessage_store [OF pm assms(2)] show ?thesis by simp
  qed
qed

end
