(* ===== verification/Sync.thy ===== *)
theory Sync
  imports MsgLoop
begin

text \<open>
  What the goroutine of a peer achieves: after the exchange of the manifests and one round for
  every queued message the other node has all the messages that may go to it.
\<close>

section \<open>What a push changes\<close>

lemma push_recv_frame:
  assumes "push_recv E n m w sz ps = (m', w', sz', er)" and "writer_at (store m) w msg"
  shows "touches (Id msg) (store m) (store m') \<and> writer_at (store m') w' msg
    \<and> RateAclIn (params m') = RateAclIn (params m) \<and> RateAclSender (params m') = RateAclSender (params m)"
  using assms
proof (induction ps arbitrary: n m w sz)
  case Nil
  then show ?case by (auto simp: writer_at_def intro: touches_refl)
next
  case (Cons p ps)
  obtain s1 w1 er1 where w: "Write (E n) (store m) w p = (s1, w1, er1)" by (metis prod_cases3)
  note t = Write_touches [OF w Cons.prems(2)]
  show ?case
  proof (cases er1)
    case None
    let ?m = "(set_store s1 m)\<lparr>counters := (counters m)\<lparr>numBytesReceived :=
        Incr (now (E n)) (int (length p)) (numBytesReceived (counters m))\<rparr>\<rparr>"
    have "push_recv E (Suc n) ?m w1 (sz + int (length p)) ps = (m', w', sz', er)" using Cons.prems(1) w None by simp
    from Cons.IH [OF this] t show ?thesis by (auto simp: set_store_def intro: touches_trans)
  qed (use Cons.prems(1) w t in \<open>auto simp: set_store_def\<close>)
qed

lemma push_start_frame:
  assumes "push_start v L e m call msg off = (m', r)" and "fs_wf (st_fs (store m))"
  shows "touches (Id msg) (store m) (store m')" and "r = Inr w \<Longrightarrow> writer_at (store m') w msg"
proof -
  obtain s w' where o: "OpenWrite v e (store m) msg off = (s, w')" by force
  show "touches (Id msg) (store m) (store m')"
    using assms(1) o OpenWrite_touches(1) [OF o assms(2)] touches_refl [OF assms(2)]
    by (auto simp: push_start_def Let_def set_store_def split: prod.splits option.splits if_splits
        dest!: authorize_in_keeps authorize_sender_keeps)
  show "writer_at (store m') w msg" if "r = Inr w"
    using assms(1) o OpenWrite_touches(2) [OF o assms(2)] that
    by (auto simp: push_start_def Let_def set_store_def split: prod.splits option.splits if_splits
        dest!: authorize_in_keeps authorize_sender_keeps)
qed

lemma push_start_rates:
  assumes "push_start v L e m call msg off = (m', r)" and "snd (Authorize L (now e) (RateAclIn (params m)) call) = None"
  shows "RateAclIn (params m') = fst (Authorize L (now e) (RateAclIn (params m)) call)
    \<and> RateAclSender (params m') = fst (Authorize L (now e) (RateAclSender (params m)) (sender_call call msg))"
  using assms
  by (auto simp: push_start_def Let_def set_store_def authorize_in_def authorize_sender_def
      split: prod.splits option.splits if_splits)

lemma Push_frame:
  assumes "Push v L e E e' m call msg off ps serr = (m', er)" and "fs_wf (st_fs (store m))" and "Id msg \<noteq> ''''"
  shows "touches (Id msg) (store m) (store m')"
    and "snd (Authorize L (now e) (RateAclIn (params m)) call) = None \<Longrightarrow>
      RateAclIn (params m') = fst (Authorize L (now e) (RateAclIn (params m)) call)
      \<and> RateAclSender (params m') = fst (Authorize L (now e) (RateAclSender (params m)) (sender_call call msg))"
proof -
  obtain m1 x where s: "push_start v L e m call msg off = (m1, x)" by force
  note f1 = push_start_frame [OF s assms(2)] and r1 = push_start_rates [OF s]
  have "touches (Id msg) (store m1) (store m') \<and> RateAclIn (params m') = RateAclIn (params m1)
      \<and> RateAclSender (params m') = RateAclSender (params m1)"
  proof (cases x)
    case (Inl er1)
    with assms(1) s f1(1) show ?thesis by (auto simp: Push_def intro: touches_refl touches_wf)
  next
    case (Inr w)
    obtain m2 w2 sz er2 where r: "push_recv E 0 m1 w 0 ps = (m2, w2, sz, er2)" by (metis prod_cases4)
    note f2 = push_recv_frame [OF r f1(2) [OF Inr]]
    obtain s3 er3 where c: "Close e' (store m2) w2 = (s3, er3)" by force
    have "touches (Id msg) (store m1) s3" using f2 Close_touches [OF c _ assms(3)] touches_trans by blast
    moreover have "store m' = s3 \<and> RateAclIn (params m') = RateAclIn (params m2) \<and> RateAclSender (params m') = RateAclSender (params m2)"
      using assms(1) s Inr r c
      by (auto simp: Push_def push_end_def close_quietly_def set_store_def split: option.splits if_splits)
    ultimately show ?thesis using f2 by simp
  qed
  with f1(1) r1 show "touches (Id msg) (store m) (store m')"
    and "snd (Authorize L (now e) (RateAclIn (params m)) call) = None \<Longrightarrow>
      RateAclIn (params m') = fst (Authorize L (now e) (RateAclIn (params m)) call)
      \<and> RateAclSender (params m') = fst (Authorize L (now e) (RateAclSender (params m)) (sender_call call msg))"
    by (auto intro: touches_trans)
qed

section \<open>A node that lets a sequence of pushes through\<close>

text \<open>The access lists let a sequence of calls through one after the other.\<close>

fun accepts_all :: "lib \<Rightarrow> time \<Rightarrow> RateAcl \<Rightarrow> sec_call list \<Rightarrow> bool" where
  "accepts_all L t r [] \<longleftrightarrow> True"
| "accepts_all L t r (c # cs) \<longleftrightarrow> snd (Authorize L t r c) = None \<and> accepts_all L t (fst (Authorize L t r c)) cs"

text \<open>The counters after a sequence of calls.\<close>

definition charged :: "lib \<Rightarrow> time \<Rightarrow> RateAcl \<Rightarrow> sec_call list \<Rightarrow> RateAcl" where
  "charged L t r cs = fold (\<lambda>c r. fst (Authorize L t r c)) cs r"

lemma charged_simps [simp]: "charged L t r [] = r" "charged L t r (c # cs) = charged L t (fst (Authorize L t r c)) cs"
  by (simp_all add: charged_def)

lemma accepts_all_append: "accepts_all L t r (cs @ cs') \<longleftrightarrow> accepts_all L t r cs \<and> accepts_all L t (charged L t r cs) cs'"
  by (induction cs arbitrary: r) auto

definition passes :: "lib \<Rightarrow> env \<Rightarrow> Messenger \<Rightarrow> message \<Rightarrow> bool" where
  "passes L e M m \<longleftrightarrow> Validate (PublicKey L) (Verify L) (now e) m = None
     \<and> \<not> (MaxHops (params M) > 0 \<and> int (length (Hops m)) > MaxHops (params M))
     \<and> \<not> (MaxMessageLength (params M) > 0 \<and> Length m > MaxMessageLength (params M))"

text \<open>
  What a node holds of a message that it does not have, the metadata it will keep, and the
  calls it takes to complete it: one push, or a refused push, a question for the offset and
  a second push.
\<close>

definition held_part :: "codec \<Rightarrow> Messenger \<Rightarrow> message \<Rightarrow> bytes" where
  "held_part v M m = (case fs_view v (store M) (Id m) of Partial m0 b \<Rightarrow> b | _ \<Rightarrow> [])"

definition held_meta :: "codec \<Rightarrow> Messenger \<Rightarrow> message \<Rightarrow> message" where
  "held_meta v M m = (case fs_view v (store M) (Id m) of Partial m0 b \<Rightarrow> m0 | _ \<Rightarrow> m)"

definition all_calls :: "codec \<Rightarrow> sec_call \<Rightarrow> Messenger \<Rightarrow> message \<Rightarrow> sec_call list" where
  "all_calls v call M m = (if held_part v M m = [] then [call] else [call, call, call])"

definition push_calls :: "codec \<Rightarrow> sec_call \<Rightarrow> Messenger \<Rightarrow> message \<Rightarrow> sec_call list" where
  "push_calls v call M m = (let c = sender_call call m in if held_part v M m = [] then [c] else [c, c])"

definition welcomes :: "codec \<Rightarrow> lib \<Rightarrow> env \<Rightarrow> sec_call \<Rightarrow> Messenger \<Rightarrow> message list \<Rightarrow> bool" where
  "welcomes v L e call M ms \<longleftrightarrow> accepts_all L (now e) (RateAclIn (params M)) (concat (map (all_calls v call M) ms))
     \<and> accepts_all L (now e) (RateAclSender (params M)) (concat (map (push_calls v call M) ms)) \<and> list_all (passes L e M) ms"

text \<open>The counters of the access lists and the limits of a node after some calls.\<close>

definition billed :: "lib \<Rightarrow> env \<Rightarrow> Messenger \<Rightarrow> Messenger \<Rightarrow> sec_call list \<Rightarrow> sec_call list \<Rightarrow> bool" where
  "billed L e M M' ins pushes \<longleftrightarrow> RateAclIn (params M') = charged L (now e) (RateAclIn (params M)) ins
     \<and> RateAclSender (params M') = charged L (now e) (RateAclSender (params M)) pushes
     \<and> MaxHops (params M') = MaxHops (params M) \<and> MaxMessageLength (params M') = MaxMessageLength (params M)"

lemma billed_trans: "billed L e M M' i s \<Longrightarrow> billed L e M' M'' i' s' \<Longrightarrow> billed L e M M'' (i @ i') (s @ s')"
  by (simp add: billed_def charged_def)

lemma welcomes_admitted:
  assumes "welcomes v L e call M (m # ms)"
  shows "admitted L e M call m"
    and "held_part v M m \<noteq> [] \<Longrightarrow> billed L e M M' [call] [sender_call call m] \<Longrightarrow> snd (Authorize L (now e) (RateAclIn (params M')) call) = None"
    and "held_part v M m \<noteq> [] \<Longrightarrow> billed L e M M' [call, call] [sender_call call m] \<Longrightarrow> admitted L e M' call m"
  using assms by (auto simp: welcomes_def admitted_def passes_def all_calls_def push_calls_def billed_def Let_def split: if_splits)

lemma welcomes_rest:
  assumes "welcomes v L e call M (m # ms)" and "billed L e M M' (all_calls v call M m) (push_calls v call M m)"
    and "\<forall>m' \<in> set ms. held_part v M' m' = held_part v M m'"
  shows "welcomes v L e call M' ms"
proof -
  have "map (all_calls v call M') ms = map (all_calls v call M) ms" "map (push_calls v call M') ms = map (push_calls v call M) ms"
    using assms(3) by (simp_all add: all_calls_def push_calls_def)
  moreover have "passes L e M' = passes L e M" using assms(2) by (simp add: passes_def billed_def fun_eq_iff)
  ultimately show ?thesis using assms(1,2) by (simp add: welcomes_def billed_def accepts_all_append del: map_eq_conv)
qed

lemma Push_billed:
  assumes "Push v L e E e' M call m off cs serr = (M', er)" and "admitted L e M call m"
    and "fs_wf (st_fs (store M))" and "Id m \<noteq> ''''"
  shows "billed L e M M' [call] [sender_call call m]"
  using Push_frame(2) [OF assms(1,3,4)] Push_limits [OF assms(1)] assms(2) by (simp add: billed_def admitted_def)

lemma Offset_touches:
  assumes "Offset e s mid = (s', r)" and "fs_wf (st_fs s)"
  shows "touches mid s s'"
  using assms touches_lock [OF assms(2)] by (auto simp: Offset_def intro: touches_unlock touches_refl split: sum.splits)

lemma ResumeOffset_frame:
  assumes "ResumeOffset L e M call m = (M', r)" and "snd (Authorize L (now e) (RateAclIn (params M)) call) = None"
    and "fs_wf (st_fs (store M))"
  shows "touches (Id m) (store M) (store M')" and "billed L e M M' [call] []"
proof -
  obtain M1 er1 where a: "authorize_in L (now e) M call = (M1, er1)" by force
  note k = authorize_in_keeps [OF a]
  have "er1 = None" using k assms(2) by simp
  moreover obtain s x where o: "Offset e (store M1) (Id m) = (s, x)" by force
  ultimately have M': "M' = set_store s M1" using assms(1) a by (simp add: ResumeOffset_def)
  show "touches (Id m) (store M) (store M')" using Offset_touches [OF o] k M' assms(3) by simp
  show "billed L e M M' [call] []" using k M' by (simp add: billed_def)
qed

section \<open>Rounds that deliver\<close>

text \<open>The pushes next to the stream of the exchange, which is over.\<close>

definition with_stream :: "'r remote \<Rightarrow> ('r \<times> 'x) remote" where
  "with_stream N =
     \<lparr>rpc_push = (\<lambda>R m off cs fin. case rpc_push N (fst R) m off cs fin of (M, x) \<Rightarrow> ((M, snd R), x)),
      rpc_offset = (\<lambda>R m. case rpc_offset N (fst R) m of (M, x) \<Rightarrow> ((M, snd R), x))\<rparr>"

interpretation streamed: push_target "with_stream (node_remote v L e call)" "\<lambda>R. admitted L e (fst R) call"
  "\<lambda>R _. snd (Authorize L (now e) (RateAclIn (params (fst R))) call) = None"
  "\<lambda>R. node_holds v e (fst R)" "\<lambda>R. node_stored v e (fst R)" "\<lambda>R. notifier (fst R)" for v L e call
proof (unfold_locales, goal_cases)
  case (1 R m m0 b cs)
  then show ?case using node.push_rest [of L e "fst R" call m v m0 b cs] by (fastforce simp: with_stream_def)
next
  case (2 R m m0 b off cs)
  then show ?case using node.push_elsewhere [of L e "fst R" call m v m0 b off cs] by (fastforce simp: with_stream_def)
next
  case (3 R m m0 b)
  then show ?case using node.offset_of [of L e "fst R" call v m m0 b] by (fastforce simp: with_stream_def)
qed

definition due :: "codec \<Rightarrow> env \<Rightarrow> peer \<Rightarrow> message \<Rightarrow> bool" where
  "due v e p m \<longleftrightarrow> (let info = getPeerInfo v e (p_store p) (Id m) (peerId p)
     in \<not> Sent info \<and> \<not> FatalError info \<and> NextAttempt info \<le> now e)"

text \<open>What a round does after a push that succeeded.\<close>

lemma round_sent:
  assumes "has_message v e p msg content" and "due v e p msg"
    and "pushMessage v L e N p R (Id msg) = Some (set_bytes_sent h p, R', None)"
  shows "\<exists>p'. msg_round v L e rnd N p R (Id msg) = Some (p', R') \<and> same_peer p p' \<and> same_store v e p p'
    \<and> touches (Id msg) (p_store p) (p_store p') \<and> Sent (getPeerInfo v e (p_store p') (Id msg) (peerId p))"
proof -
  let ?i = "getPeerInfo v e (p_store p) (Id msg) (peerId p)"
  have i: "quiet e" "codec_ok v" "fs_wf (st_fs (p_store p))" "Id msg \<noteq> ''''" "is_dir (st_fs (p_store p)) (messageDir (Id msg))"
    using assms(1) by (auto simp: has_message_def fs_idle_def fs_view_simps dest: stored_msg_dir)
  define j where "j = ?i\<lparr>NumAttempts := inc32 (NumAttempts ?i), Sent := True\<rparr>"
  obtain s where s: "SetPeerInfo v e (p_store p) (Id msg) (peerId p) j = (s, None)"
    using quiet_create [OF i(1,5), of "peerFile (peerId p)"] i(1,4) by (auto simp: SetPeerInfo_def quiet_def)
  obtain p' where "msg_round v L e rnd N p R (Id msg) = Some (p', R')" "p_store p' = s" "same_peer p p'"
    using assms(2,3) s
    by (auto simp: msg_round_def due_def push_result_def count_error_def set_bytes_sent_def j_def same_peer_def Let_def)
  moreover have "getPeerInfo v e s (Id msg) (peerId p) = j" by (rule PeerInfo_get_set [OF i(2,3) s i(1)])
  ultimately show ?thesis
    using SetPeerInfo_views [OF s i(3,4)] SetPeerInfo_touches [OF s i(3)] by (auto simp: same_store_def j_def)
qed

context push_target
begin

lemma round_delivers:
  assumes "has_message v e p msg content" and "due v e p msg"
    and "accepts R (with_hop p msg)" and "holds R (with_hop p msg) m0 []"
  shows "\<exists>p' R' cs. msg_round v L e rnd N p R (Id msg) = Some (p', R') \<and> stored R' (with_hop p msg) m0 content
    \<and> announced R' = map_option (\<lambda>ms. ms @ [with_hop p msg]) (announced R)
    \<and> rpc_push N R (with_hop p msg) 0 cs True = (R', Finished None)
    \<and> same_peer p p' \<and> same_store v e p p' \<and> touches (Id msg) (p_store p) (p_store p')
    \<and> Sent (getPeerInfo v e (p_store p') (Id msg) (peerId p))"
  using delivers [OF assms(1,3,4), of L] round_sent [OF assms(1,2), of L N R _ _ rnd] by blast

lemma round_redelivers:
  assumes "has_message v e p msg content" and "due v e p msg"
    and "accepts R (with_hop p msg)" and "holds R (with_hop p msg) m0 b" and "b \<noteq> []" and "prefix b content"
    and "rpc_push N R (with_hop p msg) 0 (chunks 2048 content) True = (R1, o1)" and "answers R1 (with_hop p msg)"
    and "rpc_offset N R1 (with_hop p msg) = (R2, o2)" and "accepts R2 (with_hop p msg)"
  shows "\<exists>p' R' cs. msg_round v L e rnd N p R (Id msg) = Some (p', R') \<and> stored R' (with_hop p msg) m0 content
    \<and> announced R' = map_option (\<lambda>ms. ms @ [with_hop p msg]) (announced R)
    \<and> rpc_push N R2 (with_hop p msg) (int (length b)) cs True = (R', Finished None)
    \<and> same_peer p p' \<and> same_store v e p p' \<and> touches (Id msg) (p_store p) (p_store p')
    \<and> Sent (getPeerInfo v e (p_store p') (Id msg) (peerId p))"
  using redelivers [OF assms(1,3-10), of L] round_sent [OF assms(1,2), of L N R _ _ rnd] by blast

end

text \<open>A message that waits for the node, which has nothing or the beginning of it.\<close>

definition lacks :: "codec \<Rightarrow> env \<Rightarrow> Messenger \<Rightarrow> bytes \<Rightarrow> message \<Rightarrow> bool" where
  "lacks v e' M b m \<longleftrightarrow> node_holds v e' M m (held_meta v M m) (held_part v M m) \<and> prefix (held_part v M m) b"

definition waiting :: "codec \<Rightarrow> env \<Rightarrow> env \<Rightarrow> peer \<Rightarrow> Messenger \<Rightarrow> (message \<Rightarrow> bytes) \<Rightarrow> message \<Rightarrow> bool" where
  "waiting v e e' p M c m \<longleftrightarrow> has_message v e p m (c m) \<and> due v e p m \<and> lacks v e' M (c m) (with_hop p m)"

lemma touches_part:
  assumes "touches i (store M) (store M')" and "Id m \<noteq> i" and "Id m \<noteq> ''''" and "i \<noteq> ''''"
  shows "held_part v M' m = held_part v M m" and "held_meta v M' m = held_meta v M m" and "lacks v e M b m \<Longrightarrow> lacks v e M' b m"
proof -
  note o = touches_other(1,2) [OF assms]
  show p: "held_part v M' m = held_part v M m" "held_meta v M' m = held_meta v M m" by (simp_all add: held_part_def held_meta_def o(1))
  show "lacks v e M b m \<Longrightarrow> lacks v e M' b m" using o by (simp add: lacks_def node_holds_def resumable_def p)
qed

lemma waiting_idle: "waiting v e e' p M c m \<Longrightarrow> fs_idle v e' (store M) (Id m) \<and> fs_wf (st_fs (store M)) \<and> Id m \<noteq> ''''"
  by (simp add: waiting_def lacks_def node_holds_def fs_idle_def)

lemma waiting_other:
  assumes "waiting v e e' p M c m" and "same_peer p p'" and "same_store v e p p'" and "touches i (p_store p) (p_store p')"
    and "touches i (store M) (store M')" and "Id m \<noteq> i" and "i \<noteq> ''''"
  shows "waiting v e e' p' M' c m"
proof -
  have m: "Id m \<noteq> ''''" using waiting_idle [OF assms(1)] by simp
  have h: "with_hop p' m = with_hop p m" using assms(2) by (simp add: same_peer_def with_hop_def)
  have "lacks v e' M' (c m) (with_hop p m)"
    using assms(1) touches_part(3) [OF assms(5), of "with_hop p m"] assms(6,7) m by (simp add: waiting_def)
  then show ?thesis
    using assms(1-3) touches_other(4) [OF assms(4,6) m assms(7)] h
    by (simp add: waiting_def has_message_def due_def same_peer_def same_store_def)
qed

definition delivered :: "codec \<Rightarrow> env \<Rightarrow> peer \<Rightarrow> (message \<Rightarrow> bytes) \<Rightarrow> Messenger \<Rightarrow> message \<Rightarrow> peer \<Rightarrow> Messenger \<Rightarrow> bool" where
  "delivered v e p c M m p' M' \<longleftrightarrow> fs_view v (store M') (Id m) = Complete (held_meta v M (with_hop p m)) (c m)
     \<and> Sent (getPeerInfo v e (p_store p') (Id m) (peerId p))"

definition untouched :: "codec \<Rightarrow> env \<Rightarrow> peer \<Rightarrow> Messenger \<Rightarrow> peer \<Rightarrow> Messenger \<Rightarrow> string \<Rightarrow> bool" where
  "untouched v e p M p' M' j \<longleftrightarrow> fs_view v (store M') j = fs_view v (store M) j
     \<and> getPeerInfo v e (p_store p') j (peerId p) = getPeerInfo v e (p_store p) j (peerId p)"

text \<open>The far end of a round that finds the beginning of the message there: a refused push and a question.\<close>

lemma resume_calls:
  assumes "lacks v e' M b m" and "held_part v M m \<noteq> []" and "welcomes v L e' call M (m # ms)" and "quiet e'"
    and "rpc_push (node_remote v L e' call) M m 0 cs True = (M1, o1)"
    and "rpc_offset (node_remote v L e' call) M1 m = (M2, o2)"
  shows "snd (Authorize L (now e') (RateAclIn (params M1)) call) = None" and "admitted L e' M2 call m"
    and "touches (Id m) (store M) (store M2)" and "billed L e' M M2 [call, call] [sender_call call m]"
proof -
  have i: "fs_wf (st_fs (store M))" "Id m \<noteq> ''''" using assms(1) by (simp_all add: lacks_def node_holds_def fs_idle_def)
  note a = welcomes_admitted [OF assms(3)]
  obtain er where p: "Push v L e' (\<lambda>_. e') e' M call m 0 cs None = (M1, er)"
    using assms(5) by (auto simp: node_remote_def split: prod.splits)
  have r: "ResumeOffset L e' M1 call m = (M2, o2)" using assms(6) by (simp add: node_remote_def)
  note b1 = Push_billed [OF p a(1) i] and t1 = Push_frame(1) [OF p i]
  show au: "snd (Authorize L (now e') (RateAclIn (params M1)) call) = None" by (rule a(2) [OF assms(2) b1])
  note f2 = ResumeOffset_frame [OF r au touches_wf [OF t1]]
  show "billed L e' M M2 [call, call] [sender_call call m]" using billed_trans [OF b1 f2(2)] by simp
  then show "admitted L e' M2 call m" by (rule a(3) [OF assms(2)])
  show "touches (Id m) (store M) (store M2)" by (rule touches_trans [OF t1 f2(1)])
qed

lemma stream_round:
  assumes "waiting v e e' p M c m" and "welcomes v L e' call M (with_hop p m # ms)"
  shows "\<exists>p' M'. msg_round v L e rnd (with_stream (node_remote v L e' call)) p (M, x) (Id m) = Some (p', (M', x))
    \<and> delivered v e p c M m p' M' \<and> notifier M' = map_option (\<lambda>ns. ns @ [with_hop p m]) (notifier M)
    \<and> same_peer p p' \<and> same_store v e p p' \<and> touches (Id m) (p_store p) (p_store p')
    \<and> touches (Id m) (store M) (store M')
    \<and> billed L e' M M' (all_calls v call M (with_hop p m)) (push_calls v call M (with_hop p m))"
proof -
  let ?N = "with_stream (node_remote v L e' call)" and ?m = "with_hop p m"
  let ?k = "held_meta v M ?m" and ?b = "held_part v M ?m"
  have hm: "has_message v e p m (c m)" and du: "due v e p m" and lk: "lacks v e' M (c m) ?m"
    and h: "node_holds v e' (fst (M, x)) ?m ?k ?b" and px: "prefix ?b (c m)" and i: "fs_wf (st_fs (store M))" "Id ?m \<noteq> ''''" "quiet e'"
    using assms(1) waiting_idle [OF assms(1)] by (auto simp: waiting_def lacks_def fs_idle_def)
  have adm: "admitted L e' (fst (M, x)) call ?m" using welcomes_admitted(1) [OF assms(2)] by simp
  have fin: "\<exists>M''. R = (M'', x) \<and> touches (Id m) (store M') (store M'') \<and> billed L e' M' M'' [call] [sender_call call ?m]"
    if pu: "rpc_push ?N (M', x) ?m off cs True = (R, Finished None)" "admitted L e' M' call ?m" "fs_wf (st_fs (store M'))" for M' R off cs
  proof -
    obtain M'' where M'': "R = (M'', x)" "Push v L e' (\<lambda>_. e') e' M' call ?m off cs None = (M'', None)"
      using pu(1) by (auto simp: with_stream_def node_remote_def split: prod.splits)
    from Push_frame(1) [OF M''(2) pu(3) i(2)] Push_billed [OF M''(2) pu(2,3) i(2)] M''(1) show ?thesis by simp
  qed
  show ?thesis
  proof (cases "?b = []")
    case True
    obtain p1 R1 cs where r: "msg_round v L e rnd ?N p (M, x) (Id m) = Some (p1, R1)" "node_stored v e' (fst R1) ?m ?k (c m)"
      "notifier (fst R1) = map_option (\<lambda>ns. ns @ [?m]) (notifier M)" "rpc_push ?N (M, x) ?m 0 cs True = (R1, Finished None)"
      "same_peer p p1 \<and> same_store v e p p1 \<and> touches (Id m) (p_store p) (p_store p1)
       \<and> Sent (getPeerInfo v e (p_store p1) (Id m) (peerId p))"
      using streamed.round_delivers [OF hm du adm h [unfolded True], of L rnd] by auto
    have "all_calls v call M ?m = [call]" "push_calls v call M ?m = [sender_call call ?m]"
      using True by (simp_all add: all_calls_def push_calls_def)
    with r fin [OF r(4) _ i(1)] adm show ?thesis by (auto simp: delivered_def node_stored_def)
  next
    case False
    obtain M1 o1 where p1: "rpc_push (node_remote v L e' call) M ?m 0 (chunks 2048 (c m)) True = (M1, o1)" by force
    obtain M2 o2 where p2: "rpc_offset (node_remote v L e' call) M1 ?m = (M2, o2)" by force
    note rc = resume_calls [OF lk False assms(2) i(3) p1 p2]
    have q: "rpc_push ?N (M, x) ?m 0 (chunks 2048 (c m)) True = ((M1, x), o1)" "rpc_offset ?N (M1, x) ?m = ((M2, x), o2)"
      using p1 p2 by (simp_all add: with_stream_def)
    obtain p3 R3 cs where r: "msg_round v L e rnd ?N p (M, x) (Id m) = Some (p3, R3)" "node_stored v e' (fst R3) ?m ?k (c m)"
      "notifier (fst R3) = map_option (\<lambda>ns. ns @ [?m]) (notifier M)" "rpc_push ?N (M2, x) ?m (int (length ?b)) cs True = (R3, Finished None)"
      "same_peer p p3 \<and> same_store v e p p3 \<and> touches (Id m) (p_store p) (p_store p3)
       \<and> Sent (getPeerInfo v e (p_store p3) (Id m) (peerId p))"
      using streamed.round_redelivers [OF hm du adm h False px q(1) _ q(2), of L rnd] rc(1,2) by auto
    obtain M3 where f: "R3 = (M3, x)" "touches (Id m) (store M2) (store M3)" "billed L e' M2 M3 [call] [sender_call call ?m]"
      using fin [OF r(4) rc(2) touches_wf [OF rc(3)]] by blast
    have "billed L e' M M3 (all_calls v call M ?m) (push_calls v call M ?m)"
      using billed_trans [OF rc(4) f(3)] False by (simp add: all_calls_def push_calls_def Let_def)
    moreover have "touches (Id m) (store M) (store M3)" using touches_trans [OF rc(3)] f(2) by simp
    ultimately show ?thesis using r f(1) by (auto simp: delivered_def node_stored_def)
  qed
qed

lemma rounds_deliver:
  assumes "distinct (map Id ms)" and "\<forall>m \<in> set ms. waiting v e e' p M c m"
    and "welcomes v L e' call M (map (with_hop p) ms)"
  shows "\<exists>p' M'. msg_rounds v L (\<lambda>_. (e, rnd)) (with_stream (node_remote v L e' call)) n (map Id ms) p (M, x) = Some (p', (M', x))
    \<and> (\<forall>m \<in> set ms. delivered v e p c M m p' M') \<and> notifier M' = map_option (\<lambda>ns. ns @ map (with_hop p) ms) (notifier M)
    \<and> (\<forall>j. j \<noteq> '''' \<and> j \<notin> Id ` set ms \<longrightarrow> untouched v e p M p' M' j)"
  using assms
proof (induction ms arbitrary: n p M)
  case Nil
  then show ?case by (cases "notifier M") (simp_all add: untouched_def)
next
  case (Cons m ms)
  let ?N = "with_stream (node_remote v L e' call)"
  have wm: "waiting v e e' p M c m" using Cons.prems(2) by simp
  then have mid: "Id m \<noteq> ''''" using waiting_idle by blast
  obtain p1 M1 where r: "msg_round v L e rnd ?N p (M, x) (Id m) = Some (p1, (M1, x))" "delivered v e p c M m p1 M1"
    "notifier M1 = map_option (\<lambda>ns. ns @ [with_hop p m]) (notifier M)"
    and fr: "same_peer p p1" "same_store v e p p1" "touches (Id m) (p_store p) (p_store p1)" "touches (Id m) (store M) (store M1)"
    and bl: "billed L e' M M1 (all_calls v call M (with_hop p m)) (push_calls v call M (with_hop p m))"
    using stream_round [OF wm, of L call "map (with_hop p) ms" rnd x] Cons.prems(3) by auto
  have hop: "with_hop p1 = with_hop p" "peerId p1 = peerId p"
    using fr(1) by (simp_all add: fun_eq_iff with_hop_def same_peer_def)
  have ne: "\<forall>m' \<in> set ms. Id m' \<noteq> Id m \<and> Id m' \<noteq> ''''" using Cons.prems(1,2) waiting_idle by (auto simp: image_iff)
  have pk: "held_part v M1 (with_hop p m') = held_part v M (with_hop p m')" "held_meta v M1 (with_hop p m') = held_meta v M (with_hop p m')"
    if "m' \<in> set ms" for m' using touches_part(1,2) [OF fr(4), of "with_hop p m'"] ne mid that by simp_all
  have w: "welcomes v L e' call M1 (map (with_hop p) ms)"
    using welcomes_rest [OF _ bl, of "map (with_hop p) ms"] Cons.prems(3) pk(1) by simp
  have "\<forall>m' \<in> set ms. waiting v e e' p1 M1 c m'"
    using Cons.prems(2) waiting_other [OF _ fr _ mid] ne by simp
  then obtain p' M' where rs: "msg_rounds v L (\<lambda>_. (e, rnd)) ?N (Suc n) (map Id ms) p1 (M1, x) = Some (p', (M', x))"
    "\<forall>m \<in> set ms. delivered v e p c M m p' M'" "notifier M' = map_option (\<lambda>ns. ns @ map (with_hop p) ms) (notifier M1)"
    "\<forall>j. j \<noteq> '''' \<and> j \<notin> Id ` set ms \<longrightarrow> untouched v e p1 M1 p' M' j"
    using Cons.IH [of p1 M1 "Suc n"] Cons.prems(1) w pk(2) unfolding delivered_def hop by auto
  have dm: "delivered v e p c M m p' M'" using rs(4) r(2) Cons.prems(1) mid hop by (simp add: delivered_def untouched_def)
  have "untouched v e p M p1 M1 j" if "j \<noteq> ''''" "j \<noteq> Id m" for j
    using touches_other(1) [OF fr(4) that(2,1) mid] touches_other(4) [OF fr(3) that(2,1) mid] by (simp add: untouched_def)
  with rs(4) hop have "\<forall>j. j \<noteq> '''' \<and> j \<notin> Id ` set (m # ms) \<longrightarrow> untouched v e p M p' M' j" by (simp add: untouched_def)
  moreover have "notifier M' = map_option (\<lambda>ns. ns @ map (with_hop p) (m # ms)) (notifier M)"
    using rs(3) r(3) by (cases "notifier M") simp_all
  ultimately show ?case using r(1) rs(1,2) dm by simp
qed

section \<open>The whole loop\<close>

lemma node_diff_far:
  assumes "diffAndEnqueue v e (node_diff L e' call) budget p (M, None) = (q, R, er)"
  shows "R = (M, None) \<or> R = authorize_in L (now e') M call"
proof -
  have "R' = R \<or> (\<not> opened \<and> R' = authorize_in L (now e') (fst R) call)"
    if "diff_batches v e (node_diff L e' call) budget opened p R ms = (q, R', o', er)" for opened p q R R' o' er ms budget
    using that
  proof (induction ms arbitrary: budget opened p R rule: length_induct)
    case (1 ms)
    show ?case
    proof (cases "ms = []")
      case True
      then show ?thesis using "1.prems" by (auto simp: diff_batches.simps [of v e _ budget opened p R] List.map_filter_simps split: if_splits)
    next
      case False
      then have "length (drop batchSize ms) < length ms" by (simp add: batchSize_def)
      with "1.IH" have IH: "diff_batches v e (node_diff L e' call) b True p' R'' (drop batchSize ms) = (q, R', o', er) \<Longrightarrow> R' = R''" for b p' R''
        by blast
      show ?thesis using "1.prems" by (subst (asm) diff_batches.simps)
          (auto simp: Let_def node_diff_def [of L e' call] dest!: IH [unfolded node_diff_def] split: if_splits option.splits)
    qed
  qed
  from this [of budget False p "(M, None)"] assms show ?thesis
    by (auto simp: diffAndEnqueue_def node_diff_def Let_def split: sum.splits prod.splits option.splits bool.splits)
qed

lemma offered_iff:
  assumes "inj_on Id (set ms)" and "m \<in> set ms"
  shows "(\<exists>x \<in> set (offered v e p ms). fst x = Id m) \<longleftrightarrow> batch_item v e p m \<noteq> None"
proof
  assume "\<exists>x \<in> set (offered v e p ms). fst x = Id m"
  then obtain x m' where x: "m' \<in> set ms" "batch_item v e p m' = Some x" "fst x = Id m"
    by (auto simp: offered_def in_map_filter)
  then have "m' = m" using assms inj_onD [OF assms(1)] batch_item_Id [OF x(2)] by metis
  with x(2) show "batch_item v e p m \<noteq> None" by simp
next
  assume "batch_item v e p m \<noteq> None"
  then obtain x where x: "batch_item v e p m = Some x" by blast
  with assms(2) have "x \<in> set (offered v e p ms)" by (auto simp: offered_def in_map_filter)
  with batch_item_Id [OF x] show "\<exists>x \<in> set (offered v e p ms). fst x = Id m" by blast
qed

text \<open>What is in the queue after the exchange is what the other node misses.\<close>

lemma queue_missing:
  assumes "synced v e has p ms q" and "queue p = []" and "map q_msgId (queue q) = map Id ms'"
    and "distinct (map Id ms)" and "set ms' \<subseteq> set ms"
  shows "distinct (map Id ms')" and "m \<in> set ms \<Longrightarrow> m \<in> set ms' \<longleftrightarrow> batch_item v e p m \<noteq> None \<and> \<not> has (Id m)"
proof -
  have "mset (map Id ms') = mset (map q_msgId (wanted has (offered v e p ms)))"
    using assms(1,2) unfolding assms(3) [symmetric] by (simp add: synced_def)
  also have "map q_msgId (wanted has (offered v e p ms)) = map fst (filter (\<lambda>x. \<not> has (fst x)) (offered v e p ms))"
    by (simp add: wanted_def comp_def case_prod_unfold)
  finally have m: "mset (map Id ms') = mset (map fst (filter (\<lambda>x. \<not> has (fst x)) (offered v e p ms)))" .
  have "distinct (map fst (filter (\<lambda>x. \<not> has (fst x)) (offered v e p ms)))"
    using distinct_offered [OF assms(4), of v e p] by (auto simp: distinct_map inj_on_def)
  then show "distinct (map Id ms')" using mset_eq_imp_distinct_iff [OF m] by blast
  have ids: "Id ` set ms' = {i. \<exists>x \<in> set (offered v e p ms). fst x = i \<and> \<not> has i}"
    using mset_eq_setD [OF m] by auto
  have inj: "inj_on Id (set ms)" using assms(4) by (simp add: distinct_map)
  show "m \<in> set ms' \<longleftrightarrow> batch_item v e p m \<noteq> None \<and> \<not> has (Id m)" if "m \<in> set ms"
  proof -
    have "m \<in> set ms' \<longleftrightarrow> Id m \<in> Id ` set ms'" using inj_on_image_mem_iff [OF inj that assms(5)] by blast
    also have "\<dots> \<longleftrightarrow> (\<exists>x \<in> set (offered v e p ms). fst x = Id m) \<and> \<not> has (Id m)" unfolding ids by blast
    also have "(\<exists>x \<in> set (offered v e p ms). fst x = Id m) \<longleftrightarrow> batch_item v e p m \<noteq> None"
      by (rule offered_iff [OF inj that])
    finally show ?thesis .
  qed
qed

lemma complete_exists: "fs_view v s j = Complete m b \<Longrightarrow> quiet e \<Longrightarrow> j \<noteq> '''' \<Longrightarrow> Exists e s j"
  by (simp add: Exists_def quiet_isComplete fs_view_simps)

lemma absent_not_exists: "Exists e s j \<Longrightarrow> quiet e \<Longrightarrow> j \<noteq> '''' \<Longrightarrow> fs_view v s j \<noteq> Absent \<and> fs_view v s j \<noteq> Partial m b"
  by (auto simp: Exists_def quiet_isComplete fs_view_simps)

text \<open>What a node may hold of a message that another one offers: all of it, or nothing or a part that can be completed.\<close>

definition agrees :: "codec \<Rightarrow> env \<Rightarrow> Messenger \<Rightarrow> bytes \<Rightarrow> message \<Rightarrow> bool" where
  "agrees v e' M b m \<longleftrightarrow> fs_idle v e' (store M) (Id m)
     \<and> ((\<exists>m0 b0. fs_view v (store M) (Id m) = Complete m0 b0) \<or> lacks v e' M b m)"

lemma agrees_Exists:
  assumes "agrees v e' M b m"
  shows "Exists e' (store M) (Id m) \<longleftrightarrow> (\<exists>m0 b0. fs_view v (store M) (Id m) = Complete m0 b0)"
    and "\<not> Exists e' (store M) (Id m) \<Longrightarrow> lacks v e' M b m"
proof -
  have i: "quiet e'" "Id m \<noteq> ''''" using assms by (auto simp: agrees_def fs_idle_def)
  show "Exists e' (store M) (Id m) \<longleftrightarrow> (\<exists>m0 b0. fs_view v (store M) (Id m) = Complete m0 b0)"
    using assms absent_not_exists [OF _ i] complete_exists [OF _ i] by (auto simp: agrees_def lacks_def node_holds_def resumable_def)
  then show "\<not> Exists e' (store M) (Id m) \<Longrightarrow> lacks v e' M b m" using assms by (auto simp: agrees_def)
qed

lemma same_holdings:
  assumes "store M' = store M"
  shows "held_part v M' = held_part v M" and "held_meta v M' = held_meta v M" and "lacks v e M' = lacks v e M"
    and "all_calls v call M' = all_calls v call M" and "push_calls v call M' = push_calls v call M"
  using assms by (simp_all add: fun_eq_iff held_part_def held_meta_def lacks_def node_holds_def all_calls_def push_calls_def)

lemma synced_sent:
  assumes "synced v e has p ms q" and "has (Id m)" and "m \<in> set ms" and "batch_item v e p m \<noteq> None"
  shows "Sent (getPeerInfo v e (p_store q) (Id m) (peerId p))"
proof -
  obtain x where "batch_item v e p m = Some x" using assms(4) by blast
  with assms(3) have "x \<in> set (offered v e p ms)" "fst x = Id m" by (auto simp: offered_def in_map_filter dest: batch_item_Id)
  with assms(1,2) show ?thesis by (auto simp: synced_def)
qed

lemma arrived:
  assumes "synced v e (Exists e' (store M)) p ms q" and "m \<in> set ms" and "batch_item v e p m \<noteq> None"
    and "agrees v e' M b (with_hop p m)" and "store M1 = store M"
    and "if Exists e' (store M) (Id m) then Id m \<noteq> '''' \<longrightarrow> untouched v e q M1 p' M' (Id m) else delivered v e q c M1 m p' M'"
  shows "Exists e' (store M') (Id m) \<and> Sent (getPeerInfo v e (p_store p') (Id m) (peerId p))"
proof -
  have i: "quiet e'" "Id m \<noteq> ''''" using assms(4) by (auto simp: agrees_def fs_idle_def)
  have pid: "peerId q = peerId p" using assms(1) by (simp add: synced_def same_peer_def)
  show ?thesis
  proof (cases "Exists e' (store M) (Id m)")
    case True
    with agrees_Exists(1) [OF assms(4)] obtain m0 b0 where "fs_view v (store M) (Id m) = Complete m0 b0" by auto
    with True synced_sent [OF assms(1) True assms(2,3)] assms(5,6) i pid show ?thesis
      by (auto simp: untouched_def dest: complete_exists)
  qed (use assms(6) i pid in \<open>auto simp: delivered_def dest: complete_exists\<close>)
qed

lemma exchange_with_node:
  assumes "Manifest v e (p_store p) = Inr ms" and "distinct (map Id ms)" and "no_gap v e p ms"
    and "codec_ok v" and "quiet e" and "fs_wf (st_fs (p_store p))" and "\<forall>m \<in> set ms. \<exists>b. has_message v e p m b"
    and "diffAndEnqueue v e (node_diff L e' call) None p (M, None) = (q, (M1, x), er)"
    and "accepts_all L (now e') (RateAclIn (params M)) (call # concat (map (all_calls v call M) (map (with_hop p) ms')))"
    and "welcomes v L e' call M (map (with_hop p) ms')"
  shows "er = None \<and> synced v e (Exists e' (store M)) p ms q \<and> store M1 = store M \<and> notifier M1 = notifier M
    \<and> welcomes v L e' call M1 (map (with_hop p) ms')"
proof -
  have "Id m \<noteq> '''' \<and> is_dir (st_fs (p_store p)) (messageDir (Id m))" if "m \<in> set ms" for m
    using assms(7) that by (auto simp: has_message_def fs_idle_def fs_view_simps dest: stored_msg_dir)
  then have "\<exists>q R'. diffAndEnqueue v e (node_diff L e' call) None p (M, None) = (q, R', None)
      \<and> synced v e (Exists e' (store M)) p ms q"
    by (intro node_diff.exchange [OF _ assms(4,5,1-3,6)]) (use assms(9) in auto)
  moreover have "store M1 = store M \<and> notifier M1 = notifier M \<and> welcomes v L e' call M1 (map (with_hop p) ms')"
  proof (cases "M1 = M")
    case False
    then have a: "authorize_in L (now e') M call = (M1, x)" using node_diff_far [OF assms(8)] by auto
    note k = authorize_in_keeps [OF a]
    have h: "all_calls v call M1 = all_calls v call M" "push_calls v call M1 = push_calls v call M"
      using same_holdings(4,5) [of M1 M] k by simp_all
    show ?thesis using k assms(9,10) by (simp add: welcomes_def h passes_def list_all_iff)
  qed (use assms(10) in simp)
  ultimately show ?thesis using assms(8) by auto
qed

lemma exchange_waiting:
  assumes "synced v e (Exists e' (store M)) p ms q" and "queue p = []" and "map q_msgId (queue q) = map Id ms'"
    and "distinct (map Id ms)" and "set ms' \<subseteq> set ms"
    and "\<forall>m \<in> set ms. has_message v e p m (c m) \<and> NextAttempt (getPeerInfo v e (p_store p) (Id m) (peerId p)) \<le> now e"
    and "\<forall>m \<in> set ms. agrees v e' M (c m) (with_hop p m)"
    and "store M1 = store M" and "m \<in> set ms'"
  shows "waiting v e e' q M1 c m"
proof -
  have m: "m \<in> set ms" "batch_item v e p m \<noteq> None" "\<not> Exists e' (store M) (Id m)"
    using assms(5,9) queue_missing(2) [OF assms(1-5)] by auto
  have s: "same_peer p q" "same_store v e p q" using assms(1) by (simp_all add: synced_def)
  have "lacks v e' M (c m) (with_hop p m)" using agrees_Exists(2) [of v e' M "c m" "with_hop p m"] assms(7) m(1,3) by simp
  then have "lacks v e' M1 (c m) (with_hop q m)"
    using same_holdings(3) [OF assms(8)] s(1) by (simp add: same_peer_def with_hop_def)
  moreover have "getPeerInfo v e (p_store q) (Id m) (peerId p) = getPeerInfo v e (p_store p) (Id m) (peerId p)"
    using assms(1) m(3) by (simp add: synced_def)
  ultimately show ?thesis using m assms(6) s
    by (auto simp: waiting_def due_def has_message_def same_peer_def same_store_def batch_item_def Let_def split: if_splits)
qed


section \<open>Two small nodes\<close>

definition ex_full :: storage where
  "ex_full = \<lparr>st_fs = \<lparr>fs_dirs = [('''', []), (messageDir ''m1'', [(messageFileName, 0), (contentFileName, 1), (doneFileName, 2)])],
     fs_data = (\<lambda>i. if i = 0 then enc_msg text_codec ex_msg else if i = 1 then ''hi'' else ''done''), fs_next = 3\<rparr>, busy = {}\<rparr>"

lemma ex_full_find:
  "fs_find (st_fs ex_full) d n = (if d = messageDir ''m1'' then
     (if n = messageFileName then Some 0 else if n = contentFileName then Some 1 else if n = doneFileName then Some 2 else None) else None)"
  by (simp add: ex_full_def fs_find_def)

lemma ex_full_facts:
  "fs_wf (st_fs ex_full)" "getPeerInfo text_codec ex_env ex_full ''m1'' peer = zero_PeerInfo"
  "Manifest text_codec ex_env ex_full = Inr [ex_msg]" "has_message text_codec ex_env (ex_peer ex_full) ex_msg ''hi''"
proof -
  have names: "messageFileName \<noteq> contentFileName" "messageFileName \<noteq> doneFileName" "contentFileName \<noteq> doneFileName"
    "peerFile peer \<noteq> messageFileName" "peerFile peer \<noteq> contentFileName" "peerFile peer \<noteq> doneFileName"
    by (simp_all add: messageFileName_def contentFileName_def doneFileName_def peerFile_def)
  show wf: "fs_wf (st_fs ex_full)" by (auto simp: fs_wf_def ex_full_find split: if_splits) (simp_all add: ex_full_def)
  show "getPeerInfo text_codec ex_env ex_full ''m1'' peer = zero_PeerInfo" by (simp add: getPeerInfo_def ex_full_find names)
  have msg: "readMessage text_codec ex_env ex_full ''m1'' = Inr ex_msg"
    using text_codec_ok by (simp add: readMessage_def ex_full_find codec_ok_def) (simp add: ex_full_def codec_ok_def)
  have "isComplete ex_env ex_full ''m1''" by (simp add: isComplete_def fs_exists_def ex_full_find names)
  then have "manifest_entry text_codec ex_env ex_full (messageDir ''m1'') = Some ex_msg"
    using msg by (simp add: manifest_entry_def Expired_def)
  then show "Manifest text_codec ex_env ex_full = Inr [ex_msg]"
    by (simp add: Manifest_def is_dir_def fs_readdir_def List.map_filter_simps) (simp add: ex_full_def List.map_filter_simps)
  have "stored_msg text_codec (st_fs ex_full) ''m1'' = Some ex_msg" using quiet_readMessage [OF ex_env_simps(3)] msg by simp
  then have "fs_view text_codec ex_full ''m1'' = Complete ex_msg ''hi''"
    using names by (simp add: fs_view_simps fs_read_def ex_full_find) (simp add: ex_full_def)
  then show "has_message text_codec ex_env (ex_peer ex_full) ex_msg ''hi''"
    using wf text_codec_ok ex_env_simps(3) by (simp add: has_message_def ex_peer_def fs_idle_def ex_full_find Expired_def) (simp add: ex_full_def)
qed

lemma ex_item: "batch_item text_codec ex_env (ex_peer ex_full) ex_msg = Some (''m1'', zero_PeerInfo\<lparr>NextAttempt := 0\<rparr>)"
  using ex_full_facts(2)
  by (simp add: batch_item_def checkHops_def ex_peer_def ex_node_def zero_PeerInfo_def IsZero_def)

lemma ex_no_gap: "no_gap text_codec ex_env (ex_peer ex_full) [ex_msg]"
  unfolding no_gap_def batchSize_def
proof (intro allI impI)
  fix k
  assume "drop (k * 256) [ex_msg] \<noteq> []"
  then have "k = 0" by simp
  with ex_item show "\<exists>m \<in> set (take 256 (drop (k * 256) [ex_msg])). batch_item text_codec ex_env (ex_peer ex_full) m \<noteq> None" by simp
qed

lemma ex_absent: "fs_idle text_codec ex_env (store ex_node) ''m1''" "fs_view text_codec (store ex_node) ''m1'' = Absent"
  using ex_idle init_idle(2) by auto

text \<open>A node that received the first byte of the message before its transfer was cut.\<close>

lemma ex_cut_node:
  "\<exists>M. fs_idle text_codec ex_env (store M) ''m1'' \<and> fs_view text_codec (store M) ''m1'' = Partial ex_msg ''h''
     \<and> MaxHops (params M) = 3 \<and> MaxMessageLength (params M) = 100 \<and> notifier M = Some []"
proof -
  obtain s where s: "fs_idle text_codec ex_env s ''m1''" "fs_view text_codec s ''m1'' = Partial ex_msg ''h''" using ex_partial by blast
  show ?thesis by (intro exI [of _ "set_store s ex_node"]) (use s ex_node_limits in \<open>simp add: ex_node_def\<close>)
qed

lemma ex_accepts: "Authorize ex_lib t r ex_self = (r, None)" "set cs \<subseteq> {ex_self} \<Longrightarrow> accepts_all ex_lib t r cs"
proof -
  have "same_key ex_lib ex_self" by (simp add: same_key_def ex_lib_def ex_self_def)
  then show a: "Authorize ex_lib t r ex_self = (r, None)" for t r by (simp add: Authorize_def)
  show "set cs \<subseteq> {ex_self} \<Longrightarrow> accepts_all ex_lib t r cs" by (induction cs) (simp_all add: a)
qed

lemma ex_welcomes:
  assumes "MaxHops (params M) = 3" and "MaxMessageLength (params M) = 100"
  shows "welcomes text_codec ex_lib ex_env ex_self M [with_hop (ex_peer s) ex_msg]"
    and "accepts_all ex_lib t r (ex_self # concat (map (all_calls text_codec ex_self M) ms))"
proof -
  have "sender_call ex_self (with_hop (ex_peer s) ex_msg) = ex_self"
    by (simp add: sender_call_def ex_self_def ex_msg_def with_hop_def)
  then show "welcomes text_codec ex_lib ex_env ex_self M [with_hop (ex_peer s) ex_msg]"
    using ex_self_admitted(2) [OF assms, of s]
    by (simp add: welcomes_def admitted_def passes_def all_calls_def push_calls_def ex_accepts)
  show "accepts_all ex_lib t r (ex_self # concat (map (all_calls text_codec ex_self M) ms))"
    by (rule ex_accepts(2)) (auto simp: all_calls_def split: if_splits)
qed

lemma ex_exchange:
  assumes "fs_view text_codec (store M) ''m1'' = Partial ex_msg ''h''"
  shows "\<exists>q R. diffAndEnqueue text_codec ex_env (node_diff ex_lib ex_env ex_self) None (ex_peer ex_full) (M, None) = (q, R, None)
     \<and> map q_msgId (queue q) = [''m1'']"
proof -
  let ?p = "ex_peer ex_full" and ?has = "Exists ex_env (store M)"
  have s: "p_store ?p = ex_full" "queue ?p = []" by (simp_all add: ex_peer_def)
  obtain q R where q: "diffAndEnqueue text_codec ex_env (node_diff ex_lib ex_env ex_self) None ?p (M, None) = (q, R, None)"
    "synced text_codec ex_env ?has ?p [ex_msg] q"
    using exchange_with_node [of text_codec ex_env ?p "[ex_msg]" ex_lib ex_env ex_self M _ _ _ _ "[]"]
      ex_full_facts(1,3,4) ex_no_gap text_codec_ok ex_env_simps(3) ex_accepts(1) s
    by (cases "diffAndEnqueue text_codec ex_env (node_diff ex_lib ex_env ex_self) None ?p (M, None)")
      (auto simp: welcomes_def)
  have "\<not> ?has ''m1''" using absent_not_exists [of ex_env "store M" "''m1''" text_codec ex_msg "''h''"] assms ex_env_simps(3) by auto
  then have "wanted ?has (offered text_codec ex_env ?p [ex_msg]) = [\<lparr>q_t = 0, q_msgId = ''m1''\<rparr>]"
    using ex_item by (simp add: offered_def List.map_filter_simps wanted_def)
  with q(2) s(2) have "queue q = [\<lparr>q_t = 0, q_msgId = ''m1''\<rparr>]" by (simp add: synced_def)
  with q(1) show ?thesis by simp
qed


end
