(* ===== verification/Spread.thy ===== *)
theory Spread
  imports Sync
begin

text \<open>
  How a message spreads over several nodes: the handler \<open>Push\<close> of a node publishes what it
  received, the subscription of a peer (\<open>subLoop\<close>) queues it, and the next round of \<open>msgLoop\<close>
  pushes it to the next node, from the same store.
\<close>

section \<open>A transfer spares the records of the peers\<close>

text \<open>Nothing but the three files of a message is changed.\<close>

definition message_files :: "string set" where
  "message_files = {messageFileName, contentFileName, doneFileName}"

definition spares :: "storage \<Rightarrow> storage \<Rightarrow> bool" where
  "spares s s' \<longleftrightarrow> fs_wf (st_fs s') \<and> (\<forall>d n. n \<notin> message_files \<longrightarrow> fs_read (st_fs s') d n = fs_read (st_fs s) d n)"

lemma spares_refl: "fs_wf (st_fs s) \<Longrightarrow> spares s s"
  by (simp add: spares_def)

lemma spares_trans: "spares s s' \<Longrightarrow> spares s' s'' \<Longrightarrow> spares s s''"
  by (simp add: spares_def)

lemma spares_wf: "spares s s' \<Longrightarrow> fs_wf (st_fs s')"
  by (simp add: spares_def)

lemma spares_lock: "fs_wf (st_fs s) \<Longrightarrow> lock s i = Inr s' \<Longrightarrow> spares s s'"
  by (auto simp: spares_def lock_def split: if_splits)

lemma spares_unlock: "spares s s' \<Longrightarrow> spares s (unlock i s')"
  by (simp add: spares_def unlock_def)

lemma spares_create:
  assumes "fs_create e (st_fs s) d n = Inr (F, k)" and "fs_wf (st_fs s)" and "n \<in> message_files"
  shows "spares s (s\<lparr>st_fs := F\<rparr>)" and "spares s (s\<lparr>st_fs := fs_set k b F\<rparr>)"
  using fs_create_wf(1) [OF assms(1,2)] fs_read_create [OF assms(1,2)] fs_read_put [OF assms(1,2)] assms(3)
  by (auto simp: spares_def fs_simps)

lemma spares_set:
  assumes "fs_find (st_fs s) d n = Some k" and "fs_wf (st_fs s)" and "n \<in> message_files"
  shows "spares s (s\<lparr>st_fs := fs_set k b (st_fs s)\<rparr>)"
proof -
  have "fs_find (st_fs s) d' x \<noteq> Some k" if "x \<notin> message_files" for d' x
    using fs_wfD(2) [OF assms(2,1)] assms(3) that by blast
  then have "fs_read (fs_set k b (st_fs s)) d' x = fs_read (st_fs s) d' x" if "x \<notin> message_files" for d' x
    using that by (cases "fs_find (st_fs s) d' x") (auto simp: fs_read_def fs_simps)
  then show ?thesis using assms(2) by (simp add: spares_def fs_simps)
qed

lemma spares_mkdirall:
  assumes "fs_mkdirall e (st_fs s) d = Inr F" and "fs_wf (st_fs s)"
  shows "spares s (s\<lparr>st_fs := F\<rparr>)"
  using assms(2) by (simp add: spares_def fs_wf_def fs_read_def fs_mkdirall_Inr [OF assms(1)])

lemma files_in_message [simp]:
  "messageFileName \<in> message_files" "contentFileName \<in> message_files" "doneFileName \<in> message_files"
  "peerFile peer \<notin> message_files"
  by (simp_all add: message_files_def peerFile_def messageFileName_def contentFileName_def doneFileName_def)

lemma spares_PeerInfo: "spares s s' \<Longrightarrow> getPeerInfo v e s' mid peer = getPeerInfo v e s mid peer"
  by (simp add: getPeerInfo_read spares_def)

lemma storeMessage_spares:
  assumes "storeMessage v e s m = (s', er)" and "fs_wf (st_fs s)"
  shows "spares s s'"
proof -
  have "spares s s'" if w: "writeMessage v e s m = (s', er)"
  proof (cases "fs_mkdirall e (st_fs s) (messageDir (Id m))")
    case (Inr F)
    note mk = spares_mkdirall [OF Inr assms(2)]
    show ?thesis
    proof (cases "fs_create e F (messageDir (Id m)) messageFileName")
      case (Inr r)
      obtain G k where r: "r = (G, k)" by force
      have "spares (s\<lparr>st_fs := F\<rparr>) (s\<lparr>st_fs := fs_set k b G\<rparr>)" for b
        using spares_create(2) [of e "s\<lparr>st_fs := F\<rparr>"] Inr r spares_wf [OF mk] by simp
      with w \<open>fs_mkdirall e (st_fs s) (messageDir (Id m)) = Inr F\<close> Inr r show ?thesis
        by (auto simp: writeMessage_def split: if_splits intro: spares_trans [OF mk])
    qed (use w Inr mk in \<open>auto simp: writeMessage_def\<close>)
  qed (use w assms in \<open>auto simp: writeMessage_def intro: spares_refl\<close>)
  then show ?thesis using assms by (auto simp: storeMessage_def intro: spares_refl split: sum.splits if_splits)
qed

lemma OpenWrite_spares:
  assumes "OpenWrite v e s m off = (s', r)" and "fs_wf (st_fs s)"
  shows "spares s s'"
proof (cases "lock s (Id m)")
  case (Inr s1)
  note t1 = spares_lock [OF assms(2) Inr]
  obtain s2 er where s2: "storeMessage v e s1 m = (s2, er)" by force
  note t2 = spares_trans [OF t1 storeMessage_spares [OF s2 spares_wf [OF t1]]]
  have c: "spares s (s2\<lparr>st_fs := F\<rparr>)" if "fs_create e (st_fs s2) (messageDir (Id m)) contentFileName = Inr (F, k)" for F k
    using spares_trans [OF t2 spares_create(1) [OF that spares_wf [OF t2]]] by simp
  show ?thesis using assms(1) Inr s2 t1 t2 c
    by (auto simp: OpenWrite_def Let_def intro: spares_unlock split: if_splits option.splits sum.splits)
qed (use assms in \<open>auto simp: OpenWrite_def intro: spares_refl\<close>)

lemma Write_spares:
  assumes "Write e s w p = (s', w', er)" and "writer_at s w m"
  shows "spares s s'"
  using assms spares_set [of s "messageDir (Id m)" contentFileName "w_f w"]
  by (auto simp: Write_def writer_at_def Let_def)

lemma Close_spares:
  assumes "Close e s w = (s', None)" and "writer_at s w m"
  shows "spares s s'"
proof -
  have w: "fs_wf (st_fs s)" using assms(2) by (simp add: writer_at_def)
  obtain s1 where b: "closeBody e s w = (s1, None)" "s' = unlock (Id (w_msg w)) s1"
    using assms(1) by (auto simp: Close_def split: prod.splits)
  have "spares s s1" using b(1) spares_refl [OF w] spares_create(2) [OF _ w]
    by (auto simp: closeBody_def writeDone_def Let_def split: if_splits sum.splits)
  with b(2) show ?thesis by (simp add: spares_unlock)
qed

lemma push_recv_spares:
  assumes "push_recv E n m w sz ps = (m', w', sz', er)" and "writer_at (store m) w msg"
  shows "spares (store m) (store m') \<and> writer_at (store m') w' msg"
  using assms
proof (induction ps arbitrary: n m w sz)
  case Nil
  then show ?case by (auto simp: writer_at_def intro: spares_refl)
next
  case (Cons p ps)
  obtain s1 w1 er1 where w: "Write (E n) (store m) w p = (s1, w1, er1)" by (metis prod_cases3)
  note t = Write_spares [OF w Cons.prems(2)] Write_touches [OF w Cons.prems(2)]
  show ?case
  proof (cases er1)
    case None
    let ?m = "(set_store s1 m)\<lparr>counters := (counters m)\<lparr>numBytesReceived :=
        Incr (now (E n)) (int (length p)) (numBytesReceived (counters m))\<rparr>\<rparr>"
    have "push_recv E (Suc n) ?m w1 (sz + int (length p)) ps = (m', w', sz', er)" using Cons.prems(1) w None by simp
    from Cons.IH [OF this] t show ?thesis by (auto simp: set_store_def intro: spares_trans)
  qed (use Cons.prems(1) w t in \<open>auto simp: set_store_def\<close>)
qed

lemma Push_spares:
  assumes "Push v L e E e' m call msg off ps serr = (m', None)" and "fs_wf (st_fs (store m))"
  shows "spares (store m) (store m')"
proof -
  obtain m1 w where s: "push_start v L e m call msg off = (m1, Inr w)"
    using assms(1) by (cases "push_start v L e m call msg off") (auto simp: Push_def split: sum.splits)
  obtain m2 w2 sz er2 where r: "push_recv E 0 m1 w 0 ps = (m2, w2, sz, er2)" by (metis prod_cases4)
  obtain s3 er3 where c: "Close e' (store m2) w2 = (s3, er3)" by force
  have "OpenWrite v e (store m) msg off = (store m1, Inr w)" using push_start_Inr [OF s] by simp
  note f1 = OpenWrite_spares [OF this assms(2)] and f2 = push_recv_spares [OF r push_start_frame(2) [OF s assms(2) refl]]
  have "er3 = None" "store m' = s3" using assms(1) s r c
    by (auto simp: Push_def push_end_def split: option.splits if_splits)
  with f1 f2 c Close_spares [of e' "store m2" w2 s3 msg] show ?thesis by (auto intro: spares_trans)
qed

section \<open>One hop\<close>

text \<open>
  A message arrives on the subscription of the peer \<open>p\<close> of a node, and when the reader of the
  queue takes it out, a round of \<open>msgLoop\<close> follows.  \<open>None\<close> means that nothing can be taken out
  at the time, or that the push does not end.
\<close>

definition relay_hop :: "codec \<Rightarrow> lib \<Rightarrow> env \<Rightarrow> nat \<Rightarrow> 'r remote \<Rightarrow> message \<Rightarrow> peer \<Rightarrow> 'r \<Rightarrow> (peer \<times> 'r) option" where
  "relay_hop v L e rnd N msg p R =
     (let q = sub_recv msg p
      in case Front (queue q) of
           None \<Rightarrow> None
         | Some x \<Rightarrow> if now e < q_t x then None
                      else msg_round v L e rnd N (q\<lparr>queue := Remove_front (queue q)\<rparr>) R (q_msgId x))"

text \<open>The peer that pushes, the node it pushes to, and the time and the credentials of the call.\<close>

record hop =
  h_peer :: peer
  h_node :: Messenger
  h_env :: env
  h_call :: sec_call

text \<open>
  The message \<open>msg\<close> was published at a node with the store \<open>s\<close>; each peer of the path works on
  the store of its node, and the next one hears what the node at the end of the hop published.
\<close>

fun relay :: "codec \<Rightarrow> lib \<Rightarrow> nat \<Rightarrow> message \<Rightarrow> storage \<Rightarrow> hop list \<Rightarrow> Messenger list option" where
  "relay v L rnd msg s [] = Some []"
| "relay v L rnd msg s (h # hs) =
     (case relay_hop v L (h_env h) rnd (node_remote v L (h_env h) (h_call h)) msg ((h_peer h)\<lparr>p_store := s\<rparr>) (h_node h) of
        None \<Rightarrow> None
      | Some (p, M) \<Rightarrow>
          (case notifier M of
             None \<Rightarrow> None
           | Some ms \<Rightarrow> map_option ((#) M) (relay v L rnd (last ms) (store M) hs)))"

text \<open>The message after the peers have added their nodes.\<close>

definition via :: "hop list \<Rightarrow> message \<Rightarrow> message" where
  "via hs msg = msg\<lparr>Hops := Hops msg @ map (\<lambda>h. localId (h_peer h)) hs\<rparr>"

lemma via_simps [simp]: "via [] msg = msg" "via hs (with_hop (h_peer h) msg) = via (h # hs) msg"
  "Id (via hs msg) = Id msg"
  by (simp_all add: via_def with_hop_def)

text \<open>
  A node that lets the message in, with \<open>n\<close> hops, and has nothing of it, not even a record of a
  peer; the time of the hop is after the creation and before the expiry of the message.
\<close>

definition willing :: "codec \<Rightarrow> lib \<Rightarrow> message \<Rightarrow> nat \<Rightarrow> hop \<Rightarrow> bool" where
  "willing v L msg n h \<longleftrightarrow>
     (let e = h_env h; M = h_node h; call = h_call h
      in snd (Authorize L (now e) (RateAclIn (params M)) call) = None
       \<and> snd (Authorize L (now e) (RateAclSender (params M)) (sender_call call msg)) = None
       \<and> Validate (PublicKey L) (Verify L) (now e) msg = None \<and> CreationTime msg \<le> now e \<and> zero_time \<le> now e
       \<and> \<not> (MaxHops (params M) > 0 \<and> int n > MaxHops (params M))
       \<and> \<not> (MaxMessageLength (params M) > 0 \<and> Length msg > MaxMessageLength (params M))
       \<and> \<not> (MaxHops (p_params (h_peer h)) > 0 \<and> int n > MaxHops (p_params (h_peer h)))
       \<and> queue (h_peer h) = [] \<and> notifier M \<noteq> None
       \<and> fs_idle v e (store M) (Id msg) \<and> fs_view v (store M) (Id msg) = Absent
       \<and> (\<forall>peer e'. getPeerInfo v e' (store M) (Id msg) peer = zero_PeerInfo))"

lemma Validate_hops: "Validate pk verify t (msg\<lparr>Hops := h\<rparr>) = Validate pk verify t msg"
  by (simp add: Validate_def Expired_def Hash_def hash_input_def)

lemma willing_more_hops: "willing v L (with_hop p msg) n h = willing v L msg n h"
  by (simp add: willing_def with_hop_def Validate_hops sender_call_def)

lemma willing_admitted:
  assumes "willing v L msg (Suc (length (Hops msg))) h"
  shows "admitted L (h_env h) (h_node h) (h_call h) (with_hop (h_peer h) msg)"
  using assms by (simp add: willing_def Let_def admitted_def with_hop_def Validate_hops sender_call_def)

lemma sub_recv_pops:
  assumes "queue p = []" and "checkHops p msg = None"
  shows "Front (queue (sub_recv msg p)) = Some \<lparr>q_t = CreationTime msg, q_msgId = Id msg\<rparr>"
    and "(sub_recv msg p)\<lparr>queue := Remove_front (queue (sub_recv msg p))\<rparr> = p"
  using assms by (simp_all add: sub_recv_def enqueue_def Remove_front_def)

lemma relay_hop_delivers:
  assumes "willing v L msg (Suc (length (Hops msg))) h" and "has_message v (h_env h) p msg content"
    and "p = (h_peer h)\<lparr>p_store := s\<rparr>" and "peerId p \<notin> set (Hops msg)"
    and "getPeerInfo v (h_env h) s (Id msg) (peerId p) = zero_PeerInfo"
  shows "\<exists>p' M'. relay_hop v L (h_env h) rnd (node_remote v L (h_env h) (h_call h)) msg p (h_node h) = Some (p', M')
    \<and> fs_idle v (h_env h) (store M') (Id msg) \<and> fs_view v (store M') (Id msg) = Complete (with_hop p msg) content
    \<and> notifier M' = map_option (\<lambda>ms. ms @ [with_hop p msg]) (notifier (h_node h))
    \<and> spares (store (h_node h)) (store M')"
proof -
  let ?e = "h_env h" and ?M = "h_node h" and ?N = "node_remote v L (h_env h) (h_call h)"
  have w: "queue p = []" "checkHops p msg = None" "\<not> now ?e < CreationTime msg" "node_holds v ?e ?M (with_hop p msg) (with_hop p msg) []"
    "fs_wf (st_fs (store ?M))" "due v ?e p msg"
    using assms(1,3-5) by (auto simp: willing_def Let_def checkHops_def node_holds_def resumable_def fs_idle_def due_def zero_PeerInfo_def)
  have "with_hop (h_peer h) msg = with_hop p msg" using assms(3) by (simp add: with_hop_def)
  then have adm: "admitted L ?e ?M (h_call h) (with_hop p msg)" using willing_admitted [OF assms(1)] by simp
  obtain p' M' cs where r: "msg_round v L ?e rnd ?N p ?M (Id msg) = Some (p', M')" "node_stored v ?e M' (with_hop p msg) (with_hop p msg) content"
    "notifier M' = map_option (\<lambda>ms. ms @ [with_hop p msg]) (notifier ?M)" "rpc_push ?N ?M (with_hop p msg) 0 cs True = (M', Finished None)"
    using node.round_delivers [OF assms(2) w(6) adm w(4), of L rnd] by blast
  have "Push v L ?e (\<lambda>_. ?e) ?e ?M (h_call h) (with_hop p msg) 0 cs None = (M', None)"
    using r(4) by (auto simp: node_remote_def split: prod.splits)
  note sp = Push_spares [OF this w(5)]
  have "relay_hop v L ?e rnd ?N msg p ?M = Some (p', M')"
    using r(1) sub_recv_pops [OF w(1,2)] w(3) by (simp add: relay_hop_def Let_def)
  with r(2,3) sp show ?thesis by (auto simp: node_stored_def)
qed

section \<open>A path\<close>

text \<open>The peers of a path that starts at the node \<open>n\<close>: each belongs to the node the one before pushes to.\<close>

fun linked :: "string \<Rightarrow> hop list \<Rightarrow> bool" where
  "linked n [] \<longleftrightarrow> True"
| "linked n (h # hs) \<longleftrightarrow> localId (h_peer h) = n \<and> linked (peerId (h_peer h)) hs"

definition untold :: "codec \<Rightarrow> storage \<Rightarrow> string \<Rightarrow> bool" where
  "untold v s mid \<longleftrightarrow> (\<forall>peer e. getPeerInfo v e s mid peer = zero_PeerInfo)"

definition arrived_via :: "codec \<Rightarrow> message \<Rightarrow> bytes \<Rightarrow> hop list \<Rightarrow> nat \<Rightarrow> Messenger \<Rightarrow> bool" where
  "arrived_via v msg content hs i M \<longleftrightarrow> fs_view v (store M) (Id msg) = Complete (via (take (Suc i) hs) msg) content
     \<and> notifier M = map_option (\<lambda>ms. ms @ [via (take (Suc i) hs) msg]) (notifier (h_node (hs ! i)))"

lemma arrived_via_Cons:
  "arrived_via v msg content (h # hs) (Suc i) M = arrived_via v (with_hop (h_peer h) msg) content hs i M"
  by (simp add: arrived_via_def)

text \<open>
  C7: a message spreads along every path.  If a node has a complete valid message, and the
  nodes of a path without repetition are willing to take it, in particular allow as many hops
  as the path has up to them, then the goroutines along the path hand it on: each node hears
  of it by its subscription, reads it from its own store, and pushes it to the next.  In the
  end every node of the path has the complete content, with exactly the nodes before it as
  the hops, and has published the message once.
\<close>

theorem relay_spreads:
  assumes "fs_idle v e s (Id msg)" and "fs_view v s (Id msg) = Complete msg content"
    and "int (length content) = Length msg" and "sha256 content = Sha256 msg" and "untold v s (Id msg)"
    and "linked n hs" and "distinct (Hops msg @ n # map (\<lambda>h. peerId (h_peer h)) hs)"
    and "\<forall>i < length hs. willing v L msg (length (Hops msg) + Suc i) (hs ! i)"
  shows "\<exists>Ms. relay v L rnd msg s hs = Some Ms \<and> length Ms = length hs
    \<and> (\<forall>i < length hs. arrived_via v msg content hs i (Ms ! i))"
  using assms
proof (induction hs arbitrary: e s msg n)
  case (Cons h hs)
  let ?p = "(h_peer h)\<lparr>p_store := s\<rparr>" and ?m = "with_hop (h_peer h) msg"
  have w: "willing v L msg (Suc (length (Hops msg))) h" using Cons.prems(8) [rule_format, of 0] by simp
  have q: "quiet (h_env h)" "Expired (now (h_env h)) msg = None" "notifier (h_node h) \<noteq> None"
    using w by (auto simp: willing_def Let_def fs_idle_def Validate_def split: if_splits)
  have hm: "has_message v (h_env h) ?p msg content"
    using Cons.prems(1-4) q by (simp add: has_message_def fs_idle_env)
  have m: "with_hop ?p msg = ?m" "peerId ?p \<notin> set (Hops msg)" "getPeerInfo v (h_env h) s (Id msg) (peerId ?p) = zero_PeerInfo"
    using Cons.prems(5,7) by (auto simp: with_hop_def untold_def)
  obtain p' M where r: "relay_hop v L (h_env h) rnd (node_remote v L (h_env h) (h_call h)) msg ?p (h_node h) = Some (p', M)"
    "fs_idle v (h_env h) (store M) (Id ?m)" "fs_view v (store M) (Id ?m) = Complete ?m content"
    "notifier M = map_option (\<lambda>ms. ms @ [?m]) (notifier (h_node h))" "spares (store (h_node h)) (store M)"
    using relay_hop_delivers [OF w hm refl m(2,3), of rnd] unfolding m(1) by auto
  have u: "untold v (store M) (Id ?m)" using w spares_PeerInfo [OF r(5)] by (simp add: willing_def Let_def untold_def)
  have hops: "Hops ?m = Hops msg @ [n]" using Cons.prems(6) by (simp add: with_hop_def)
  have l: "linked (peerId (h_peer h)) hs" "distinct (Hops ?m @ peerId (h_peer h) # map (\<lambda>h. peerId (h_peer h)) hs)"
    using Cons.prems(6,7) hops by auto
  have ws: "\<forall>i < length hs. willing v L ?m (length (Hops ?m) + Suc i) (hs ! i)"
    using Cons.prems(8) by (auto simp: willing_more_hops hops)
  obtain Ms where Ms: "relay v L rnd ?m (store M) hs = Some Ms" "length Ms = length hs"
    "\<forall>i < length hs. arrived_via v ?m content hs i (Ms ! i)"
    using Cons.IH [OF r(2,3) _ _ u l ws] Cons.prems(3,4) by auto
  obtain ms where ms: "notifier (h_node h) = Some ms" using q(3) by blast
  then have "relay v L rnd msg s (h # hs) = Some (M # Ms)" using r(1,4) Ms(1) by simp
  moreover have "arrived_via v msg content (h # hs) 0 M" using r(3,4) by (simp add: arrived_via_def via_def with_hop_def)
  then have "\<forall>i < length (h # hs). arrived_via v msg content (h # hs) i ((M # Ms) ! i)"
    using Ms(3) by (simp add: All_less_Suc2 arrived_via_Cons)
  ultimately show ?case using Ms(2) by simp
qed simp

section \<open>Two hops\<close>

definition ex_hops :: "hop list" where
  "ex_hops = [\<lparr>h_peer = ex_peer ex_full, h_node = ex_node, h_env = ex_env, h_call = ex_self\<rparr>,
     \<lparr>h_peer = (ex_peer ex_full)\<lparr>localId := ''n2'', peerId := ''n3''\<rparr>, h_node = ex_node, h_env = ex_env, h_call = ex_self\<rparr>]"

lemma ex_hops_willing: "\<forall>i < length ex_hops. willing text_codec ex_lib ex_msg (length (Hops ex_msg) + Suc i) (ex_hops ! i)"
proof -
  have "same_key ex_lib ex_self" by (simp add: same_key_def ex_lib_def ex_self_def)
  then have a: "snd (Authorize ex_lib t r ex_self) = None" for t r by (simp add: Authorize_def)
  have c: "sender_call ex_self ex_msg = ex_self" by (simp add: sender_call_def ex_self_def ex_msg_def)
  have val: "Validate (PublicKey ex_lib) (Verify ex_lib) (now ex_env) ex_msg = None"
    by (simp add: Validate_def Expired_def ex_lib_def ex_msg_def)
  have i: "getPeerInfo text_codec e (store ex_node) ''m1'' peer = zero_PeerInfo" for e peer
    by (simp add: getPeerInfo_def ex_node_def storage_init_def fs_simps)
  have n: "notifier ex_node \<noteq> None" by (simp add: ex_node_def)
  have p: "MaxHops (p_params (ex_peer ex_full)) = 3" "queue (ex_peer ex_full) = []" by (simp_all add: ex_peer_def ex_node_def)
  have "willing text_codec ex_lib ex_msg k \<lparr>h_peer = q, h_node = ex_node, h_env = ex_env, h_call = ex_self\<rparr>"
    if "k \<le> 3" "p_params q = p_params (ex_peer ex_full)" "queue q = []" for k q
    using a c val i n p that ex_absent ex_node_limits by (simp add: willing_def zero_time_def)
  moreover have "length (Hops ex_msg) = 1" by (simp add: ex_msg_def)
  ultimately show ?thesis using p(2) by (simp add: ex_hops_def All_less_Suc2)
qed

theorem relay_spreads_witness:
  "\<exists>M1 M2. relay text_codec ex_lib 0 ex_msg ex_full ex_hops = Some [M1, M2]
     \<and> fs_view text_codec (store M2) ''m1'' = Complete (ex_msg\<lparr>Hops := [''alice'', ''n1'', ''n2'']\<rparr>) ''hi''
     \<and> notifier M2 = Some [ex_msg\<lparr>Hops := [''alice'', ''n1'', ''n2'']\<rparr>]"
proof -
  have h: "fs_idle text_codec ex_env ex_full (Id ex_msg)" "fs_view text_codec ex_full (Id ex_msg) = Complete ex_msg ''hi''"
    "int (length ''hi'') = Length ex_msg" "sha256 ''hi'' = Sha256 ex_msg"
    using ex_full_facts(4) by (simp_all add: has_message_def ex_peer_def)
  have "getPeerInfo text_codec e ex_full ''m1'' peer = zero_PeerInfo" for e peer
    using ex_full_facts(2) [of peer]
    by (simp add: getPeerInfo_def ex_full_find peerFile_def messageFileName_def contentFileName_def doneFileName_def)
  then have u: "untold text_codec ex_full (Id ex_msg)" by (simp add: untold_def)
  have l: "linked ''n1'' ex_hops" "distinct (Hops ex_msg @ ''n1'' # map (\<lambda>h. peerId (h_peer h)) ex_hops)"
    by (simp_all add: ex_hops_def ex_peer_def ex_msg_def)
  obtain Ms where Ms: "relay text_codec ex_lib 0 ex_msg ex_full ex_hops = Some Ms" "length Ms = length ex_hops"
    "\<forall>i < length ex_hops. arrived_via text_codec ex_msg ''hi'' ex_hops i (Ms ! i)"
    using relay_spreads [OF h u l ex_hops_willing, of 0] by blast
  then obtain M1 M2 where "Ms = [M1, M2]" by (auto simp: ex_hops_def length_Suc_conv)
  moreover have "arrived_via text_codec ex_msg ''hi'' ex_hops 1 (Ms ! 1)" using Ms(3) by (simp add: ex_hops_def)
  moreover have "via (take 2 ex_hops) ex_msg = ex_msg\<lparr>Hops := [''alice'', ''n1'', ''n2'']\<rparr>"
    by (simp add: via_def ex_hops_def ex_peer_def ex_msg_def)
  moreover have "notifier (h_node (ex_hops ! 1)) = Some []" by (simp add: ex_hops_def ex_node_def)
  ultimately show ?thesis using Ms(1) by (simp add: arrived_via_def numeral_2_eq_2)
qed

end
