(* ===== verification/Streams.thy ===== *)
theory Streams
  imports Messenger
begin

text \<open>
  The receiving side of the streaming calls, as generated in \<^verbatim>\<open>src/ifc/ifc.vdl.go\<close>:
  \<open>Advance\<close>, \<open>Value\<close> and \<open>Err\<close> over the \<open>Recv\<close> of a call.  The handlers of
  \<^verbatim>\<open>src/internal/messenger.go\<close> are modelled elsewhere over the list of the packets; here
  their loops are written with the stubs, and shown to be the same.
\<close>

section \<open>The stubs\<close>

text \<open>The result of \<open>Recv\<close> is an item, \<open>io.EOF\<close> after the last one, or another error.\<close>

datatype recv_result = RecvOK | RecvEOF | RecvErr err

record 'a recv_stub =
  items :: "'a list"
  ends_with :: "err option"
  valRecv :: 'a
  errRecv :: recv_result

definition Recv :: "'a recv_stub \<Rightarrow> 'a recv_stub \<times> recv_result" where
  "Recv s = (case items s of
       x # xs \<Rightarrow> (s\<lparr>items := xs, valRecv := x\<rparr>, RecvOK)
     | [] \<Rightarrow> (s, case ends_with s of None \<Rightarrow> RecvEOF | Some er \<Rightarrow> RecvErr er))"

definition Advance :: "'a recv_stub \<Rightarrow> 'a recv_stub \<times> bool" where
  "Advance s = (let (s, er) = Recv s; s = s\<lparr>errRecv := er\<rparr> in (s, errRecv s = RecvOK))"

definition stub_Value :: "'a recv_stub \<Rightarrow> 'a" where
  "stub_Value s = valRecv s"

definition stub_Err :: "'a recv_stub \<Rightarrow> err option" where
  "stub_Err s = (case errRecv s of RecvEOF \<Rightarrow> None | RecvOK \<Rightarrow> None | RecvErr er \<Rightarrow> Some er)"

text \<open>The stub for \<open>Manifest\<close> clears the value before each item.\<close>

definition Manifest_Advance :: "message recv_stub \<Rightarrow> message recv_stub \<times> bool" where
  "Manifest_Advance s = Advance (s\<lparr>valRecv := zero_message\<rparr>)"

lemma Advance_Cons: "items s = x # xs \<Longrightarrow> Advance s = (s\<lparr>items := xs, valRecv := x, errRecv := RecvOK\<rparr>, True)"
  by (simp add: Advance_def Recv_def)

lemma Advance_Nil: "items s = [] \<Longrightarrow> \<exists>s'. Advance s = (s', False) \<and> stub_Err s' = ends_with s"
  by (simp add: Advance_def Recv_def stub_Err_def split: option.split)

lemma Advance_shorter: "Advance s = (s', True) \<Longrightarrow> length (items s') < length (items s)"
  by (auto simp: Advance_def Recv_def split: list.splits option.splits)

lemma Advance_keeps: "Advance s = (s', ok) \<Longrightarrow> ends_with s' = ends_with s"
  by (auto simp: Advance_def Recv_def split: list.splits)

section \<open>The receive loop of Push\<close>

function push_recv_stub :: "(nat \<Rightarrow> env) \<Rightarrow> nat \<Rightarrow> Messenger \<Rightarrow> fileWrapper \<Rightarrow> int64 \<Rightarrow> bytes recv_stub \<Rightarrow>
    Messenger \<times> fileWrapper \<times> int64 \<times> err option \<times> bytes recv_stub" where
  "push_recv_stub E n m w sz s =
     (let (s', ok) = Advance s
      in if \<not> ok then (m, w, sz, None, s')
         else let packet = stub_Value s'
              in case Write (E n) (store m) w packet of
                   (st, w, Some er) \<Rightarrow> (set_store st m, w, sz, Some er, s')
                 | (st, w, None) \<Rightarrow>
                     push_recv_stub E (Suc n)
                       ((set_store st m)\<lparr>counters := (counters m)\<lparr>numBytesReceived :=
                          Incr (now (E n)) (int (length packet)) (numBytesReceived (counters m))\<rparr>\<rparr>)
                       w (sz + int (length packet)) s')"
  by pat_completeness auto
termination
  by (relation "measure (\<lambda>(E, n, m, w, sz, s). length (items s))") (auto dest: Advance_shorter sym)

declare push_recv_stub.simps [simp del]

definition Push_stub :: "codec \<Rightarrow> lib \<Rightarrow> env \<Rightarrow> (nat \<Rightarrow> env) \<Rightarrow> env \<Rightarrow> Messenger \<Rightarrow> sec_call \<Rightarrow> message \<Rightarrow> int64 \<Rightarrow>
    bytes recv_stub \<Rightarrow> Messenger \<times> err option" where
  "Push_stub v L e E e' m call msg offset s =
     (case push_start v L e m call msg offset of
        (m, Inl er) \<Rightarrow> (m, Some er)
      | (m, Inr w) \<Rightarrow>
          (case push_recv_stub E 0 m w 0 s of
             (m, w, sz, Some er, s) \<Rightarrow> (close_quietly e' m w, Some er)
           | (m, w, sz, None, s) \<Rightarrow> push_end e' m w msg sz (stub_Err s)))"

lemma push_recv_stub_eq:
  "\<exists>s'. push_recv_stub E n m w sz s = (case push_recv E n m w sz (items s) of (m', w', sz', er) \<Rightarrow> (m', w', sz', er, s'))
     \<and> (snd (snd (snd (push_recv E n m w sz (items s)))) = None \<longrightarrow> stub_Err s' = ends_with s)"
proof (induction "items s" arbitrary: n m w sz s)
  case Nil
  obtain s' where "Advance s = (s', False)" "stub_Err s' = ends_with s" using Advance_Nil Nil by metis
  with Nil show ?case by (subst push_recv_stub.simps) simp
next
  case (Cons p ps)
  let ?s = "s\<lparr>items := ps, valRecv := p, errRecv := RecvOK\<rparr>"
  have a: "Advance s = (?s, True)" using Advance_Cons Cons.hyps(2) by metis
  obtain st w' er where w: "Write (E n) (store m) w p = (st, w', er)" by (metis surj_pair)
  show ?case
  proof (cases er)
    case None
    let ?m = "(set_store st m)\<lparr>counters := (counters m)\<lparr>numBytesReceived :=
      Incr (now (E n)) (int (length p)) (numBytesReceived (counters m))\<rparr>\<rparr>"
    have "push_recv_stub E n m w sz s = push_recv_stub E (Suc n) ?m w' (sz + int (length p)) ?s"
      using a w None by (subst push_recv_stub.simps) (simp add: stub_Value_def)
    moreover have "push_recv E n m w sz (items s) = push_recv E (Suc n) ?m w' (sz + int (length p)) ps"
      using w None Cons.hyps(2) [symmetric] by simp
    ultimately show ?thesis using Cons.hyps(1) [of ?s "Suc n" ?m w' "sz + int (length p)"] by simp
  next
    case (Some er')
    have "push_recv_stub E n m w sz s = (set_store st m, w', sz, Some er', ?s)"
      using a w Some by (subst push_recv_stub.simps) (simp add: stub_Value_def)
    moreover have "push_recv E n m w sz (items s) = (set_store st m, w', sz, Some er')"
      using w Some Cons.hyps(2) [symmetric] by simp
    ultimately show ?thesis by simp
  qed
qed

text \<open>
  The handler \<open>Push\<close> written over the generated stub, with its calls of \<open>Advance\<close>,
  \<open>Value\<close> and \<open>Err\<close>, is the handler over the list of the packets and the error the
  stream ends with, where the end of the stream is not an error.
\<close>

lemma Push_over_stub: "Push_stub v L e E e' m call msg offset s = Push v L e E e' m call msg offset (items s) (ends_with s)"
proof -
  obtain m1 r where p: "push_start v L e m call msg offset = (m1, r)" by force
  show ?thesis
  proof (cases r)
    case (Inr w)
    obtain s' where s': "push_recv_stub E 0 m1 w 0 s = (case push_recv E 0 m1 w 0 (items s) of (m', w', sz', er) \<Rightarrow> (m', w', sz', er, s'))"
      "snd (snd (snd (push_recv E 0 m1 w 0 (items s)))) = None \<longrightarrow> stub_Err s' = ends_with s"
      using push_recv_stub_eq by blast
    obtain m2 w2 sz er where r: "push_recv E 0 m1 w 0 (items s) = (m2, w2, sz, er)" by (metis surj_pair)
    show ?thesis using p Inr s' r by (cases er) (simp_all add: Push_stub_def Push_def)
  qed (simp add: p Push_stub_def Push_def)
qed

end
