(* ===== verification/ServerStubs.thy ===== *)
theory ServerStubs
  imports Streams
begin

text \<open>
  The server side of \<^verbatim>\<open>src/ifc/ifc.vdl.go\<close>: the send half of the streaming calls, the
  server stubs that delegate to an implementation, and the interface descriptors.  The
  handlers \<open>Diff\<close>, \<open>Manifest\<close> and \<open>Pull\<close> of \<^verbatim>\<open>src/internal/messenger.go\<close> are written here
  with the calls of the stubs, their loops included, and shown to be the handlers over lists
  of \<^verbatim>\<open>Messenger\<close>; \<open>Push\<close> is in \<^verbatim>\<open>Streams\<close>.
\<close>

section \<open>The send half of a call\<close>

text \<open>
  The items that went out, the number of calls of \<open>Send\<close> so far, and which of them fail.
\<close>

record 'a send_stub =
  sent_items :: "'a list"
  send_count :: nat
  send_err :: "nat \<Rightarrow> err option"

definition Send :: "'a send_stub \<Rightarrow> 'a \<Rightarrow> 'a send_stub \<times> err option" where
  "Send S item =
     (case send_err S (send_count S) of
        Some er \<Rightarrow> (S\<lparr>send_count := Suc (send_count S)\<rparr>, Some er)
      | None \<Rightarrow> (S\<lparr>sent_items := sent_items S @ [item], send_count := Suc (send_count S)\<rparr>, None))"

lemma Send_cases:
  "send_err S (send_count S) = Some er \<Longrightarrow> Send S item = (S\<lparr>send_count := Suc (send_count S)\<rparr>, Some er)"
  "send_err S (send_count S) = None \<Longrightarrow> Send S item = (S\<lparr>sent_items := sent_items S @ [item], send_count := Suc (send_count S)\<rparr>, None)"
  by (simp_all add: Send_def)

text \<open>The generated wrappers, which delegate to the call.\<close>

definition DiffServerCallSend_Send :: "bool list send_stub \<Rightarrow> bool list \<Rightarrow> bool list send_stub \<times> err option" where
  "DiffServerCallSend_Send S item = Send S item"

definition ManifestServerCallSend_Send :: "message send_stub \<Rightarrow> message \<Rightarrow> message send_stub \<times> err option" where
  "ManifestServerCallSend_Send S item = Send S item"

definition PullServerCallSend_Send :: "bytes send_stub \<Rightarrow> bytes \<Rightarrow> bytes send_stub \<times> err option" where
  "PullServerCallSend_Send S item = Send S item"

lemmas server_sends = DiffServerCallSend_Send_def ManifestServerCallSend_Send_def PullServerCallSend_Send_def

text \<open>\<open>Init\<close> puts the stream into a stub whose other fields are zero.\<close>

definition stub_Init :: "'a \<Rightarrow> 'a list \<Rightarrow> err option \<Rightarrow> 'a recv_stub" where
  "stub_Init zero xs er = \<lparr>items = xs, ends_with = er, valRecv = zero, errRecv = RecvOK\<rparr>"

lemma stub_Init_simps [simp]: "items (stub_Init z xs er) = xs" "ends_with (stub_Init z xs er) = er"
  by (simp_all add: stub_Init_def)

section \<open>Diff over the stubs\<close>

text \<open>The receiver of \<open>Diff\<close> has functions of its own, the same as those of \<open>Push\<close>.\<close>

definition DiffServerCallRecv_Advance :: "string list recv_stub \<Rightarrow> string list recv_stub \<times> bool" where
  "DiffServerCallRecv_Advance s = (let (s, er) = Recv s; s = s\<lparr>errRecv := er\<rparr> in (s, errRecv s = RecvOK))"

definition DiffServerCallRecv_Value :: "string list recv_stub \<Rightarrow> string list" where
  "DiffServerCallRecv_Value s = valRecv s"

definition DiffServerCallRecv_Err :: "string list recv_stub \<Rightarrow> err option" where
  "DiffServerCallRecv_Err s = (case errRecv s of RecvEOF \<Rightarrow> None | RecvOK \<Rightarrow> None | RecvErr er \<Rightarrow> Some er)"

lemma DiffServer_is_stub:
  "DiffServerCallRecv_Advance = Advance" "DiffServerCallRecv_Value = stub_Value" "DiffServerCallRecv_Err = stub_Err"
  by (simp_all add: fun_eq_iff DiffServerCallRecv_Advance_def Advance_def DiffServerCallRecv_Value_def
      stub_Value_def DiffServerCallRecv_Err_def stub_Err_def)

function diff_recv_stub :: "(nat \<Rightarrow> env) \<Rightarrow> nat \<Rightarrow> storage \<Rightarrow> string list recv_stub \<Rightarrow> bool list send_stub \<Rightarrow>
    bool list send_stub \<times> err option" where
  "diff_recv_stub E n st s S =
     (let (s', ok) = DiffServerCallRecv_Advance s
      in if \<not> ok then (S, None)
         else let ids = DiffServerCallRecv_Value s';
                  responses = map (Exists (E n) st) ids
              in case DiffServerCallSend_Send S responses of
                   (S, Some er) \<Rightarrow> (S, Some er)
                 | (S, None) \<Rightarrow> diff_recv_stub E (Suc n) st s' S)"
  by pat_completeness auto
termination
  by (relation "measure (\<lambda>(E, n, st, s, S). length (items s))")
    (auto simp: DiffServer_is_stub dest: Advance_shorter sym)

declare diff_recv_stub.simps [simp del]

definition Diff_stub :: "lib \<Rightarrow> env \<Rightarrow> (nat \<Rightarrow> env) \<Rightarrow> Messenger \<Rightarrow> sec_call \<Rightarrow> string list recv_stub \<Rightarrow> bool list send_stub \<Rightarrow>
    Messenger \<times> bool list send_stub \<times> err option" where
  "Diff_stub L e E m call s S =
     (case authorize_in L (now e) m call of
        (m, Some er) \<Rightarrow> (m, S, Some er)
      | (m, None) \<Rightarrow> (m, diff_recv_stub E 0 (store m) s S))"

lemma diff_recv_stub_eq:
  "send_count S = n \<Longrightarrow> diff_loop E (send_err S) n st (items s) = (rs, er) \<Longrightarrow>
    \<exists>k. diff_recv_stub E n st s S = (S\<lparr>sent_items := sent_items S @ rs, send_count := k\<rparr>, er)"
proof (induction "items s" arbitrary: n s S rs)
  case Nil
  obtain s' where "Advance s = (s', False)" using Advance_Nil [of s] Nil(1) by metis
  with Nil show ?case by (subst diff_recv_stub.simps) (auto simp: DiffServer_is_stub intro!: exI [of _ "send_count S"])
next
  case (Cons ids batches)
  let ?s = "s\<lparr>items := batches, valRecv := ids, errRecv := RecvOK\<rparr>" and ?r = "map (Exists (E n) st) ids"
  have a: "Advance s = (?s, True)" using Advance_Cons Cons.hyps(2) by metis
  show ?case
  proof (cases "send_err S n")
    case None
    let ?S = "S\<lparr>sent_items := sent_items S @ [?r], send_count := Suc n\<rparr>"
    obtain rs' where r: "diff_loop E (send_err S) (Suc n) st batches = (rs', er)" "rs = ?r # rs'"
      using Cons.prems(2) None Cons.hyps(2) [symmetric] by (auto split: prod.splits)
    obtain k where "diff_recv_stub E (Suc n) st ?s ?S = (?S\<lparr>sent_items := sent_items ?S @ rs', send_count := k\<rparr>, er)"
      using Cons.hyps(1) [of ?s ?S "Suc n" rs'] r(1) by auto
    then show ?thesis using a None Cons.prems(1) r(2)
      by (subst diff_recv_stub.simps) (auto simp: DiffServer_is_stub server_sends Send_def stub_Value_def)
  next
    case (Some x)
    with Cons.prems Cons.hyps(2) [symmetric] have "rs = []" "er = Some x" by auto
    with Some Cons.prems(1) a show ?thesis
      by (subst diff_recv_stub.simps) (auto simp: DiffServer_is_stub server_sends Send_cases(1) stub_Value_def)
  qed
qed

lemma Diff_stub_eq:
  assumes "send_count S = 0" and "sent_items S = []"
  shows "\<exists>k. Diff_stub L e E m call s S =
    (case Diff L e E (send_err S) m call (items s) of (m', rs, er) \<Rightarrow> (m', S\<lparr>sent_items := rs, send_count := k\<rparr>, er))"
proof -
  obtain m' er where a: "authorize_in L (now e) m call = (m', er)" by force
  obtain rs er' where d: "diff_loop E (send_err S) 0 (store m') (items s) = (rs, er')" by force
  from diff_recv_stub_eq [OF assms(1) d] a d assms show ?thesis
    by (cases er) (auto simp: Diff_stub_def Diff_def intro!: exI [of _ "send_count S"])
qed

section \<open>Manifest over the stubs\<close>

text \<open>The loop over the channel ignores the errors of \<open>Send\<close>.\<close>

fun manifest_loop :: "message list \<Rightarrow> message send_stub \<Rightarrow> message send_stub" where
  "manifest_loop [] S = S"
| "manifest_loop (msg # ms) S = manifest_loop ms (fst (ManifestServerCallSend_Send S msg))"

definition Manifest_stub :: "codec \<Rightarrow> lib \<Rightarrow> env \<Rightarrow> Messenger \<Rightarrow> sec_call \<Rightarrow> message send_stub \<Rightarrow>
    Messenger \<times> message send_stub \<times> err option" where
  "Manifest_stub v L e m call S =
     (case authorize_in L (now e) m call of
        (m, Some er) \<Rightarrow> (m, S, Some er)
      | (m, None) \<Rightarrow>
          (case Manifest v e (store m) of
             Inl er \<Rightarrow> (m, S, Some er)
           | Inr ms \<Rightarrow> (m, manifest_loop ms S, None)))"

lemma manifest_loop_sent:
  "sent_items (manifest_loop ms S) = sent_items S @ map snd (filter (\<lambda>(i, m). send_err S i = None) (enumerate (send_count S) ms))"
proof (induction ms arbitrary: S)
  case (Cons m ms)
  have "send_err (fst (Send S m)) = send_err S" "send_count (fst (Send S m)) = Suc (send_count S)"
    by (simp_all add: Send_def split: option.split)
  with Cons show ?case by (simp add: server_sends Send_def split: option.split)
qed simp

lemma Manifest_stub_eq:
  assumes "send_count S = 0" and "sent_items S = []"
  shows "\<exists>S'. Manifest_stub v L e m call S =
      (case serve_Manifest v L e m call of (m', ms, er) \<Rightarrow> (m', S', er))
    \<and> sent_items S' = map snd (filter (\<lambda>(i, msg). send_err S i = None) (enumerate 0 (fst (snd (serve_Manifest v L e m call)))))"
  using manifest_loop_sent [of _ S] assms
  by (auto simp: Manifest_stub_def serve_Manifest_def split: prod.split option.split sum.split)

section \<open>Pull over the stubs\<close>

text \<open>
  \<open>r.Read(buf)\<close> with a buffer of 2048 bytes, as the call number \<open>k\<close> on the file.  When reads
  fail in the environment, the call number \<open>short\<close> does, or the one that would meet the end
  of the file.
\<close>

datatype read_result = ReadOK | ReadEOF | ReadErr err

definition Read :: "env \<Rightarrow> nat \<Rightarrow> storage \<Rightarrow> reader \<Rightarrow> reader \<times> bytes \<times> read_result" where
  "Read e k s r =
     (let buf = take 2048 (read_rest s r)
      in if fails e (SysRead contentFileName) \<and> (short e \<le> k \<or> buf = []) then (r, [], ReadErr (ErrOS ''read''))
         else if buf = [] then (r, [], ReadEOF)
         else (r\<lparr>r_pos := r_pos r + length buf\<rparr>, buf, ReadOK))"

lemma Read_rest:
  assumes "Read e k s r = (r', buf, ReadOK)"
  shows "buf = take 2048 (read_rest s r)" and "buf \<noteq> []" and "read_rest s r' = drop 2048 (read_rest s r)"
    and "r' = r\<lparr>r_pos := r_pos r + length buf\<rparr>" and "\<not> (fails e (SysRead contentFileName) \<and> short e \<le> k)"
proof -
  have "buf = take 2048 (read_rest s r) \<and> buf \<noteq> [] \<and> r' = r\<lparr>r_pos := r_pos r + length buf\<rparr>
      \<and> \<not> (fails e (SysRead contentFileName) \<and> short e \<le> k)"
    using assms by (auto simp: Read_def Let_def split: if_splits)
  moreover from this have "read_rest s r' = drop 2048 (read_rest s r)"
    by (cases "length (read_rest s r) \<le> 2048") (auto simp: read_rest_def add.commute)
  ultimately show "buf = take 2048 (read_rest s r)" and "buf \<noteq> []" and "read_rest s r' = drop 2048 (read_rest s r)"
    and "r' = r\<lparr>r_pos := r_pos r + length buf\<rparr>" and "\<not> (fails e (SysRead contentFileName) \<and> short e \<le> k)" by blast+
qed

text \<open>The pieces a loop of reads gets from the file, from the call number \<open>k\<close> on.\<close>

definition pieces :: "env \<Rightarrow> nat \<Rightarrow> storage \<Rightarrow> reader \<Rightarrow> bytes list" where
  "pieces e k s r =
     (let cs = chunks 2048 (read_rest s r) in if fails e (SysRead contentFileName) then take (short e - k) cs else cs)"

lemma Read_pieces:
  "Read e k s r = (r', buf, ReadOK) \<Longrightarrow> pieces e k s r = buf # pieces e (Suc k) s r'"
proof -
  assume a: "Read e k s r = (r', buf, ReadOK)"
  note r = Read_rest [OF a]
  from r(1,2) have "read_rest s r \<noteq> []" by auto
  with r(1,3) have c: "chunks 2048 (read_rest s r) = buf # chunks 2048 (read_rest s r')" by (simp add: chunks_Cons)
  show ?thesis
  proof (cases "fails e (SysRead contentFileName)")
    case True
    with r(5) have "short e - k = Suc (short e - Suc k)" by simp
    with True c show ?thesis unfolding pieces_def Let_def by (simp only: if_True take_Suc_Cons)
  next
    case False
    with c show ?thesis unfolding pieces_def Let_def by (simp only: if_False)
  qed
qed

lemma Read_end:
  assumes "Read e k s r = (r', buf, x)" and "x \<noteq> ReadOK"
  shows "buf = [] \<and> r' = r \<and> pieces e k s r = []
    \<and> x = (if fails e (SysRead contentFileName) then ReadErr (ErrOS ''read'') else ReadEOF)"
  using assms by (auto simp: Read_def pieces_def Let_def split: if_splits)

function pull_loop :: "env \<Rightarrow> nat \<Rightarrow> storage \<Rightarrow> reader \<Rightarrow> bytes send_stub \<Rightarrow> bytes send_stub \<times> err option" where
  "pull_loop e k s r S =
     (case Read e k s r of
        (r', buf, x) \<Rightarrow>
          (case (if buf \<noteq> [] then PullServerCallSend_Send S buf else (S, None)) of
             (S, Some er) \<Rightarrow> (S, Some er)
           | (S, None) \<Rightarrow>
               (case x of
                  ReadEOF \<Rightarrow> (S, None)
                | ReadErr er \<Rightarrow> (S, Some er)
                | ReadOK \<Rightarrow> pull_loop e (Suc k) s r' S)))"
  by pat_completeness auto
termination
proof (relation "measure (\<lambda>(e, k, s, r, S). length (read_rest s r))", goal_cases)
  case (2 e k s r S r' p buf x)
  then have a: "Read e k s r = (r', buf, ReadOK)" by simp
  from Read_rest(1-3) [OF a] show ?case by (cases "read_rest s r") auto
qed simp

declare pull_loop.simps [simp del]

definition Pull_stub :: "codec \<Rightarrow> lib \<Rightarrow> env \<Rightarrow> Messenger \<Rightarrow> sec_call \<Rightarrow> string \<Rightarrow> int64 \<Rightarrow> bytes send_stub \<Rightarrow>
    Messenger \<times> bytes send_stub \<times> (err + message)" where
  "Pull_stub v L e m call mid offset S =
     (case authorize_in L (now e) m call of
        (m, Some er) \<Rightarrow> (m, S, Inl er)
      | (m, None) \<Rightarrow>
     (case OpenRead v e (store m) mid of
        (s, Inl er) \<Rightarrow> (set_store s m, S, Inl er)
      | (s, Inr (msg, r)) \<Rightarrow>
     (case Seek r offset of
        Inl er \<Rightarrow> (set_store s m, S, Inl er)
      | Inr r \<Rightarrow>
          (case pull_loop e 0 s r S of
             (S, Some er) \<Rightarrow> (set_store s m, S, Inl er)
           | (S, None) \<Rightarrow> (set_store s m, S, Inr msg)))))"

lemma pull_loop_eq:
  "send_count S = k \<Longrightarrow> send_all (send_err S) k (pieces e k s r) = (ps, er) \<Longrightarrow>
    \<exists>n. pull_loop e k s r S = (S\<lparr>sent_items := sent_items S @ ps, send_count := n\<rparr>,
      if er = None \<and> fails e (SysRead contentFileName) then Some (ErrOS ''read'') else er)"
proof (induction "length (read_rest s r)" arbitrary: k r S ps rule: less_induct)
  case less
  obtain r' buf x where rd: "Read e k s r = (r', buf, x)" by (metis prod_cases3)
  show ?case
  proof (cases "x = ReadOK")
    case True
    note a = rd [unfolded True]
    have sh: "length (read_rest s r') < length (read_rest s r)"
      using Read_rest(1-3) [OF a] by (cases "read_rest s r") auto
    show ?thesis
    proof (cases "send_err S k")
      case None
      let ?S = "S\<lparr>sent_items := sent_items S @ [buf], send_count := Suc k\<rparr>"
      obtain ps' where p: "send_all (send_err S) (Suc k) (pieces e (Suc k) s r') = (ps', er)" "ps = buf # ps'"
        using less.prems(2) None by (auto simp: Read_pieces [OF a] split: prod.splits)
      from less.hyps [OF sh, of ?S "Suc k" ps'] p(1) obtain n where
        "pull_loop e (Suc k) s r' ?S = (?S\<lparr>sent_items := sent_items ?S @ ps', send_count := n\<rparr>,
          if er = None \<and> fails e (SysRead contentFileName) then Some (ErrOS ''read'') else er)" by auto
      then show ?thesis using a None less.prems(1) Read_rest(2) [OF a] p(2)
        by (subst pull_loop.simps) (auto simp: server_sends Send_def)
    next
      case (Some er')
      then have "ps = []" "er = Some er'" using less.prems(2) by (auto simp: Read_pieces [OF a])
      with Some show ?thesis using a less.prems(1) Read_rest(2) [OF a]
        by (subst pull_loop.simps) (auto simp: server_sends Send_cases(1))
    qed
  next
    case False
    from Read_end [OF rd False] rd less.prems show ?thesis
      by (subst pull_loop.simps) (auto split: if_splits intro!: exI [of _ "send_count S"])
  qed
qed

lemma Pull_stub_eq:
  assumes "send_count S = 0" and "sent_items S = []"
  shows "\<exists>n. Pull_stub v L e m call mid offset S =
    (case Pull v L e (send_err S) m call mid offset of (m', ps, r) \<Rightarrow> (m', S\<lparr>sent_items := ps, send_count := n\<rparr>, r))"
proof -
  have S: "\<exists>n. S = S\<lparr>sent_items := [], send_count := n\<rparr>" using assms by (intro exI [of _ 0]) simp
  obtain m' er where a: "authorize_in L (now e) m call = (m', er)" by force
  obtain s x where o: "OpenRead v e (store m') mid = (s, x)" by force
  show ?thesis
  proof (cases "er = None \<and> (\<exists>msg r. x = Inr (msg, r) \<and> 0 \<le> offset)")
    case True
    then obtain msg r where x: "x = Inr (msg, r)" "0 \<le> offset" and er: "er = None" by blast
    let ?r = "r\<lparr>r_pos := nat offset\<rparr>"
    obtain ps er' where sa: "send_all (send_err S) 0 (pieces e 0 s ?r) = (ps, er')" by force
    from pull_loop_eq [OF assms(1) sa] obtain n where
      "pull_loop e 0 s ?r S = (S\<lparr>sent_items := sent_items S @ ps, send_count := n\<rparr>,
        if er' = None \<and> fails e (SysRead contentFileName) then Some (ErrOS ''read'') else er')" by blast
    then show ?thesis using a o x er sa assms(2)
      by (cases er') (auto simp: Pull_stub_def Pull_def Seek_def pieces_def Let_def)
  next
    case False
    with a o S show ?thesis
      by (cases er; cases x) (auto simp: Pull_stub_def Pull_def Seek_def)
  qed
qed

section \<open>The server stubs\<close>

text \<open>
  The interfaces a server implements, as records of functions on the state of the node: the
  two of \<open>Messenger\<close> and \<open>MessageRepository\<close>, and their combination, which embeds both.
\<close>

record MessengerServerMethods =
  impl_Diff :: "Messenger \<Rightarrow> sec_call \<Rightarrow> string list recv_stub \<Rightarrow> bool list send_stub \<Rightarrow>
    Messenger \<times> bool list send_stub \<times> err option"
  impl_Push :: "Messenger \<Rightarrow> sec_call \<Rightarrow> bytes recv_stub \<Rightarrow> message \<Rightarrow> int64 \<Rightarrow> Messenger \<times> err option"
  impl_ResumeOffset :: "Messenger \<Rightarrow> sec_call \<Rightarrow> message \<Rightarrow> Messenger \<times> (err + int64)"

record MessageRepositoryServerMethods =
  impl_Manifest :: "Messenger \<Rightarrow> sec_call \<Rightarrow> message send_stub \<Rightarrow> Messenger \<times> message send_stub \<times> err option"
  impl_Pull :: "Messenger \<Rightarrow> sec_call \<Rightarrow> bytes send_stub \<Rightarrow> string \<Rightarrow> int64 \<Rightarrow>
    Messenger \<times> bytes send_stub \<times> (err + message)"

record MessengerRepositoryServerMethods =
  as_Messenger :: MessengerServerMethods
  as_Repository :: MessageRepositoryServerMethods

text \<open>
  A stub holds the implementation and the state for \<open>Glob\<close>, which \<open>rpc.NewGlobState\<close> makes of
  the stub itself or else of the implementation; that function is a parameter.
\<close>

record 'g implMessengerServerStub =
  ms_impl :: MessengerServerMethods
  ms_gs :: "'g option"

record 'g implMessageRepositoryServerStub =
  rs_impl :: MessageRepositoryServerMethods
  rs_gs :: "'g option"

record 'g implMessengerRepositoryServerStub =
  mr_impl :: MessengerRepositoryServerMethods
  MessengerServerStub :: "'g implMessengerServerStub"
  MessageRepositoryServerStub :: "'g implMessageRepositoryServerStub"
  mr_gs :: "'g option"

definition first_glob :: "'g option \<Rightarrow> 'g option \<Rightarrow> 'g option" where
  "first_glob a b = (if a \<noteq> None then a else if b \<noteq> None then b else None)"

definition MessengerServer :: "('g implMessengerServerStub + MessengerServerMethods \<Rightarrow> 'g option) \<Rightarrow>
    MessengerServerMethods \<Rightarrow> 'g implMessengerServerStub" where
  "MessengerServer ngs impl =
     (let stub = \<lparr>ms_impl = impl, ms_gs = None\<rparr>
      in stub\<lparr>ms_gs := first_glob (ngs (Inl stub)) (ngs (Inr impl))\<rparr>)"

definition MessageRepositoryServer :: "('g implMessageRepositoryServerStub + MessageRepositoryServerMethods \<Rightarrow> 'g option) \<Rightarrow>
    MessageRepositoryServerMethods \<Rightarrow> 'g implMessageRepositoryServerStub" where
  "MessageRepositoryServer ngs impl =
     (let stub = \<lparr>rs_impl = impl, rs_gs = None\<rparr>
      in stub\<lparr>rs_gs := first_glob (ngs (Inl stub)) (ngs (Inr impl))\<rparr>)"

definition MessengerRepositoryServer ::
  "('g implMessengerServerStub + MessengerServerMethods \<Rightarrow> 'g option) \<Rightarrow>
   ('g implMessageRepositoryServerStub + MessageRepositoryServerMethods \<Rightarrow> 'g option) \<Rightarrow>
   ('g implMessengerRepositoryServerStub + MessengerRepositoryServerMethods \<Rightarrow> 'g option) \<Rightarrow>
   MessengerRepositoryServerMethods \<Rightarrow> 'g implMessengerRepositoryServerStub" where
  "MessengerRepositoryServer ngs1 ngs2 ngs impl =
     (let stub = \<lparr>mr_impl = impl, MessengerServerStub = MessengerServer ngs1 (as_Messenger impl),
            MessageRepositoryServerStub = MessageRepositoryServer ngs2 (as_Repository impl), mr_gs = None\<rparr>
      in stub\<lparr>mr_gs := first_glob (ngs (Inl stub)) (ngs (Inr impl))\<rparr>)"

definition ServerStub_Diff :: "'g implMessengerServerStub \<Rightarrow> Messenger \<Rightarrow> sec_call \<Rightarrow> string list recv_stub \<Rightarrow>
    bool list send_stub \<Rightarrow> Messenger \<times> bool list send_stub \<times> err option" where
  "ServerStub_Diff s m call r S = impl_Diff (ms_impl s) m call r S"

definition ServerStub_Push :: "'g implMessengerServerStub \<Rightarrow> Messenger \<Rightarrow> sec_call \<Rightarrow> bytes recv_stub \<Rightarrow> message \<Rightarrow> int64 \<Rightarrow>
    Messenger \<times> err option" where
  "ServerStub_Push s m call r i0 i1 = impl_Push (ms_impl s) m call r i0 i1"

definition ServerStub_ResumeOffset :: "'g implMessengerServerStub \<Rightarrow> Messenger \<Rightarrow> sec_call \<Rightarrow> message \<Rightarrow>
    Messenger \<times> (err + int64)" where
  "ServerStub_ResumeOffset s m call i0 = impl_ResumeOffset (ms_impl s) m call i0"

definition ServerStub_Manifest :: "'g implMessageRepositoryServerStub \<Rightarrow> Messenger \<Rightarrow> sec_call \<Rightarrow> message send_stub \<Rightarrow>
    Messenger \<times> message send_stub \<times> err option" where
  "ServerStub_Manifest s m call S = impl_Manifest (rs_impl s) m call S"

definition ServerStub_Pull :: "'g implMessageRepositoryServerStub \<Rightarrow> Messenger \<Rightarrow> sec_call \<Rightarrow> bytes send_stub \<Rightarrow> string \<Rightarrow> int64 \<Rightarrow>
    Messenger \<times> bytes send_stub \<times> (err + message)" where
  "ServerStub_Pull s m call S i0 i1 = impl_Pull (rs_impl s) m call S i0 i1"

lemmas server_stub_defs = ServerStub_Diff_def ServerStub_Push_def ServerStub_ResumeOffset_def
  ServerStub_Manifest_def ServerStub_Pull_def

text \<open>The service of a node as an implementation of the interfaces.\<close>

definition node_impl :: "codec \<Rightarrow> lib \<Rightarrow> env \<Rightarrow> (nat \<Rightarrow> env) \<Rightarrow> env \<Rightarrow> MessengerRepositoryServerMethods" where
  "node_impl v L e E e' =
     \<lparr>as_Messenger =
        \<lparr>impl_Diff = (\<lambda>m call r S. Diff_stub L e E m call r S),
         impl_Push = (\<lambda>m call r msg offset. Push_stub v L e E e' m call msg offset r),
         impl_ResumeOffset = (\<lambda>m call msg. ResumeOffset L e m call msg)\<rparr>,
      as_Repository =
        \<lparr>impl_Manifest = (\<lambda>m call S. Manifest_stub v L e m call S),
         impl_Pull = (\<lambda>m call S mid offset. Pull_stub v L e m call mid offset S)\<rparr>\<rparr>"

definition node_server :: "codec \<Rightarrow> lib \<Rightarrow> env \<Rightarrow> (nat \<Rightarrow> env) \<Rightarrow> env \<Rightarrow> unit implMessengerRepositoryServerStub" where
  "node_server v L e E e' =
     MessengerRepositoryServer (\<lambda>_. None) (\<lambda>_. None) (\<lambda>_. None) (node_impl v L e E e')"

lemma node_server_simps [simp]:
  "ms_impl (MessengerServerStub (node_server v L e E e')) = as_Messenger (node_impl v L e E e')"
  "rs_impl (MessageRepositoryServerStub (node_server v L e E e')) = as_Repository (node_impl v L e E e')"
  by (simp_all add: node_server_def MessengerRepositoryServer_def MessengerServer_def MessageRepositoryServer_def Let_def)

definition fresh_sends :: "(nat \<Rightarrow> err option) \<Rightarrow> 'a send_stub" where
  "fresh_sends f = \<lparr>sent_items = [], send_count = 0, send_err = f\<rparr>"

lemma fresh_sends_simps [simp]: "sent_items (fresh_sends f) = []" "send_count (fresh_sends f) = 0" "send_err (fresh_sends f) = f"
  by (simp_all add: fresh_sends_def)

text \<open>
  C29: the generated server stubs around the handlers of a node, with the calls of
  \<open>Advance\<close>, \<open>Value\<close>, \<open>Err\<close>, \<open>Read\<close> and \<open>Send\<close> the handlers make, are the handlers over the
  lists of received and sent items: \<open>Push\<close>, \<open>Diff\<close>, \<open>ResumeOffset\<close>, and \<open>Pull\<close> with sends
  that may fail at any position, and \<open>Manifest\<close>, which goes on when a send fails.
\<close>

theorem server_over_stubs:
  "ServerStub_Push (MessengerServerStub (node_server v L e E e')) m call (stub_Init [] packets serr) msg offset =
      Push v L e E e' m call msg offset packets serr
   \<and> ServerStub_ResumeOffset (MessengerServerStub (node_server v L e E e')) m call msg = ResumeOffset L e m call msg
   \<and> (\<exists>k. ServerStub_Diff (MessengerServerStub (node_server v L e E e')) m call (stub_Init [] batches serr) (fresh_sends f) =
        (case Diff L e E f m call batches of (m', rs, er) \<Rightarrow> (m', (fresh_sends f)\<lparr>sent_items := rs, send_count := k\<rparr>, er)))
   \<and> (\<exists>k. ServerStub_Pull (MessageRepositoryServerStub (node_server v L e E e')) m call (fresh_sends f) mid offset =
        (case Pull v L e f m call mid offset of (m', ps, r) \<Rightarrow> (m', (fresh_sends f)\<lparr>sent_items := ps, send_count := k\<rparr>, r)))
   \<and> (\<exists>S. ServerStub_Manifest (MessageRepositoryServerStub (node_server v L e E e')) m call (fresh_sends f) =
        (case serve_Manifest v L e m call of (m', ms, er) \<Rightarrow> (m', S, er))
      \<and> sent_items S = map snd (filter (\<lambda>(i, msg). f i = None) (enumerate 0 (fst (snd (serve_Manifest v L e m call))))))"
proof (intro conjI)
  show "ServerStub_Push (MessengerServerStub (node_server v L e E e')) m call (stub_Init [] packets serr) msg offset =
      Push v L e E e' m call msg offset packets serr"
    by (simp add: server_stub_defs node_impl_def Push_over_stub)
  show "ServerStub_ResumeOffset (MessengerServerStub (node_server v L e E e')) m call msg = ResumeOffset L e m call msg"
    by (simp add: server_stub_defs node_impl_def)
  show "\<exists>k. ServerStub_Diff (MessengerServerStub (node_server v L e E e')) m call (stub_Init [] batches serr) (fresh_sends f) =
        (case Diff L e E f m call batches of (m', rs, er) \<Rightarrow> (m', (fresh_sends f)\<lparr>sent_items := rs, send_count := k\<rparr>, er))"
    using Diff_stub_eq [of "fresh_sends f" L e E m call "stub_Init [] batches serr"]
    by (simp add: server_stub_defs node_impl_def)
  show "\<exists>k. ServerStub_Pull (MessageRepositoryServerStub (node_server v L e E e')) m call (fresh_sends f) mid offset =
        (case Pull v L e f m call mid offset of (m', ps, r) \<Rightarrow> (m', (fresh_sends f)\<lparr>sent_items := ps, send_count := k\<rparr>, r))"
    using Pull_stub_eq [of "fresh_sends f" v L e m call mid offset] by (simp add: server_stub_defs node_impl_def)
  show "\<exists>S. ServerStub_Manifest (MessageRepositoryServerStub (node_server v L e E e')) m call (fresh_sends f) =
        (case serve_Manifest v L e m call of (m', ms, er) \<Rightarrow> (m', S, er))
      \<and> sent_items S = map snd (filter (\<lambda>(i, msg). f i = None) (enumerate 0 (fst (snd (serve_Manifest v L e m call)))))"
    using Manifest_stub_eq [of "fresh_sends f" v L e m call] by (simp add: server_stub_defs node_impl_def)
qed

section \<open>The interface descriptors\<close>

text \<open>The descriptions handed to clients, without the documentation strings.\<close>

record MethodDesc =
  md_Name :: string
  InArgs :: "string list"
  OutArgs :: "string list"

record InterfaceDesc =
  if_Name :: string
  PkgPath :: string
  Methods :: "MethodDesc list"
  Embeds :: "(string \<times> string) list"

definition descMessenger :: InterfaceDesc where
  "descMessenger = \<lparr>if_Name = ''Messenger'', PkgPath = ''messenger/ifc'',
     Methods = [\<lparr>md_Name = ''Diff'', InArgs = [], OutArgs = []\<rparr>,
       \<lparr>md_Name = ''Push'', InArgs = [''Msg'', ''Offset''], OutArgs = []\<rparr>,
       \<lparr>md_Name = ''ResumeOffset'', InArgs = [''Msg''], OutArgs = [''Offset'']\<rparr>],
     Embeds = []\<rparr>"

definition descMessageRepository :: InterfaceDesc where
  "descMessageRepository = \<lparr>if_Name = ''MessageRepository'', PkgPath = ''messenger/ifc'',
     Methods = [\<lparr>md_Name = ''Manifest'', InArgs = [], OutArgs = []\<rparr>,
       \<lparr>md_Name = ''Pull'', InArgs = [''Id'', ''Offset''], OutArgs = ['''']\<rparr>],
     Embeds = []\<rparr>"

definition descMessengerRepository :: InterfaceDesc where
  "descMessengerRepository = \<lparr>if_Name = ''MessengerRepository'', PkgPath = ''messenger/ifc'', Methods = [],
     Embeds = [(''Messenger'', ''messenger/ifc''), (''MessageRepository'', ''messenger/ifc'')]\<rparr>"

definition Describe :: "InterfaceDesc list" where
  "Describe = [descMessengerRepository, descMessenger, descMessageRepository]"

definition described :: "InterfaceDesc list \<Rightarrow> string \<Rightarrow> MethodDesc option" where
  "described ds n = List.find (\<lambda>d. md_Name d = n) (concat (map Methods ds))"

end
