(* ===== verification/ClientStubs.thy ===== *)
theory ClientStubs
  imports ServerStubs DiffSync
begin

text \<open>
  The client side of \<^verbatim>\<open>src/ifc/ifc.vdl.go\<close>, and the client code of \<^verbatim>\<open>src/internal/peers.go\<close>
  written with it, call by call.  The \<^verbatim>\<open>rpc\<close> library is a parameter: a record of the
  functions of \<open>rpc.Client\<close> and \<open>rpc.ClientCall\<close> on a state of the world, one for each type
  a generated stub sends or receives.  For every such library the loops over the stubs are
  the functions of \<^verbatim>\<open>Peer\<close> and \<^verbatim>\<open>DiffSync\<close>.
\<close>

section \<open>The library\<close>

datatype rpc_arg = ArgMessage message | ArgInt64 int64 | ArgString string

record ('w, 'c) rpc_client =
  StartCall :: "'w \<Rightarrow> string \<Rightarrow> string \<Rightarrow> rpc_arg list \<Rightarrow> 'w \<times> (err + 'c)"
  Call_int64 :: "'w \<Rightarrow> string \<Rightarrow> string \<Rightarrow> rpc_arg list \<Rightarrow> 'w \<times> (err + int64)"
  Send_strings :: "'w \<Rightarrow> 'c \<Rightarrow> string list \<Rightarrow> 'w \<times> err option"
  Send_bytes :: "'w \<Rightarrow> 'c \<Rightarrow> bytes \<Rightarrow> 'w \<times> err option"
  CloseSend :: "'w \<Rightarrow> 'c \<Rightarrow> 'w \<times> err option"
  Recv_bools :: "'w \<Rightarrow> 'c \<Rightarrow> bool list \<Rightarrow> 'w \<times> bool list \<times> recv_result"
  Recv_bytes :: "'w \<Rightarrow> 'c \<Rightarrow> bytes \<Rightarrow> 'w \<times> bytes \<times> recv_result"
  Recv_message :: "'w \<Rightarrow> 'c \<Rightarrow> message \<Rightarrow> 'w \<times> message \<times> recv_result"
  Finish_call :: "'w \<Rightarrow> 'c \<Rightarrow> 'w \<times> err option"
  Finish_message :: "'w \<Rightarrow> 'c \<Rightarrow> 'w \<times> (err + message)"

section \<open>The stubs\<close>

record implMessengerClientStub =
  stub_name :: string

definition MessengerClient :: "string \<Rightarrow> implMessengerClientStub" where
  "MessengerClient n = \<lparr>stub_name = n\<rparr>"

record 'c DiffClientCall =
  diff_call :: 'c
  diff_val :: "bool list"
  diff_err :: recv_result

record 'c PushClientCall =
  push_call :: 'c

definition Client_Diff :: "('w, 'c) rpc_client \<Rightarrow> 'w \<Rightarrow> implMessengerClientStub \<Rightarrow> 'w \<times> (err + 'c DiffClientCall)" where
  "Client_Diff C w c =
     (case StartCall C w (stub_name c) ''Diff'' [] of
        (w, Inl er) \<Rightarrow> (w, Inl er)
      | (w, Inr call) \<Rightarrow> (w, Inr \<lparr>diff_call = call, diff_val = [], diff_err = RecvOK\<rparr>))"

definition Client_Push :: "('w, 'c) rpc_client \<Rightarrow> 'w \<Rightarrow> implMessengerClientStub \<Rightarrow> message \<Rightarrow> int64 \<Rightarrow>
    'w \<times> (err + 'c PushClientCall)" where
  "Client_Push C w c i0 i1 =
     (case StartCall C w (stub_name c) ''Push'' [ArgMessage i0, ArgInt64 i1] of
        (w, Inl er) \<Rightarrow> (w, Inl er)
      | (w, Inr call) \<Rightarrow> (w, Inr \<lparr>push_call = call\<rparr>))"

definition Client_ResumeOffset :: "('w, 'c) rpc_client \<Rightarrow> 'w \<Rightarrow> implMessengerClientStub \<Rightarrow> message \<Rightarrow>
    'w \<times> int64 \<times> err option" where
  "Client_ResumeOffset C w c i0 =
     (case Call_int64 C w (stub_name c) ''ResumeOffset'' [ArgMessage i0] of
        (w, Inl er) \<Rightarrow> (w, 0, Some er)
      | (w, Inr o0) \<Rightarrow> (w, o0, None))"

definition DiffClient_Advance :: "('w, 'c) rpc_client \<Rightarrow> 'w \<Rightarrow> 'c DiffClientCall \<Rightarrow> 'w \<times> 'c DiffClientCall \<times> bool" where
  "DiffClient_Advance C w c =
     (let (w, x, er) = Recv_bools C w (diff_call c) (diff_val c); c = c\<lparr>diff_val := x, diff_err := er\<rparr>
      in (w, c, diff_err c = RecvOK))"

definition DiffClient_Value :: "'c DiffClientCall \<Rightarrow> bool list" where
  "DiffClient_Value c = diff_val c"

definition DiffClient_Err :: "'c DiffClientCall \<Rightarrow> err option" where
  "DiffClient_Err c = (case diff_err c of RecvEOF \<Rightarrow> None | RecvOK \<Rightarrow> None | RecvErr er \<Rightarrow> Some er)"

definition DiffClient_Send :: "('w, 'c) rpc_client \<Rightarrow> 'w \<Rightarrow> 'c DiffClientCall \<Rightarrow> string list \<Rightarrow> 'w \<times> err option" where
  "DiffClient_Send C w c item = Send_strings C w (diff_call c) item"

definition DiffClient_Close :: "('w, 'c) rpc_client \<Rightarrow> 'w \<Rightarrow> 'c DiffClientCall \<Rightarrow> 'w \<times> err option" where
  "DiffClient_Close C w c = CloseSend C w (diff_call c)"

definition DiffClient_Finish :: "('w, 'c) rpc_client \<Rightarrow> 'w \<Rightarrow> 'c DiffClientCall \<Rightarrow> 'w \<times> err option" where
  "DiffClient_Finish C w c = Finish_call C w (diff_call c)"

definition PushClient_Send :: "('w, 'c) rpc_client \<Rightarrow> 'w \<Rightarrow> 'c PushClientCall \<Rightarrow> bytes \<Rightarrow> 'w \<times> err option" where
  "PushClient_Send C w c item = Send_bytes C w (push_call c) item"

definition PushClient_Close :: "('w, 'c) rpc_client \<Rightarrow> 'w \<Rightarrow> 'c PushClientCall \<Rightarrow> 'w \<times> err option" where
  "PushClient_Close C w c = CloseSend C w (push_call c)"

definition PushClient_Finish :: "('w, 'c) rpc_client \<Rightarrow> 'w \<Rightarrow> 'c PushClientCall \<Rightarrow> 'w \<times> err option" where
  "PushClient_Finish C w c = Finish_call C w (push_call c)"

section \<open>Pushing over the stubs\<close>

text \<open>
  The body of \<open>doPush\<close> of \<open>peers.go\<close>: the loop of \<open>r.Read\<close> and \<open>Send\<close>, number \<open>k\<close> of its
  rounds, and the call around it.
\<close>

function push_rounds :: "('w, 'c) rpc_client \<Rightarrow> env \<Rightarrow> storage \<Rightarrow> 'c PushClientCall \<Rightarrow> nat \<Rightarrow> 'w push_state \<Rightarrow>
    'w push_state \<times> err option" where
  "push_rounds C e s call k x =
     (case Read e k s (rdr x) of
        (r, buf, res) \<Rightarrow>
          (case (if buf \<noteq> [] then PushClient_Send C (far x) call buf else (far x, None)) of
             (w, Some er) \<Rightarrow> (x\<lparr>far := w, rdr := r\<rparr>, Some er)
           | (w, None) \<Rightarrow>
               let x = x\<lparr>far := w, rdr := r,
                   bytes_sent := (if buf \<noteq> [] then Incr (now e) (int (length buf)) (bytes_sent x) else bytes_sent x)\<rparr>
               in (case res of
                     ReadEOF \<Rightarrow> (let (w, er) = PushClient_Finish C (far x) call in (x\<lparr>far := w\<rparr>, er))
                   | ReadErr er \<Rightarrow> (x, Some er)
                   | ReadOK \<Rightarrow> push_rounds C e s call (Suc k) x)))"
  by pat_completeness auto
termination
proof (relation "measure (\<lambda>(C, e, s, call, k, x). length (read_rest s (rdr x)))", goal_cases)
  case (2 C e s call k x r p buf res w)
  then have a: "Read e k s (rdr x) = (r, buf, ReadOK)" by simp
  from Read_rest(1-3) [OF a] 2 show ?case by (cases "read_rest s (rdr x)") auto
qed simp

declare push_rounds.simps [simp del]

definition doPush_stub :: "('w, 'c) rpc_client \<Rightarrow> env \<Rightarrow> storage \<Rightarrow> message \<Rightarrow> int64 \<Rightarrow> 'w push_state \<Rightarrow>
    'w push_state \<times> err option" where
  "doPush_stub C e s msg offset x =
     (case Client_Push C (far x) (MessengerClient '''') msg offset of
        (w, Inl er) \<Rightarrow> (x\<lparr>far := w\<rparr>, Some er)
      | (w, Inr call) \<Rightarrow> push_rounds C e s call 0 (x\<lparr>far := w\<rparr>))"

text \<open>The closure \<open>fOffset\<close> of \<open>pushMessage\<close>.\<close>

definition fOffset_stub :: "('w, 'c) rpc_client \<Rightarrow> message \<Rightarrow> 'w push_state \<times> int64 \<Rightarrow> ('w push_state \<times> int64) \<times> err option" where
  "fOffset_stub C msg x =
     (let (w, offset, er) = Client_ResumeOffset C (far (fst x)) (MessengerClient '''') msg
      in (((fst x)\<lparr>far := w\<rparr>, offset), er))"

text \<open>The calls of the stubs as a far end of \<^verbatim>\<open>Peer\<close>.\<close>

fun send_packets :: "('w, 'c) rpc_client \<Rightarrow> 'c PushClientCall \<Rightarrow> nat \<Rightarrow> 'w \<Rightarrow> bytes list \<Rightarrow> 'w \<times> (nat \<times> err) option" where
  "send_packets C call k w [] = (w, None)"
| "send_packets C call k w (p # ps) =
     (case PushClient_Send C w call p of
        (w, Some er) \<Rightarrow> (w, Some (k, er))
      | (w, None) \<Rightarrow> send_packets C call (Suc k) w ps)"

definition stub_remote :: "('w, 'c) rpc_client \<Rightarrow> 'w remote" where
  "stub_remote C =
     \<lparr>rpc_push = (\<lambda>w msg offset cs fin.
        (case Client_Push C w (MessengerClient '''') msg offset of
           (w, Inl er) \<Rightarrow> (w, CallFailed er)
         | (w, Inr call) \<Rightarrow>
             (case send_packets C call 0 w cs of
                (w, Some (k, er)) \<Rightarrow> (w, SendFailed k er)
              | (w, None) \<Rightarrow> if fin then map_prod id Finished (PushClient_Finish C w call) else (w, Finished None)))),
      rpc_offset = (\<lambda>w msg.
        (case Client_ResumeOffset C w (MessengerClient '''') msg of
           (w, offset, None) \<Rightarrow> (w, Inr offset)
         | (w, offset, Some er) \<Rightarrow> (w, Inl er)))\<rparr>"

lemma send_packets_bound: "send_packets C call k w ps = (w', Some (j, er)) \<Longrightarrow> k \<le> j"
  by (induction ps arbitrary: k w) (fastforce split: prod.splits option.splits dest: Suc_leD)+

text \<open>What \<open>doPush\<close> makes of the outcome of its sends.\<close>

definition after_sends :: "('w, 'c) rpc_client \<Rightarrow> env \<Rightarrow> 'c PushClientCall \<Rightarrow> nat \<Rightarrow> bytes list \<Rightarrow> 'w push_state \<Rightarrow>
    'w \<times> (nat \<times> err) option \<Rightarrow> 'w push_state \<times> err option" where
  "after_sends C e call k cs x o1 =
     (case o1 of
        (w, Some (j, er)) \<Rightarrow>
          (x\<lparr>far := w, rdr := advance (take (Suc (j - k)) cs) (rdr x),
             bytes_sent := count_sent (now e) (take (j - k) cs) (bytes_sent x)\<rparr>, Some er)
      | (w, None) \<Rightarrow>
          let y = x\<lparr>rdr := advance cs (rdr x), bytes_sent := count_sent (now e) cs (bytes_sent x)\<rparr>
          in if fails e (SysRead contentFileName) then (y\<lparr>far := w\<rparr>, Some (ErrOS ''read''))
             else let (w, er) = PushClient_Finish C w call in (y\<lparr>far := w\<rparr>, er))"

lemma advance_Nil [simp]: "advance [] r = r" "count_sent t [] c = c"
  by (simp_all add: advance_def count_sent_def)

lemma push_rounds_eq:
  "push_rounds C e s call k x =
     after_sends C e call k (pieces e k s (rdr x)) x (send_packets C call k (far x) (pieces e k s (rdr x)))"
proof (induction "length (read_rest s (rdr x))" arbitrary: k x rule: less_induct)
  case less
  obtain r buf res where rd: "Read e k s (rdr x) = (r, buf, res)" by (metis prod_cases3)
  show ?case
  proof (cases "res = ReadOK")
    case True
    note a = rd [unfolded True]
    note rr = Read_rest [OF a]
    obtain w er where snd: "PushClient_Send C (far x) call buf = (w, er)" by force
    show ?thesis
    proof (cases er)
      case (Some er')
      then show ?thesis using a snd rr(2,4)
        by (subst push_rounds.simps) (simp add: Read_pieces [OF a] after_sends_def advance_def)
    next
      case None
      let ?x = "x\<lparr>far := w, rdr := r, bytes_sent := Incr (now e) (int (length buf)) (bytes_sent x)\<rparr>"
      have sh: "length (read_rest s (rdr ?x)) < length (read_rest s (rdr x))"
        using rr(1-3) by (cases "read_rest s (rdr x)") auto
      have adv: "advance (p # ps) (rdr x) = advance ps r" if "p = buf" for p ps
        using that rr(4) by (simp add: advance_def)
      have cnt: "count_sent t (p # ps) c = count_sent t ps (Incr t (int (length p)) c)" for t p ps c
        by (simp add: count_sent_def)
      obtain w' o' where sp: "send_packets C call (Suc k) w (pieces e (Suc k) s r) = (w', o')" by force
      have "push_rounds C e s call k x = push_rounds C e s call (Suc k) ?x"
        using a snd None rr(2) by (subst push_rounds.simps) simp
      also have "\<dots> = after_sends C e call (Suc k) (pieces e (Suc k) s r) ?x (w', o')"
        using less [OF sh, of "Suc k"] sp by simp
      also have "\<dots> = after_sends C e call k (pieces e k s (rdr x)) x (w', o')"
      proof (cases o')
        case None
        then show ?thesis by (simp add: after_sends_def Read_pieces [OF a] adv cnt Let_def)
      next
        case (Some q)
        obtain j er2 where q: "q = (j, er2)" by force
        have "Suc k \<le> j" using send_packets_bound sp Some q by metis
        then have "j - k = Suc (j - Suc k)" by simp
        then show ?thesis using Some q by (simp add: after_sends_def Read_pieces [OF a] adv cnt)
      qed
      finally show ?thesis using snd None sp by (simp add: Read_pieces [OF a])
    qed
  next
    case False
    from Read_end [OF rd False] rd show ?thesis
      by (subst push_rounds.simps) (auto simp: after_sends_def Let_def split: prod.splits)
  qed
qed

lemma doPush_stub_eq: "doPush_stub C e s msg offset x = doPush (stub_remote C) e s msg offset x"
proof -
  obtain w r where p: "Client_Push C (far x) (MessengerClient '''') msg offset = (w, r)" by force
  show ?thesis
  proof (cases r)
    case (Inr call)
    let ?cs = "pieces e 0 s (rdr x)"
    obtain w' o' where sp: "send_packets C call 0 w ?cs = (w', o')" by force
    have cs: "?cs = (let cs = chunks 2048 (read_rest s (rdr x)) in
        if fails e (SysRead contentFileName) then take (short e) cs else cs)"
      by (simp add: pieces_def Let_def)
    show ?thesis using p Inr sp push_rounds_eq [of C e s call 0 "x\<lparr>far := w\<rparr>"]
      by (auto simp: doPush_stub_def doPush_def stub_remote_def after_sends_def cs Let_def
          split: option.splits prod.splits if_splits)
  qed (use p in \<open>simp add: doPush_stub_def doPush_def stub_remote_def Let_def\<close>)
qed

lemma fOffset_stub_eq: "fOffset_stub C msg x = fOffset (stub_remote C) msg x"
  by (auto simp: fOffset_stub_def fOffset_def stub_remote_def Client_ResumeOffset_def split: prod.splits sum.splits)

section \<open>The exchange over the stubs\<close>

text \<open>
  The inner loop of \<open>diffAndEnqueue\<close>, with \<open>n\<close> of its rounds left: it receives from the
  channel of the manifest until the batch is full or the channel is closed.
\<close>

fun fill_batch :: "codec \<Rightarrow> env \<Rightarrow> peer \<Rightarrow> nat \<Rightarrow> nat option \<Rightarrow> message list \<Rightarrow>
    err + (string \<times> PeerInfo) list \<times> nat option \<times> message list" where
  "fill_batch v e p 0 budget ms = Inr ([], budget, ms)"
| "fill_batch v e p (Suc n) budget ms =
     (if budget = Some 0 then Inl (ErrVerror Canceled)
      else case ms of
        [] \<Rightarrow> Inr ([], map_option (\<lambda>k. k - 1) budget, [])
      | msg # ms \<Rightarrow>
          (case fill_batch v e p n (map_option (\<lambda>k. k - 1) budget) ms of
             Inl er \<Rightarrow> Inl er
           | Inr (batch, rest) \<Rightarrow>
               Inr ((case batch_item v e p msg of None \<Rightarrow> batch | Some x \<Rightarrow> x # batch), rest)))"

lemma fill_batch_eq:
  "fill_batch v e p n budget ms =
     (if \<exists>k. budget = Some k \<and> k < min n (Suc (length ms)) then Inl (ErrVerror Canceled)
      else Inr (List.map_filter (batch_item v e p) (take n ms),
        map_option (\<lambda>k. k - min n (Suc (length ms))) budget, drop n ms))"
proof (induction v e p n budget ms rule: fill_batch.induct)
  case (2 v e p n budget ms)
  show ?case
  proof (cases ms)
    case Nil
    then show ?thesis by (cases budget) (auto simp: List.map_filter_def)
  next
    case (Cons msg ms')
    show ?thesis
    proof (cases "budget = Some 0")
      case False
      from 2 [OF False Cons] False Cons show ?thesis
        by (cases budget) (auto simp: List.map_filter_def less_diff_conv split: option.splits)
    qed (simp add: Cons)
  qed
qed (simp add: List.map_filter_def option.map_ident)

function diff_rounds :: "codec \<Rightarrow> env \<Rightarrow> ('w, 'c) rpc_client \<Rightarrow> nat option \<Rightarrow> 'c DiffClientCall option \<Rightarrow> peer \<Rightarrow> 'w \<Rightarrow>
    message list \<Rightarrow> peer \<times> 'w \<times> 'c DiffClientCall option \<times> err option" where
  "diff_rounds v e C budget call p w ms =
     (case fill_batch v e p batchSize budget ms of
        Inl er \<Rightarrow> (p, w, call, Some er)
      | Inr (batchInfo, budget, ms') \<Rightarrow>
          if batchInfo = [] then (p, w, call, None)
          else case (case call of None \<Rightarrow> Client_Diff C w (MessengerClient '''') | Some c \<Rightarrow> (w, Inr c)) of
            (w, Inl er) \<Rightarrow> (p, w, None, Some er)
          | (w, Inr c) \<Rightarrow>
              (case DiffClient_Send C w c (map fst batchInfo) of
                 (w, Some er) \<Rightarrow> (p, w, Some c, Some er)
               | (w, None) \<Rightarrow>
                   (case DiffClient_Advance C w c of
                      (w, c, False) \<Rightarrow> (p, w, Some c, Some (ErrVerror BadProtocol))
                    | (w, c, True) \<Rightarrow>
                        let responses = DiffClient_Value c
                        in if length batchInfo \<noteq> length responses then (p, w, Some c, Some (ErrVerror BadProtocol))
                           else diff_rounds v e C budget (Some c) (fold (answer v e) (zip batchInfo responses) p) w ms')))"
  by pat_completeness auto
termination
proof (relation "measure (\<lambda>(v, e, C, budget, call, p, w, ms). length ms)", goal_cases)
  case (2 v e C budget call p w ms y batchInfo)
  then have "ms \<noteq> []" by (auto simp: fill_batch_eq List.map_filter_def split: if_splits)
  moreover have "\<exists>b. snd y = (b, drop batchSize ms)" using 2 by (auto simp: fill_batch_eq split: if_splits)
  ultimately show ?case using 2 by (auto simp: batchSize_def)
qed simp

declare diff_rounds.simps [simp del]

definition diffAndEnqueue_stub :: "codec \<Rightarrow> env \<Rightarrow> ('w, 'c) rpc_client \<Rightarrow> nat option \<Rightarrow> peer \<Rightarrow> 'w \<Rightarrow> peer \<times> 'w \<times> err option" where
  "diffAndEnqueue_stub v e C budget p w =
     (case Manifest v e (p_store p) of
        Inl er \<Rightarrow> (p, w, Some er)
      | Inr ms \<Rightarrow>
          (case diff_rounds v e C budget None p w ms of
             (p, w, _, Some er) \<Rightarrow> (p, w, Some er)
           | (p, w, None, None) \<Rightarrow> (p, w, None)
           | (p, w, Some c, None) \<Rightarrow>
               (case DiffClient_Close C w c of
                  (w, Some er) \<Rightarrow> (p, w, Some er)
                | (w, None) \<Rightarrow> (let (w, er) = DiffClient_Finish C w c in (p, w, er)))))"

text \<open>The calls of the stubs as a far end of \<^verbatim>\<open>DiffSync\<close>.\<close>

definition stub_diff :: "('w, 'c) rpc_client \<Rightarrow> ('w \<times> 'c DiffClientCall option) diff_remote" where
  "stub_diff C =
     \<lparr>d_open = (\<lambda>R.
        (case Client_Diff C (fst R) (MessengerClient '''') of
           (w, Inl er) \<Rightarrow> ((w, None), Some er)
         | (w, Inr c) \<Rightarrow> ((w, Some c), None))),
      d_batch = (\<lambda>R ids.
        (case snd R of
           None \<Rightarrow> (R, Inr None)
         | Some c \<Rightarrow>
             (case DiffClient_Send C (fst R) c ids of
                (w, Some er) \<Rightarrow> ((w, Some c), Inl er)
              | (w, None) \<Rightarrow>
                  (case DiffClient_Advance C w c of
                     (w, c, ok) \<Rightarrow> ((w, Some c), Inr (if ok then Some (DiffClient_Value c) else None)))))),
      d_finish = (\<lambda>R.
        (case snd R of
           None \<Rightarrow> (R, None)
         | Some c \<Rightarrow>
             (case DiffClient_Close C (fst R) c of
                (w, Some er) \<Rightarrow> ((w, Some c), Some er)
              | (w, None) \<Rightarrow> (let (w, er) = DiffClient_Finish C w c in ((w, Some c), er)))))\<rparr>"

lemma diff_rounds_eq:
  "diff_batches v e (stub_diff C) budget (call \<noteq> None) p (w, call) ms =
     (case diff_rounds v e C budget call p w ms of (p', w', call', er) \<Rightarrow> (p', (w', call'), call' \<noteq> None, er))"
proof (induction "length ms" arbitrary: budget call p w ms rule: less_induct)
  case less
  let ?items = "List.map_filter (batch_item v e p) (take batchSize ms)"
  let ?budget = "map_option (\<lambda>k. k - receives ms) budget"
  note unf = diff_rounds.simps [of v e C budget call p w ms] diff_batches.simps [of v e "stub_diff C" budget "call \<noteq> None" p "(w, call)" ms]
  show ?case
  proof (cases "(\<exists>k. budget = Some k \<and> k < receives ms) \<or> ?items = []")
    case True
    then show ?thesis unfolding unf fill_batch_eq by (auto simp: receives_def)
  next
    case False
    then have fb: "fill_batch v e p batchSize budget ms = Inr (?items, ?budget, drop batchSize ms)"
      unfolding fill_batch_eq by (auto simp: receives_def)
    have sh: "length (drop batchSize ms) < length ms"
      using False by (cases ms) (auto simp: List.map_filter_def batchSize_def)
    obtain w1 r where op: "(case call of None \<Rightarrow> Client_Diff C w (MessengerClient '''') | Some c \<Rightarrow> (w, Inr c)) = (w1, r)" by force
    have op': "(if call \<noteq> None then ((w, call), None) else d_open (stub_diff C) (w, call)) =
        (case r of Inl er \<Rightarrow> ((w1, None), Some er) | Inr c \<Rightarrow> ((w1, Some c), None))"
      using op by (auto simp: stub_diff_def split: option.splits sum.splits)
    show ?thesis
    proof (cases r)
      case (Inl er)
      moreover from this have "call = None" using op by (cases call) auto
      ultimately show ?thesis using op op' fb False unfolding unf by (auto simp: Let_def)
    next
      case (Inr c)
      obtain w2 er where sd: "DiffClient_Send C w1 c (map fst ?items) = (w2, er)" by force
      obtain w3 c3 ok where ad: "DiffClient_Advance C w2 c = (w3, c3, ok)" by (metis prod_cases3)
      have db: "d_batch (stub_diff C) (w1, Some c) (map fst ?items) =
          (case er of Some er \<Rightarrow> ((w2, Some c), Inl er)
           | None \<Rightarrow> ((w3, Some c3), Inr (if ok then Some (DiffClient_Value c3) else None)))"
        using sd ad by (auto simp: stub_diff_def split: option.splits)
      show ?thesis
      proof (cases "er = None \<and> ok \<and> length ?items = length (DiffClient_Value c3)")
        case True
        with less.hyps [OF sh, of ?budget "Some c3" "fold (answer v e) (zip ?items (DiffClient_Value c3)) p" w3]
        show ?thesis using op op' fb False Inr sd ad db unfolding unf by (auto simp: Let_def)
      next
        case f: False
        then show ?thesis using op op' fb False Inr sd ad db unfolding unf
          by (cases er; cases ok) (auto simp: Let_def)
      qed
    qed
  qed
qed

lemma diffAndEnqueue_stub_eq:
  "diffAndEnqueue_stub v e C budget p w =
     (case diffAndEnqueue v e (stub_diff C) budget p (w, None) of (p', R, er) \<Rightarrow> (p', fst R, er))"
proof (cases "Manifest v e (p_store p)")
  case (Inr ms)
  obtain p' w' call er where d: "diff_rounds v e C budget None p w ms = (p', w', call, er)" by (metis prod_cases4)
  from diff_rounds_eq [of v e C budget None p w ms] d
  have "diff_batches v e (stub_diff C) budget False p (w, None) ms = (p', (w', call), call \<noteq> None, er)" by simp
  with d Inr show ?thesis
    by (auto simp: diffAndEnqueue_stub_def diffAndEnqueue_def stub_diff_def Let_def split: option.splits prod.splits)
qed (simp add: diffAndEnqueue_stub_def diffAndEnqueue_def)


end
