(* ===== verification/RpcLink.thy ===== *)
theory RpcLink
  imports ClientStubs
begin

text \<open>
  Two nodes joined by the \<^verbatim>\<open>rpc\<close> library.  The contract of the library for a streaming call
  of \<open>Push\<close> and a call of \<open>ResumeOffset\<close> is a locale; under it everything that is proved of a
  push to a far end holds of a push through the generated client stub, the library, and the
  generated server stub of a node.  An implementation inside one process meets the contract.
\<close>

section \<open>A library that keeps its contract\<close>

text \<open>
  What the documentation of the library promises of a streaming call: the call is started,
  the items arrive in the order in which they were sent, and \<open>Finish\<close> closes the stream,
  waits for the server and returns what it returned.  \<open>node_at\<close> is the state of the server,
  \<open>ready\<close> says that it can be called, and \<open>opened w c m off cs\<close> that the call \<open>c\<close> of \<open>Push\<close>
  with the arguments \<open>m\<close> and \<open>off\<close> has sent the items \<open>cs\<close>.
\<close>

locale push_transport =
  fixes C :: "('w, 'c) rpc_client"
    and node_at :: "'w \<Rightarrow> 'n"
    and ready :: "'w \<Rightarrow> bool"
    and opened :: "'w \<Rightarrow> 'c \<Rightarrow> message \<Rightarrow> int64 \<Rightarrow> bytes list \<Rightarrow> bool"
    and push_handler :: "'n \<Rightarrow> message \<Rightarrow> int64 \<Rightarrow> bytes list \<Rightarrow> 'n \<times> err option"
    and offset_handler :: "'n \<Rightarrow> message \<Rightarrow> 'n \<times> (err + int64)"
  assumes start: "ready w \<Longrightarrow> \<exists>w' c. StartCall C w '''' ''Push'' [ArgMessage m, ArgInt64 off] = (w', Inr c)
      \<and> opened w' c m off [] \<and> node_at w' = node_at w"
    and send: "opened w c m off cs \<Longrightarrow> \<exists>w'. Send_bytes C w c b = (w', None) \<and> opened w' c m off (cs @ [b]) \<and> node_at w' = node_at w"
    and finish: "opened w c m off cs \<Longrightarrow> \<exists>w'. Finish_call C w c = (w', snd (push_handler (node_at w) m off cs))
      \<and> node_at w' = fst (push_handler (node_at w) m off cs) \<and> ready w'"
    and call: "ready w \<Longrightarrow> \<exists>w'. Call_int64 C w '''' ''ResumeOffset'' [ArgMessage m] = (w', snd (offset_handler (node_at w) m))
      \<and> node_at w' = fst (offset_handler (node_at w) m) \<and> ready w'"
begin

lemma sends_all:
  "opened w (push_call c) m off cs \<Longrightarrow>
    \<exists>w'. send_packets C c k w ps = (w', None) \<and> opened w' (push_call c) m off (cs @ ps) \<and> node_at w' = node_at w"
proof (induction ps arbitrary: k w cs)
  case (Cons p ps)
  from send [OF Cons.prems, of p] obtain w1 where w1: "Send_bytes C w (push_call c) p = (w1, None)"
    "opened w1 (push_call c) m off (cs @ [p])" "node_at w1 = node_at w" by blast
  from Cons.IH [OF w1(2), of "Suc k"] w1(1,3) show ?case by (auto simp: PushClient_Send_def)
qed auto

lemma push_served:
  assumes "ready w" and "push_handler (node_at w) m off cs = (n, er)"
  shows "\<exists>w'. rpc_push (stub_remote C) w m off cs True = (w', Finished er) \<and> node_at w' = n \<and> ready w'"
proof -
  obtain w1 c where s: "StartCall C w '''' ''Push'' [ArgMessage m, ArgInt64 off] = (w1, Inr c)"
    "opened w1 c m off []" "node_at w1 = node_at w" using start [OF assms(1)] by blast
  obtain w2 where p: "send_packets C \<lparr>push_call = c\<rparr> 0 w1 cs = (w2, None)" "opened w2 c m off cs" "node_at w2 = node_at w"
    using sends_all [of w1 "\<lparr>push_call = c\<rparr>" m off "[]" 0 cs] s(2,3) by auto
  obtain w3 where f: "Finish_call C w2 c = (w3, er)" "node_at w3 = n" "ready w3"
    using finish [OF p(2)] p(3) assms(2) by auto
  show ?thesis using s(1) p(1) f
    by (simp add: stub_remote_def Client_Push_def MessengerClient_def PushClient_Finish_def)
qed

lemma offset_served:
  assumes "ready w" and "offset_handler (node_at w) m = (n, r)"
  shows "\<exists>w'. rpc_offset (stub_remote C) w m = (w', r) \<and> node_at w' = n \<and> ready w'"
  using call [OF assms(1), of m] assms(2)
  by (cases r) (auto simp: stub_remote_def Client_ResumeOffset_def MessengerClient_def)

end

text \<open>Over such a library the promises of the far end hold for the stubs.\<close>

locale served_target =
  push_transport C node_at ready opened push_handler offset_handler + target: push_target N accepts answers holds stored announced
  for C :: "('w, 'c) rpc_client" and node_at :: "'w \<Rightarrow> 'n" and ready :: "'w \<Rightarrow> bool"
    and opened :: "'w \<Rightarrow> 'c \<Rightarrow> message \<Rightarrow> int64 \<Rightarrow> bytes list \<Rightarrow> bool" and push_handler and offset_handler
    and N :: "'n remote" and accepts and answers and holds and stored and announced +
  assumes handles_push: "rpc_push N n m off cs True = map_prod id Finished (push_handler n m off cs)"
    and handles_offset: "rpc_offset N n m = offset_handler n m"
begin

sublocale over: push_target "stub_remote C" "\<lambda>w. accepts (node_at w)" "\<lambda>w. answers (node_at w)"
  "\<lambda>w m m0 b. ready w \<and> holds (node_at w) m m0 b" "\<lambda>w m m0 b. ready w \<and> stored (node_at w) m m0 b" "\<lambda>w. announced (node_at w)"
proof (unfold_locales, goal_cases)
  case (1 w m m0 b cs)
  obtain n er where h: "push_handler (node_at w) m (int (length b)) cs = (n, er)" by force
  with 1 target.push_rest [of "node_at w" m m0 b cs] push_served [of w m "int (length b)" cs n er] show ?case
    by (auto simp: handles_push)
next
  case (2 w m m0 b off cs)
  obtain n er where h: "push_handler (node_at w) m off cs = (n, er)" by force
  with 2 target.push_elsewhere [of "node_at w" m m0 b off cs] push_served [of w m off cs n er] show ?case
    by (auto simp: handles_push)
next
  case (3 w m m0 b)
  obtain n r where h: "offset_handler (node_at w) m = (n, r)" by force
  with 3 target.offset_of [of "node_at w" m m0 b] offset_served [of w m n r] show ?case
    by (auto simp: handles_offset)
qed

end

context served_target
begin

lemma delivers_over:
  assumes "has_message v e p msg content" and "ready w" and "accepts (node_at w) (with_hop p msg)"
    and "holds (node_at w) (with_hop p msg) (with_hop p msg) []"
  shows "\<exists>w' h. pushMessage v L e (stub_remote C) p w (Id msg) = Some (set_bytes_sent h p, w', None)
    \<and> ready w' \<and> stored (node_at w') (with_hop p msg) (with_hop p msg) content
    \<and> announced (node_at w') = map_option (\<lambda>ms. ms @ [with_hop p msg]) (announced (node_at w))
    \<and> Value h = Value (numBytesSent (p_counters p)) + Length msg"
  using over.delivers [OF assms(1,3), of "with_hop p msg" L] assms(2,4) by blast

end

section \<open>A node behind the stubs\<close>

text \<open>The handlers of a node, reached through its generated server stub.\<close>

definition node_push :: "codec \<Rightarrow> lib \<Rightarrow> env \<Rightarrow> sec_call \<Rightarrow> Messenger \<Rightarrow> message \<Rightarrow> int64 \<Rightarrow> bytes list \<Rightarrow>
    Messenger \<times> err option" where
  "node_push v L e call M msg off cs =
     ServerStub_Push (MessengerServerStub (node_server v L e (\<lambda>_. e) e)) M call (stub_Init [] cs None) msg off"

definition node_offset :: "codec \<Rightarrow> lib \<Rightarrow> env \<Rightarrow> sec_call \<Rightarrow> Messenger \<Rightarrow> message \<Rightarrow> Messenger \<times> (err + int64)" where
  "node_offset v L e call M msg =
     ServerStub_ResumeOffset (MessengerServerStub (node_server v L e (\<lambda>_. e) e)) M call msg"

lemma node_handlers:
  "node_push v L e call M msg off cs = Push v L e (\<lambda>_. e) e M call msg off cs None"
  "node_offset v L e call M msg = ResumeOffset L e M call msg"
  by (simp_all add: node_push_def node_offset_def server_stub_defs node_impl_def Push_over_stub)

lemma node_served:
  assumes "push_transport C node_at ready opened (node_push v L e call) (node_offset v L e call)"
  shows "served_target C node_at ready opened (node_push v L e call) (node_offset v L e call) (node_remote v L e call)
    (\<lambda>M. admitted L e M call) (\<lambda>M _. snd (Authorize L (now e) (RateAclIn (params M)) call) = None)
    (node_holds v e) (node_stored v e) notifier"
proof (intro served_target.intro assms node.push_target_axioms served_target_axioms.intro)
  show "rpc_push (node_remote v L e call) n m off cs True = map_prod id Finished (node_push v L e call n m off cs)" for n m off cs
    by (simp add: node_remote_def node_handlers map_prod_def split: prod.split)
  show "rpc_offset (node_remote v L e call) n m = node_offset v L e call n m" for n m
    by (simp add: node_remote_def node_handlers)
qed

text \<open>
  A library inside one process: it looks the method up in the descriptions of the interface,
  keeps the items that are sent, and calls the server stub when the stream is finished.
\<close>

record link =
  l_node :: Messenger
  l_call :: "(string \<times> rpc_arg list \<times> bytes list) option"

definition lookup :: "string \<Rightarrow> rpc_arg list \<Rightarrow> err option" where
  "lookup n args =
     (case described Describe n of
        None \<Rightarrow> Some (ErrVerror UnknownMethod)
      | Some d \<Rightarrow> if length args = length (InArgs d) then None else Some (ErrVerror BadArg))"

fun finish_push :: "codec \<Rightarrow> lib \<Rightarrow> env \<Rightarrow> sec_call \<Rightarrow> Messenger \<Rightarrow> rpc_arg list \<Rightarrow> bytes list \<Rightarrow> Messenger \<times> err option" where
  "finish_push v L e call M [ArgMessage m, ArgInt64 off] cs = node_push v L e call M m off cs"
| "finish_push v L e call M _ cs = (M, Some (ErrVerror BadArg))"

fun call_offset :: "codec \<Rightarrow> lib \<Rightarrow> env \<Rightarrow> sec_call \<Rightarrow> Messenger \<Rightarrow> rpc_arg list \<Rightarrow> Messenger \<times> (err + int64)" where
  "call_offset v L e call M [ArgMessage m] = node_offset v L e call M m"
| "call_offset v L e call M _ = (M, Inl (ErrVerror BadArg))"

definition loopback :: "codec \<Rightarrow> lib \<Rightarrow> env \<Rightarrow> sec_call \<Rightarrow> (link, unit) rpc_client" where
  "loopback v L e call =
     \<lparr>StartCall = (\<lambda>w n meth args. case lookup meth args of
          Some er \<Rightarrow> (w, Inl er) | None \<Rightarrow> (w\<lparr>l_call := Some (meth, args, [])\<rparr>, Inr ())),
      Call_int64 = (\<lambda>w n meth args. case lookup meth args of
          Some er \<Rightarrow> (w, Inl er)
        | None \<Rightarrow> if meth = ''ResumeOffset''
            then let (M, r) = call_offset v L e call (l_node w) args in (w\<lparr>l_node := M\<rparr>, r)
            else (w, Inl (ErrVerror BadProtocol))),
      Send_strings = (\<lambda>w c item. (w, Some (ErrVerror BadProtocol))),
      Send_bytes = (\<lambda>w c item. case l_call w of
          None \<Rightarrow> (w, Some (ErrVerror BadProtocol))
        | Some (meth, args, cs) \<Rightarrow> (w\<lparr>l_call := Some (meth, args, cs @ [item])\<rparr>, None)),
      CloseSend = (\<lambda>w c. (w, None)),
      Recv_bools = (\<lambda>w c x. (w, x, RecvEOF)),
      Recv_bytes = (\<lambda>w c x. (w, x, RecvEOF)),
      Recv_message = (\<lambda>w c x. (w, x, RecvEOF)),
      Finish_call = (\<lambda>w c. case l_call w of
          Some (meth, args, cs) \<Rightarrow> if meth = ''Push''
            then let (M, er) = finish_push v L e call (l_node w) args cs in (w\<lparr>l_node := M, l_call := None\<rparr>, er)
            else (w, Some (ErrVerror BadProtocol))
        | None \<Rightarrow> (w, Some (ErrVerror BadProtocol))),
      Finish_message = (\<lambda>w c. (w, Inl (ErrVerror BadProtocol)))\<rparr>"

text \<open>The methods and the numbers of arguments of the client stubs are those the server describes.\<close>

lemma stub_calls_described:
  "lookup ''Diff'' [] = None" "lookup ''Push'' [ArgMessage m, ArgInt64 off] = None" "lookup ''ResumeOffset'' [ArgMessage m] = None"
  "lookup ''Manifest'' [] = None" "lookup ''Pull'' [ArgString i, ArgInt64 off] = None"
  by (simp_all add: lookup_def described_def Describe_def descMessengerRepository_def descMessenger_def descMessageRepository_def)

interpretation loopback: push_transport "loopback v L e call" l_node "\<lambda>w. True"
  "\<lambda>w c m off cs. l_call w = Some (''Push'', [ArgMessage m, ArgInt64 off], cs)" "node_push v L e call" "node_offset v L e call"
  for v L e call
proof (unfold_locales, goal_cases)
  case (3 w c m off cs)
  then show ?case by (simp add: loopback_def split: prod.split)
next
  case (4 w m)
  show ?case by (simp add: loopback_def stub_calls_described split: prod.split)
qed (simp_all add: loopback_def stub_calls_described)

interpretation looped: served_target "loopback v L e call" l_node "\<lambda>w. True"
  "\<lambda>w c m off cs. l_call w = Some (''Push'', [ArgMessage m, ArgInt64 off], cs)" "node_push v L e call" "node_offset v L e call"
  "node_remote v L e call" "\<lambda>M. admitted L e M call"
  "\<lambda>M _. snd (Authorize L (now e) (RateAclIn (params M)) call) = None" "node_holds v e" "node_stored v e" notifier
  for v L e call
  by (rule node_served [OF loopback.push_transport_axioms])

text \<open>
  C9: with any implementation of the \<^verbatim>\<open>rpc\<close> library that keeps its contract, a push through
  the generated client stub, the library and the generated server stub delivers: the node at
  the other end has the complete message with the content of the sender and the hop added,
  and has published it, and the sender has counted the bytes.
\<close>

theorem push_over_rpc:
  assumes "push_transport C node_at ready opened (node_push v L e' call) (node_offset v L e' call)"
    and "ready w" and "has_message v e p msg content"
    and "admitted L e' (node_at w) call (with_hop p msg)" and "fs_idle v e' (store (node_at w)) (Id msg)"
    and "fs_view v (store (node_at w)) (Id msg) = Absent"
  shows "\<exists>p' w'. pushMessage v L e (stub_remote C) p w (Id msg) = Some (p', w', None) \<and> ready w'
    \<and> fs_view v (store (node_at w')) (Id msg) = Complete (with_hop p msg) content
    \<and> notifier (node_at w') = map_option (\<lambda>ms. ms @ [with_hop p msg]) (notifier (node_at w))
    \<and> Value (numBytesSent (p_counters p')) = Value (numBytesSent (p_counters p)) + Length msg"
proof -
  have "node_holds v e' (node_at w) (with_hop p msg) (with_hop p msg) []"
    using assms(5,6) by (simp add: node_holds_def resumable_def)
  from served_target.delivers_over [OF node_served [OF assms(1)] assms(3,2,4) this, of L] show ?thesis
    by (auto simp: node_stored_def set_bytes_sent_def)
qed

theorem push_over_rpc_witness:
  "\<exists>s p' w'. pushMessage text_codec ex_lib ex_env (stub_remote (loopback text_codec ex_lib ex_env ex_self)) (ex_peer s)
       \<lparr>l_node = ex_node, l_call = None\<rparr> ''m1'' = Some (p', w', None)
     \<and> fs_view text_codec (store (l_node w')) ''m1'' = Complete (ex_msg\<lparr>Hops := [''alice'', ''n1'']\<rparr>) ''hi''"
proof -
  obtain s where s: "has_message text_codec ex_env (ex_peer s) ex_msg ''hi''" using ex_has_message by blast
  let ?w = "\<lparr>l_node = ex_node, l_call = None\<rparr>"
  have "with_hop (ex_peer s) ex_msg = ex_msg\<lparr>Hops := [''alice'', ''n1'']\<rparr>" by (simp add: with_hop_def ex_peer_def)
  moreover have "admitted ex_lib ex_env (l_node ?w) ex_self (with_hop (ex_peer s) ex_msg)"
    using ex_self_admitted(2) [OF ex_node_limits] by simp
  ultimately show ?thesis
    using push_over_rpc [OF loopback.push_transport_axioms TrueI s, where w = ?w and L = ex_lib and e' = ex_env and call = ex_self] ex_idle init_idle(2) by auto
qed

end
