(* ===== verification/RepoClient.thy ===== *)
theory RepoClient
  imports RpcLink
begin

text \<open>
  The client stubs of \<open>MessageRepository\<close> (\<^verbatim>\<open>src/ifc/ifc.vdl.go\<close>) and a client that uses
  them as their documentation says: it takes items while \<open>Advance\<close> returns true, asks
  \<open>Err\<close> for the error of the stream, and finishes the call.
\<close>

section \<open>The stubs\<close>

record implMessageRepositoryClientStub =
  repo_name :: string

definition MessageRepositoryClient :: "string \<Rightarrow> implMessageRepositoryClientStub" where
  "MessageRepositoryClient n = \<lparr>repo_name = n\<rparr>"

text \<open>A client of both interfaces has the same name in all its stubs.\<close>

record implMessengerRepositoryClientStub =
  both_name :: string
  MessengerClientStub :: implMessengerClientStub
  MessageRepositoryClientStub :: implMessageRepositoryClientStub

definition MessengerRepositoryClient :: "string \<Rightarrow> implMessengerRepositoryClientStub" where
  "MessengerRepositoryClient n = \<lparr>both_name = n, MessengerClientStub = MessengerClient n,
     MessageRepositoryClientStub = MessageRepositoryClient n\<rparr>"

record 'c ManifestClientCall =
  man_call :: 'c
  man_val :: message
  man_err :: recv_result

record 'c PullClientCall =
  pull_call :: 'c
  pull_val :: bytes
  pull_err :: recv_result

definition Client_Manifest :: "('w, 'c) rpc_client \<Rightarrow> 'w \<Rightarrow> implMessageRepositoryClientStub \<Rightarrow> 'w \<times> (err + 'c ManifestClientCall)" where
  "Client_Manifest C w c =
     (case StartCall C w (repo_name c) ''Manifest'' [] of
        (w, Inl er) \<Rightarrow> (w, Inl er)
      | (w, Inr call) \<Rightarrow> (w, Inr \<lparr>man_call = call, man_val = zero_message, man_err = RecvOK\<rparr>))"

definition Client_Pull :: "('w, 'c) rpc_client \<Rightarrow> 'w \<Rightarrow> implMessageRepositoryClientStub \<Rightarrow> string \<Rightarrow> int64 \<Rightarrow>
    'w \<times> (err + 'c PullClientCall)" where
  "Client_Pull C w c i0 i1 =
     (case StartCall C w (repo_name c) ''Pull'' [ArgString i0, ArgInt64 i1] of
        (w, Inl er) \<Rightarrow> (w, Inl er)
      | (w, Inr call) \<Rightarrow> (w, Inr \<lparr>pull_call = call, pull_val = [], pull_err = RecvOK\<rparr>))"

definition ManifestClient_Advance :: "('w, 'c) rpc_client \<Rightarrow> 'w \<Rightarrow> 'c ManifestClientCall \<Rightarrow> 'w \<times> 'c ManifestClientCall \<times> bool" where
  "ManifestClient_Advance C w c =
     (let c = c\<lparr>man_val := zero_message\<rparr>; (w, x, er) = Recv_message C w (man_call c) (man_val c);
          c = c\<lparr>man_val := x, man_err := er\<rparr>
      in (w, c, man_err c = RecvOK))"

definition ManifestClient_Value :: "'c ManifestClientCall \<Rightarrow> message" where
  "ManifestClient_Value c = man_val c"

definition ManifestClient_Err :: "'c ManifestClientCall \<Rightarrow> err option" where
  "ManifestClient_Err c = (case man_err c of RecvEOF \<Rightarrow> None | RecvOK \<Rightarrow> None | RecvErr er \<Rightarrow> Some er)"

definition ManifestClient_Finish :: "('w, 'c) rpc_client \<Rightarrow> 'w \<Rightarrow> 'c ManifestClientCall \<Rightarrow> 'w \<times> err option" where
  "ManifestClient_Finish C w c = Finish_call C w (man_call c)"

definition PullClient_Advance :: "('w, 'c) rpc_client \<Rightarrow> 'w \<Rightarrow> 'c PullClientCall \<Rightarrow> 'w \<times> 'c PullClientCall \<times> bool" where
  "PullClient_Advance C w c =
     (let (w, x, er) = Recv_bytes C w (pull_call c) (pull_val c); c = c\<lparr>pull_val := x, pull_err := er\<rparr>
      in (w, c, pull_err c = RecvOK))"

definition PullClient_Value :: "'c PullClientCall \<Rightarrow> bytes" where
  "PullClient_Value c = pull_val c"

definition PullClient_Err :: "'c PullClientCall \<Rightarrow> err option" where
  "PullClient_Err c = (case pull_err c of RecvEOF \<Rightarrow> None | RecvOK \<Rightarrow> None | RecvErr er \<Rightarrow> Some er)"

definition PullClient_Finish :: "('w, 'c) rpc_client \<Rightarrow> 'w \<Rightarrow> 'c PullClientCall \<Rightarrow> 'w \<times> message \<times> err option" where
  "PullClient_Finish C w c =
     (case Finish_message C w (pull_call c) of
        (w, Inl er) \<Rightarrow> (w, zero_message, Some er)
      | (w, Inr o0) \<Rightarrow> (w, o0, None))"

section \<open>A client\<close>

text \<open>The items until \<open>Advance\<close> returns false; \<open>None\<close> when the fuel does not reach so far.\<close>

fun collect :: "('w \<Rightarrow> 's \<Rightarrow> 'w \<times> 's \<times> bool) \<Rightarrow> ('s \<Rightarrow> 'a) \<Rightarrow> nat \<Rightarrow> 'w \<Rightarrow> 's \<Rightarrow> ('w \<times> 's \<times> 'a list) option" where
  "collect adv val 0 w s = None"
| "collect adv val (Suc n) w s =
     (case adv w s of
        (w, s, False) \<Rightarrow> Some (w, s, [])
      | (w, s, True) \<Rightarrow> map_option (\<lambda>(w', s', xs). (w', s', val s # xs)) (collect adv val n w s))"

lemma collect_run:
  assumes "P w s xs" and "length xs < n"
    and "\<And>w s x xs. P w s (x # xs) \<Longrightarrow> \<exists>w' s'. adv w s = (w', s', True) \<and> val s' = x \<and> P w' s' xs"
    and "\<And>w s. P w s [] \<Longrightarrow> \<exists>w' s'. adv w s = (w', s', False) \<and> Q w' s'"
  shows "\<exists>w' s'. collect adv val n w s = Some (w', s', xs) \<and> Q w' s'"
  using assms(1,2)
proof (induction n arbitrary: w s xs)
  case (Suc n)
  show ?case
  proof (cases xs)
    case Nil
    with assms(4) Suc.prems(1) obtain w' s' where "adv w s = (w', s', False)" "Q w' s'" by blast
    with Nil show ?thesis by simp
  next
    case (Cons x ys)
    with assms(3) Suc.prems(1) obtain w1 s1 where a: "adv w s = (w1, s1, True)" "val s1 = x" "P w1 s1 ys" by blast
    with Suc.IH [of w1 s1 ys] Suc.prems(2) Cons show ?thesis by auto
  qed
qed simp

definition pull_all :: "('w, 'c) rpc_client \<Rightarrow> nat \<Rightarrow> 'w \<Rightarrow> string \<Rightarrow> int64 \<Rightarrow> ('w \<times> (err + message \<times> bytes)) option" where
  "pull_all C n w mid off =
     (case Client_Pull C w (MessageRepositoryClient '''') mid off of
        (w, Inl er) \<Rightarrow> Some (w, Inl er)
      | (w, Inr c) \<Rightarrow>
          (case collect (PullClient_Advance C) PullClient_Value n w c of
             None \<Rightarrow> None
           | Some (w, c, ps) \<Rightarrow>
               (case PullClient_Err c of
                  Some er \<Rightarrow> Some (w, Inl er)
                | None \<Rightarrow>
                    (case PullClient_Finish C w c of
                       (w, msg, Some er) \<Rightarrow> Some (w, Inl er)
                     | (w, msg, None) \<Rightarrow> Some (w, Inr (msg, concat ps))))))"

definition manifest_all :: "('w, 'c) rpc_client \<Rightarrow> nat \<Rightarrow> 'w \<Rightarrow> ('w \<times> (err + message list)) option" where
  "manifest_all C n w =
     (case Client_Manifest C w (MessageRepositoryClient '''') of
        (w, Inl er) \<Rightarrow> Some (w, Inl er)
      | (w, Inr c) \<Rightarrow>
          (case collect (ManifestClient_Advance C) ManifestClient_Value n w c of
             None \<Rightarrow> None
           | Some (w, c, ms) \<Rightarrow>
               (case ManifestClient_Err c of
                  Some er \<Rightarrow> Some (w, Inl er)
                | None \<Rightarrow>
                    (case ManifestClient_Finish C w c of
                       (w, Some er) \<Rightarrow> Some (w, Inl er)
                     | (w, None) \<Rightarrow> Some (w, Inr ms)))))"

section \<open>The contract of the library\<close>

text \<open>
  The server runs its handler and the items arrive in order, then the end of the stream;
  \<open>pulling w c ps r\<close> says that the items \<open>ps\<close> and the result \<open>r\<close> of the call are still to come.
\<close>

locale repo_transport =
  fixes C :: "('w, 'c) rpc_client"
    and node_at :: "'w \<Rightarrow> 'n"
    and ready :: "'w \<Rightarrow> bool"
    and pulling :: "'w \<Rightarrow> 'c \<Rightarrow> bytes list \<Rightarrow> err + message \<Rightarrow> bool"
    and listing :: "'w \<Rightarrow> 'c \<Rightarrow> message list \<Rightarrow> err option \<Rightarrow> bool"
    and pull_handler :: "'n \<Rightarrow> string \<Rightarrow> int64 \<Rightarrow> 'n \<times> bytes list \<times> (err + message)"
    and manifest_handler :: "'n \<Rightarrow> 'n \<times> message list \<times> err option"
  assumes start_pull: "ready w \<Longrightarrow> pull_handler (node_at w) mid off = (n, ps, r) \<Longrightarrow>
      \<exists>w' c. StartCall C w '''' ''Pull'' [ArgString mid, ArgInt64 off] = (w', Inr c) \<and> pulling w' c ps r \<and> node_at w' = n"
    and recv_piece: "pulling w c (p # ps) r \<Longrightarrow>
      \<exists>w'. Recv_bytes C w c x = (w', p, RecvOK) \<and> pulling w' c ps r \<and> node_at w' = node_at w"
    and recv_end: "pulling w c [] r \<Longrightarrow>
      \<exists>w' y. Recv_bytes C w c x = (w', y, RecvEOF) \<and> pulling w' c [] r \<and> node_at w' = node_at w"
    and finish_pull: "pulling w c [] r \<Longrightarrow> \<exists>w'. Finish_message C w c = (w', r) \<and> ready w' \<and> node_at w' = node_at w"
    and start_manifest: "ready w \<Longrightarrow> manifest_handler (node_at w) = (n, ms, er) \<Longrightarrow>
      \<exists>w' c. StartCall C w '''' ''Manifest'' [] = (w', Inr c) \<and> listing w' c ms er \<and> node_at w' = n"
    and recv_message: "listing w c (m # ms) er \<Longrightarrow>
      \<exists>w'. Recv_message C w c z = (w', m, RecvOK) \<and> listing w' c ms er \<and> node_at w' = node_at w"
    and recv_last: "listing w c [] er \<Longrightarrow>
      \<exists>w' y. Recv_message C w c z = (w', y, RecvEOF) \<and> listing w' c [] er \<and> node_at w' = node_at w"
    and finish_manifest: "listing w c [] er \<Longrightarrow> \<exists>w'. Finish_call C w c = (w', er) \<and> ready w' \<and> node_at w' = node_at w"
begin

lemma collects_pieces:
  assumes "pulling w (pull_call s) ps r" and "length ps < n"
  shows "\<exists>w' s'. collect (PullClient_Advance C) PullClient_Value n w s = Some (w', s', ps)
    \<and> pulling w' (pull_call s') [] r \<and> PullClient_Err s' = None \<and> node_at w' = node_at w"
proof -
  let ?P = "\<lambda>u (s :: 'c PullClientCall) ps. pulling u (pull_call s) ps r \<and> node_at u = node_at w"
  have "\<exists>w' s'. collect (PullClient_Advance C) PullClient_Value n w s = Some (w', s', ps)
    \<and> pulling w' (pull_call s') [] r \<and> node_at w' = node_at w \<and> PullClient_Err s' = None"
  proof (rule collect_run [where P = ?P and Q = "\<lambda>u s. pulling u (pull_call s) [] r \<and> node_at u = node_at w \<and> PullClient_Err s = None"])
    fix u and s :: "'c PullClientCall" and x xs assume "?P u s (x # xs)"
    then show "\<exists>w' s'. PullClient_Advance C u s = (w', s', True) \<and> PullClient_Value s' = x \<and> ?P w' s' xs"
      using recv_piece [of u "pull_call s" x xs r "pull_val s"] by (auto simp: PullClient_Advance_def PullClient_Value_def)
  next
    fix u and s :: "'c PullClientCall" assume "?P u s []"
    then show "\<exists>w' s'. PullClient_Advance C u s = (w', s', False) \<and> pulling w' (pull_call s') [] r
        \<and> node_at w' = node_at w \<and> PullClient_Err s' = None"
      using recv_end [of u "pull_call s" r "pull_val s"] by (auto simp: PullClient_Advance_def PullClient_Err_def)
  qed (use assms in auto)
  then show ?thesis by blast
qed

lemma collects_messages:
  assumes "listing w (man_call s) ms er" and "length ms < n"
  shows "\<exists>w' s'. collect (ManifestClient_Advance C) ManifestClient_Value n w s = Some (w', s', ms)
    \<and> listing w' (man_call s') [] er \<and> ManifestClient_Err s' = None \<and> node_at w' = node_at w"
proof -
  let ?P = "\<lambda>u (s :: 'c ManifestClientCall) ms. listing u (man_call s) ms er \<and> node_at u = node_at w"
  have "\<exists>w' s'. collect (ManifestClient_Advance C) ManifestClient_Value n w s = Some (w', s', ms)
    \<and> listing w' (man_call s') [] er \<and> node_at w' = node_at w \<and> ManifestClient_Err s' = None"
  proof (rule collect_run [where P = ?P and Q = "\<lambda>u s. listing u (man_call s) [] er \<and> node_at u = node_at w \<and> ManifestClient_Err s = None"])
    fix u and s :: "'c ManifestClientCall" and x xs assume "?P u s (x # xs)"
    then show "\<exists>w' s'. ManifestClient_Advance C u s = (w', s', True) \<and> ManifestClient_Value s' = x \<and> ?P w' s' xs"
      using recv_message [of u "man_call s" x xs er zero_message] by (auto simp: ManifestClient_Advance_def ManifestClient_Value_def)
  next
    fix u and s :: "'c ManifestClientCall" assume "?P u s []"
    then show "\<exists>w' s'. ManifestClient_Advance C u s = (w', s', False) \<and> listing w' (man_call s') [] er
        \<and> node_at w' = node_at w \<and> ManifestClient_Err s' = None"
      using recv_last [of u "man_call s" er zero_message] by (auto simp: ManifestClient_Advance_def ManifestClient_Err_def)
  qed (use assms in auto)
  then show ?thesis by blast
qed

lemma pulls:
  assumes "ready w" and "pull_handler (node_at w) mid off = (n, ps, r)" and "length ps < k"
  shows "\<exists>w'. pull_all C k w mid off = Some (w', map_sum id (\<lambda>msg. (msg, concat ps)) r) \<and> ready w' \<and> node_at w' = n"
proof -
  obtain w1 c where s: "StartCall C w '''' ''Pull'' [ArgString mid, ArgInt64 off] = (w1, Inr c)" "pulling w1 c ps r" "node_at w1 = n"
    using start_pull [OF assms(1,2)] by blast
  let ?c = "\<lparr>pull_call = c, pull_val = [], pull_err = RecvOK\<rparr>"
  obtain w2 c2 where p: "collect (PullClient_Advance C) PullClient_Value k w1 ?c = Some (w2, c2, ps)"
    "pulling w2 (pull_call c2) [] r" "PullClient_Err c2 = None" "node_at w2 = n"
    using collects_pieces [of w1 ?c ps r k] s(2,3) assms(3) by auto
  obtain w3 where f: "Finish_message C w2 (pull_call c2) = (w3, r)" "ready w3" "node_at w3 = n"
    using finish_pull [OF p(2)] p(4) by auto
  show ?thesis using s(1) p(1,3) f
    by (cases r) (auto simp: pull_all_def Client_Pull_def MessageRepositoryClient_def PullClient_Finish_def)
qed

lemma lists:
  assumes "ready w" and "manifest_handler (node_at w) = (n, ms, er)" and "length ms < k"
  shows "\<exists>w'. manifest_all C k w = Some (w', case er of None \<Rightarrow> Inr ms | Some x \<Rightarrow> Inl x) \<and> ready w' \<and> node_at w' = n"
proof -
  obtain w1 c where s: "StartCall C w '''' ''Manifest'' [] = (w1, Inr c)" "listing w1 c ms er" "node_at w1 = n"
    using start_manifest [OF assms(1,2)] by blast
  let ?c = "\<lparr>man_call = c, man_val = zero_message, man_err = RecvOK\<rparr>"
  obtain w2 c2 where p: "collect (ManifestClient_Advance C) ManifestClient_Value k w1 ?c = Some (w2, c2, ms)"
    "listing w2 (man_call c2) [] er" "ManifestClient_Err c2 = None" "node_at w2 = n"
    using collects_messages [of w1 ?c ms er k] s(2,3) assms(3) by auto
  obtain w3 where f: "Finish_call C w2 (man_call c2) = (w3, er)" "ready w3" "node_at w3 = n"
    using finish_manifest [OF p(2)] p(4) by auto
  show ?thesis using s(1) p(1,3) f
    by (cases er) (auto simp: manifest_all_def Client_Manifest_def MessageRepositoryClient_def ManifestClient_Finish_def)
qed

end

section \<open>A node behind the stubs\<close>

text \<open>The handlers of a node, reached through its server stub, with sends that go out.\<close>

definition node_pull :: "codec \<Rightarrow> lib \<Rightarrow> env \<Rightarrow> sec_call \<Rightarrow> Messenger \<Rightarrow> string \<Rightarrow> int64 \<Rightarrow>
    Messenger \<times> bytes list \<times> (err + message)" where
  "node_pull v L e call M mid off =
     (case ServerStub_Pull (MessageRepositoryServerStub (node_server v L e (\<lambda>_. e) e)) M call (fresh_sends (\<lambda>_. None)) mid off of
        (M, S, r) \<Rightarrow> (M, sent_items S, r))"

definition node_manifest :: "codec \<Rightarrow> lib \<Rightarrow> env \<Rightarrow> sec_call \<Rightarrow> Messenger \<Rightarrow> Messenger \<times> message list \<times> err option" where
  "node_manifest v L e call M =
     (case ServerStub_Manifest (MessageRepositoryServerStub (node_server v L e (\<lambda>_. e) e)) M call (fresh_sends (\<lambda>_. None)) of
        (M, S, er) \<Rightarrow> (M, sent_items S, er))"

lemma repo_handlers:
  "node_pull v L e call M mid off = Pull v L e (\<lambda>_. None) M call mid off"
  "node_manifest v L e call M = serve_Manifest v L e M call"
proof -
  have "map snd (filter (\<lambda>(i, x). True) (enumerate n xs)) = xs" for n :: nat and xs :: "message list"
    by (simp add: case_prod_unfold)
  then show "node_manifest v L e call M = serve_Manifest v L e M call"
    using Manifest_stub_eq [of "fresh_sends (\<lambda>_. None)" v L e M call]
    by (cases "serve_Manifest v L e M call") (auto simp: node_manifest_def server_stub_defs node_impl_def)
  show "node_pull v L e call M mid off = Pull v L e (\<lambda>_. None) M call mid off"
    using Pull_stub_eq [of "fresh_sends (\<lambda>_. None)" v L e M call mid off]
    by (cases "Pull v L e (\<lambda>_. None) M call mid off") (auto simp: node_pull_def server_stub_defs node_impl_def)
qed

text \<open>A library inside one process.\<close>

record repo_link =
  rl_node :: Messenger
  rl_pieces :: "bytes list"
  rl_result :: "err + message"
  rl_messages :: "message list"
  rl_error :: "err option"

fun start_repo :: "codec \<Rightarrow> lib \<Rightarrow> env \<Rightarrow> sec_call \<Rightarrow> repo_link \<Rightarrow> string \<Rightarrow> rpc_arg list \<Rightarrow> repo_link \<times> (err + bool)" where
  "start_repo v L e call w meth [ArgString mid, ArgInt64 off] =
     (if meth = ''Pull'' then
        (case node_pull v L e call (rl_node w) mid off of
           (M, ps, r) \<Rightarrow> (w\<lparr>rl_node := M, rl_pieces := ps, rl_result := r\<rparr>, Inr True))
      else (w, Inl (ErrVerror BadArg)))"
| "start_repo v L e call w meth [] =
     (if meth = ''Manifest'' then
        (case node_manifest v L e call (rl_node w) of
           (M, ms, er) \<Rightarrow> (w\<lparr>rl_node := M, rl_messages := ms, rl_error := er\<rparr>, Inr False))
      else (w, Inl (ErrVerror BadArg)))"
| "start_repo v L e call w meth _ = (w, Inl (ErrVerror BadArg))"

definition repo_loopback :: "codec \<Rightarrow> lib \<Rightarrow> env \<Rightarrow> sec_call \<Rightarrow> (repo_link, bool) rpc_client" where
  "repo_loopback v L e call =
     \<lparr>StartCall = (\<lambda>w n meth args. case lookup meth args of
          Some er \<Rightarrow> (w, Inl er) | None \<Rightarrow> start_repo v L e call w meth args),
      Call_int64 = (\<lambda>w n meth args. (w, Inl (ErrVerror BadProtocol))),
      Send_strings = (\<lambda>w c item. (w, Some (ErrVerror BadProtocol))),
      Send_bytes = (\<lambda>w c item. (w, Some (ErrVerror BadProtocol))),
      CloseSend = (\<lambda>w c. (w, None)),
      Recv_bools = (\<lambda>w c x. (w, x, RecvEOF)),
      Recv_bytes = (\<lambda>w c x. case rl_pieces w of [] \<Rightarrow> (w, x, RecvEOF) | p # ps \<Rightarrow> (w\<lparr>rl_pieces := ps\<rparr>, p, RecvOK)),
      Recv_message = (\<lambda>w c x. case rl_messages w of [] \<Rightarrow> (w, x, RecvEOF) | m # ms \<Rightarrow> (w\<lparr>rl_messages := ms\<rparr>, m, RecvOK)),
      Finish_call = (\<lambda>w c. (w, rl_error w)),
      Finish_message = (\<lambda>w c. (w, rl_result w))\<rparr>"

interpretation repo_loopback: repo_transport "repo_loopback v L e call" rl_node "\<lambda>w. True"
  "\<lambda>w c ps r. rl_pieces w = ps \<and> rl_result w = r" "\<lambda>w c ms er. rl_messages w = ms \<and> rl_error w = er"
  "node_pull v L e call" "node_manifest v L e call" for v L e call
  by unfold_locales (auto simp: repo_loopback_def stub_calls_described)

lemma length_concat_pieces: "\<forall>p \<in> set ps. p \<noteq> [] \<Longrightarrow> length ps \<le> length (concat ps)"
proof (induction ps)
  case (Cons p ps)
  then have "0 < length p" "length ps \<le> length (concat ps)" by auto
  then show ?case by (simp del: length_greater_0_conv length_concat)
qed simp



text \<open>The manifest arrives as the storage lists it.\<close>

lemma manifest_over_rpc:
  assumes "repo_transport C node_at ready pulling listing (node_pull v L e call) (node_manifest v L e call)" and "ready w"
    and "snd (Authorize L (now e) (RateAclIn (params (node_at w))) call) = None"
    and "Manifest v e (store (node_at w)) = Inr ms" and "length ms < k"
  shows "\<exists>w'. manifest_all C k w = Some (w', Inr ms) \<and> ready w'"
proof -
  obtain M where a: "authorize_in L (now e) (node_at w) call = (M, None)"
    using authorize_in_ok [OF assms(3)] by blast
  have "serve_Manifest v L e (node_at w) call = (M, ms, None)"
    using a authorize_in_keeps [OF a] assms(4) by (simp add: serve_Manifest_def)
  then show ?thesis
    using repo_transport.lists [OF assms(1,2) _ assms(5), of M None] by (auto simp: repo_handlers)
qed

end
