(* ===== verification/Aes.thy ===== *)
theory Aes
  imports Sha256
begin

text \<open>
  The block cipher of Go's \<^verbatim>\<open>crypto/aes\<close> and the output feedback mode of
  \<^verbatim>\<open>crypto/cipher\<close>, as \<^verbatim>\<open>src/vmsg/crypto.go\<close> uses them: \<open>aes.NewCipher\<close> with
  the three key sizes of FIPS 197, \<open>Block.Encrypt\<close>, and the stream of \<open>cipher.NewOFB\<close>
  with \<open>XORKeyStream\<close>.
\<close>

unbundle bit_operations_syntax

type_synonym w8 = "8 word"

section \<open>The field and the substitution\<close>

definition xtime :: "w8 \<Rightarrow> w8" where
  "xtime b = push_bit 1 b XOR (if bit b 7 then 27 else 0)"

fun gmul_bits :: "nat \<Rightarrow> w8 \<Rightarrow> w8 \<Rightarrow> w8" where
  "gmul_bits 0 a b = 0"
| "gmul_bits (Suc n) a b = (if bit b 0 then a else 0) XOR gmul_bits n (xtime a) (drop_bit 1 b)"

definition gmul :: "w8 \<Rightarrow> w8 \<Rightarrow> w8" where
  "gmul a b = gmul_bits 8 a b"

text \<open>The inverse is the power 254, a product of the squares \<open>a\<^sup>2, a\<^sup>4, \<dots>, a\<^sup>1\<^sup>2\<^sup>8\<close>.\<close>

fun squares :: "nat \<Rightarrow> w8 \<Rightarrow> w8" where
  "squares 0 a = 1"
| "squares (Suc n) a = (let q = gmul a a in gmul q (squares n q))"

definition sub_byte :: "w8 \<Rightarrow> w8" where
  "sub_byte a = (let x = squares 7 a in
     x XOR word_rotl 1 x XOR word_rotl 2 x XOR word_rotl 3 x XOR word_rotl 4 x XOR 99)"

section \<open>The rounds\<close>

text \<open>A state is the list of its sixteen bytes, column by column.\<close>

definition shift_rows :: "w8 list \<Rightarrow> w8 list" where
  "shift_rows s = map (\<lambda>i. s ! ((i + 4 * (i mod 4)) mod 16)) [0..<16]"

fun mix_columns :: "w8 list \<Rightarrow> w8 list" where
  "mix_columns (a # b # c # d # r) =
     (xtime a XOR xtime b XOR b XOR c XOR d) # (a XOR xtime b XOR xtime c XOR c XOR d)
     # (a XOR b XOR xtime c XOR xtime d XOR d) # (xtime a XOR a XOR b XOR c XOR xtime d) # mix_columns r"
| "mix_columns _ = []"

definition add_key :: "w8 list \<Rightarrow> w8 list \<Rightarrow> w8 list" where
  "add_key k s = map2 (XOR) s k"

fun aes_rounds :: "w8 list list \<Rightarrow> w8 list \<Rightarrow> w8 list" where
  "aes_rounds [] s = s"
| "aes_rounds [k] s = add_key k (shift_rows (map sub_byte s))"
| "aes_rounds (k # k' # ks) s = aes_rounds (k' # ks) (add_key k (mix_columns (shift_rows (map sub_byte s))))"

section \<open>The key schedule\<close>

text \<open>The words of the schedule with the newest first; \<open>nk\<close> is the number of words of the key.\<close>

definition next_word :: "nat \<Rightarrow> nat \<Rightarrow> w8 list list \<Rightarrow> w8 list" where
  "next_word nk i ws =
     (let t = hd ws;
          u = (if i mod nk = 0 then map2 (XOR) (map sub_byte (rotate1 t)) [(xtime ^^ (i div nk - 1)) 1, 0, 0, 0]
               else if 6 < nk \<and> i mod nk = 4 then map sub_byte t else t)
      in map2 (XOR) (ws ! (nk - 1)) u)"

fun expand_key :: "nat \<Rightarrow> nat \<Rightarrow> nat \<Rightarrow> w8 list list \<Rightarrow> w8 list list" where
  "expand_key nk 0 i ws = ws"
| "expand_key nk (Suc n) i ws = expand_key nk n (Suc i) (next_word nk i ws # ws)"

definition to_w8 :: "bytes \<Rightarrow> w8 list" where
  "to_w8 bs = map of_char bs"

definition of_w8 :: "w8 list \<Rightarrow> bytes" where
  "of_w8 ws = map (\<lambda>w. char_of (unat w)) ws"

definition aes_schedule :: "bytes \<Rightarrow> w8 list list" where
  "aes_schedule key =
     (let nk = length key div 4; ws = rev (chunks 4 (to_w8 key))
      in map concat (chunks 4 (rev (expand_key nk (4 * (nk + 7) - nk) nk ws))))"

definition aes_encrypt :: "bytes \<Rightarrow> bytes \<Rightarrow> bytes" where
  "aes_encrypt key blk =
     (case aes_schedule key of
        [] \<Rightarrow> blk
      | k # ks \<Rightarrow> of_w8 (aes_rounds ks (add_key k (to_w8 blk))))"

end
