(* ===== verification/Crypto.thy ===== *)
theory Crypto
  imports Aes Ifc
begin

text \<open>
  The encryption of the chat (\<^verbatim>\<open>src/vmsg/crypto.go\<close>): \<open>aesEncoder\<close> writes a random
  initial vector and returns a writer that encrypts, \<open>aesDecoder\<close> reads the vector back
  and returns a reader that decrypts.
\<close>

section \<open>Output feedback\<close>

text \<open>
  The stream of \<open>cipher.NewOFB\<close>: the block that is fed back and the key stream that is
  not used yet.
\<close>

record ofb =
  ofb_block :: "bytes \<Rightarrow> bytes"
  ofb_cipher :: bytes
  ofb_out :: bytes

definition NewOFB :: "(bytes \<Rightarrow> bytes) \<Rightarrow> bytes \<Rightarrow> ofb" where
  "NewOFB enc iv = \<lparr>ofb_block = enc, ofb_cipher = iv, ofb_out = []\<rparr>"

definition refill :: "ofb \<Rightarrow> ofb" where
  "refill s = (let c = ofb_block s (ofb_cipher s) in s\<lparr>ofb_cipher := c, ofb_out := ofb_out s @ c\<rparr>)"

definition xor_byte :: "char \<Rightarrow> char \<Rightarrow> char" where
  "xor_byte a b = char_of ((of_char a XOR of_char b) :: nat)"

text \<open>\<open>XORKeyStream\<close>, one byte at a time; a block cipher has no empty blocks.\<close>

fun XORKeyStream :: "ofb \<Rightarrow> bytes \<Rightarrow> ofb \<times> bytes" where
  "XORKeyStream s [] = (s, [])"
| "XORKeyStream s (b # bs) =
     (let s = (if ofb_out s = [] then refill s else s);
          k = hd (ofb_out s);
          (s, cs) = XORKeyStream (s\<lparr>ofb_out := tl (ofb_out s)\<rparr>) bs
      in (s, xor_byte b k # cs))"

section \<open>The encoder and the decoder\<close>

definition aes_BlockSize :: nat where
  "aes_BlockSize = 16"

definition sha256hash :: "string \<Rightarrow> bytes" where
  "sha256hash s = hash_sum (hash_write hash_new s)"

definition NewCipher :: "bytes \<Rightarrow> err + (bytes \<Rightarrow> bytes)" where
  "NewCipher key = (if length key \<in> {16, 24, 32} then Inr (aes_encrypt key) else Inl (ErrOS ''crypto/aes: invalid key size''))"

text \<open>
  A \<open>cipher.StreamWriter\<close> with the bytes that arrived at the underlying writer; \<open>rnd\<close> is
  what the random source returns and \<open>wr\<close> the error of the underlying writer, if it fails.
\<close>

record StreamWriter =
  sw_S :: ofb
  sw_W :: bytes

definition aesEncoder :: "string \<Rightarrow> err + bytes \<Rightarrow> err option \<Rightarrow> bytes \<Rightarrow> err + StreamWriter" where
  "aesEncoder key rnd wr w =
     (case NewCipher (sha256hash key) of
        Inl er \<Rightarrow> Inl er
      | Inr block \<Rightarrow>
          (case rnd of
             Inl er \<Rightarrow> Inl er
           | Inr iv \<Rightarrow>
               (case wr of
                  Some er \<Rightarrow> Inl er
                | None \<Rightarrow> Inr \<lparr>sw_S = NewOFB block iv, sw_W = w @ iv\<rparr>)))"

definition sw_Write :: "bytes \<Rightarrow> StreamWriter \<Rightarrow> StreamWriter" where
  "sw_Write src w = (let (s, c) = XORKeyStream (sw_S w) src in w\<lparr>sw_S := s, sw_W := sw_W w @ c\<rparr>)"

text \<open>
  \<open>io.ReadFull\<close> of the vector fails with \<open>io.EOF\<close> or \<open>io.ErrUnexpectedEOF\<close> when the
  input is too short.  The \<open>cipher.StreamReader\<close> keeps the rest of the input.
\<close>

record StreamReader =
  sr_S :: ofb
  sr_R :: bytes

definition aesDecoder :: "string \<Rightarrow> bytes \<Rightarrow> err + StreamReader" where
  "aesDecoder key r =
     (case NewCipher (sha256hash key) of
        Inl er \<Rightarrow> Inl er
      | Inr block \<Rightarrow>
          if r = [] then Inl (ErrOS ''EOF'')
          else if length r < aes_BlockSize then Inl (ErrOS ''unexpected EOF'')
          else Inr \<lparr>sr_S = NewOFB block (take aes_BlockSize r), sr_R = drop aes_BlockSize r\<rparr>)"

text \<open>A \<open>Read\<close> that gets \<open>n\<close> bytes of the underlying reader.\<close>

definition sr_Read :: "nat \<Rightarrow> StreamReader \<Rightarrow> StreamReader \<times> bytes" where
  "sr_Read n r = (let (s, c) = XORKeyStream (sr_S r) (take n (sr_R r)) in (r\<lparr>sr_S := s, sr_R := drop n (sr_R r)\<rparr>, c))"

fun sr_reads :: "nat list \<Rightarrow> StreamReader \<Rightarrow> StreamReader \<times> bytes" where
  "sr_reads [] r = (r, [])"
| "sr_reads (n # ns) r = (let (r, c) = sr_Read n r; (r, cs) = sr_reads ns r in (r, c @ cs))"

section \<open>Decryption undoes encryption\<close>

lemma xor_byte_twice [simp]: "xor_byte (xor_byte a k) k = a"
proof -
  have "(of_char a XOR of_char k :: nat) mod 256 = of_char a XOR of_char k"
  proof -
    have "take_bit 8 (of_char a XOR of_char k :: nat) = take_bit 8 (of_char a) XOR take_bit 8 (of_char k)"
      by (rule take_bit_xor)
    also have "\<dots> = of_char a XOR of_char k" by (simp add: take_bit_eq_mod)
    finally show ?thesis by (simp add: take_bit_eq_mod)
  qed
  then show ?thesis by (simp add: xor_byte_def xor.assoc)
qed

lemma XORKeyStream_length [simp]: "length (snd (XORKeyStream s bs)) = length bs"
proof (induction s bs rule: XORKeyStream.induct)
  case (2 s b bs)
  then show ?case by (simp add: Let_def case_prod_unfold)
qed simp

text \<open>Applying the key stream again from the same state gives the input back, in the same end state.\<close>

lemma XORKeyStream_twice: "XORKeyStream s (snd (XORKeyStream s bs)) = (fst (XORKeyStream s bs), bs)"
proof (induction s bs rule: XORKeyStream.induct)
  case (2 s b bs)
  then show ?case by (simp add: Let_def case_prod_unfold)
qed simp

lemma XORKeyStream_append:
  "XORKeyStream s (as @ bs) =
     (fst (XORKeyStream (fst (XORKeyStream s as)) bs),
      snd (XORKeyStream s as) @ snd (XORKeyStream (fst (XORKeyStream s as)) bs))"
proof (induction s as rule: XORKeyStream.induct)
  case (2 s b bs)
  then show ?case by (simp add: Let_def case_prod_unfold)
qed simp

text \<open>Any sequence of writes produces the key stream over all of the data, and so does any sequence of reads.\<close>

lemma sw_writes:
  "fold sw_Write ds w = w\<lparr>sw_S := fst (XORKeyStream (sw_S w) (concat ds)),
     sw_W := sw_W w @ snd (XORKeyStream (sw_S w) (concat ds))\<rparr>"
  by (induction ds arbitrary: w) (simp_all add: sw_Write_def XORKeyStream_append Let_def case_prod_unfold)

lemma sr_reads_all: "length (sr_R r) \<le> sum_list ns \<Longrightarrow> snd (sr_reads ns r) = snd (XORKeyStream (sr_S r) (sr_R r))"
proof (induction ns arbitrary: r)
  case (Cons n ns)
  let ?x = "XORKeyStream (sr_S r) (take n (sr_R r))" and ?r = "fst (sr_Read n r)"
  have r: "sr_S ?r = fst ?x" "sr_R ?r = drop n (sr_R r)" "snd (sr_Read n r) = snd ?x"
    by (simp_all add: sr_Read_def Let_def case_prod_unfold)
  have "length (sr_R ?r) \<le> sum_list ns" using Cons.prems r(2) by simp
  then have "snd (sr_reads ns ?r) = snd (XORKeyStream (fst ?x) (drop n (sr_R r)))" using Cons.IH [of ?r] r by simp
  then have "snd (sr_reads (n # ns) r) = snd ?x @ snd (XORKeyStream (fst ?x) (drop n (sr_R r)))"
    using r(3) by (simp add: Let_def case_prod_unfold)
  also have "\<dots> = snd (XORKeyStream (sr_S r) (take n (sr_R r) @ drop n (sr_R r)))" by (simp only: XORKeyStream_append snd_conv)
  finally show ?case by simp
qed simp

lemma NewCipher_hash: "NewCipher (sha256hash key) = Inr (aes_encrypt (sha256hash key))"
  by (simp add: NewCipher_def sha256hash_def hash_sum_def)

text \<open>What is written for the data \<open>d\<close> with the vector \<open>iv\<close>.\<close>

definition encrypted :: "string \<Rightarrow> bytes \<Rightarrow> bytes \<Rightarrow> bytes" where
  "encrypted key iv d = iv @ snd (XORKeyStream (NewOFB (aes_encrypt (sha256hash key)) iv) d)"

lemma aesEncoder_writes:
  "\<exists>w. aesEncoder key (Inr iv) None [] = Inr w \<and> sw_W (fold sw_Write ds w) = encrypted key iv (concat ds)"
  by (simp add: aesEncoder_def NewCipher_hash sw_writes encrypted_def)

lemma aesDecoder_reads:
  assumes "length iv = 16" and "length d \<le> sum_list ns"
  shows "\<exists>r. aesDecoder key (encrypted key iv d) = Inr r \<and> length (sr_R r) = length d \<and> snd (sr_reads ns r) = d"
  using assms by (auto simp: aesDecoder_def NewCipher_hash encrypted_def aes_BlockSize_def sr_reads_all XORKeyStream_twice)

text \<open>
  What a writer of \<open>aesEncoder\<close> was given, in pieces of any size, is what a reader of
  \<open>aesDecoder\<close> with the same key returns, in pieces of any size; neither function fails
  unless the random source or the underlying writer does.
\<close>

theorem aes_roundtrip:
  assumes "length iv = 16" and "length (concat ds) \<le> sum_list ns"
  shows "\<exists>w r. aesEncoder key (Inr iv) None [] = Inr w \<and> aesDecoder key (sw_W (fold sw_Write ds w)) = Inr r
    \<and> snd (sr_reads ns r) = concat ds"
proof -
  obtain w where w: "aesEncoder key (Inr iv) None [] = Inr w" "sw_W (fold sw_Write ds w) = encrypted key iv (concat ds)"
    using aesEncoder_writes by blast
  with aesDecoder_reads [OF assms] show ?thesis by auto
qed

theorem aes_roundtrip_witness:
  "\<exists>w r. aesEncoder ''key'' (Inr (replicate 16 CHR ''i'')) None [] = Inr w
     \<and> aesDecoder ''key'' (sw_W (fold sw_Write [''hel'', ''lo''] w)) = Inr r \<and> snd (sr_reads [1, 9] r) = ''hello''"
  using aes_roundtrip [of "replicate 16 CHR ''i''" "[''hel'', ''lo'']" "[1, 9]" "''key''"] by simp

end
