(* ===== verification/GoStrings.thy ===== *)
theory GoStrings
  imports GoTime
begin

text \<open>
  What the chat takes from the Go packages \<^verbatim>\<open>strings\<close>, \<^verbatim>\<open>strconv\<close> and
  \<^verbatim>\<open>path/filepath\<close> (on Unix): \<open>HasPrefix\<close>, \<open>Split\<close>, \<open>TrimSpace\<close>, \<open>Join\<close>,
  \<open>ParseInt\<close>, and \<open>Base\<close>, \<open>Clean\<close> and \<open>Join\<close> of paths.
\<close>

section \<open>Strings\<close>

definition HasPrefix :: "string \<Rightarrow> string \<Rightarrow> bool" where
  "HasPrefix s p \<longleftrightarrow> take (length p) s = p"

fun join :: "string \<Rightarrow> string list \<Rightarrow> string" where
  "join sep [] = ''''"
| "join sep [x] = x"
| "join sep (x # y # xs) = x @ sep @ join sep (y # xs)"

text \<open>\<open>strings.Split\<close> with a separator of one byte.\<close>

fun Split :: "char \<Rightarrow> string \<Rightarrow> string list" where
  "Split c [] = [[]]"
| "Split c (x # xs) = (if x = c then [] # Split c xs else (x # hd (Split c xs)) # tl (Split c xs))"

lemma Split_nonempty [simp]: "Split c xs \<noteq> []"
  by (induction xs) auto

lemma Split_plain [simp]: "c \<notin> set xs \<Longrightarrow> Split c xs = [xs]"
  by (induction xs) auto

lemma Split_append: "c \<notin> set xs \<Longrightarrow> Split c (xs @ c # ys) = xs # Split c ys"
  by (induction xs) auto

text \<open>Splitting at a separator anywhere splits the two sides.\<close>

lemma Split_middle: "Split c (xs @ c # ys) = Split c xs @ Split c ys"
proof (induction xs)
  case (Cons x xs)
  then show ?case by (cases "Split c xs") (auto simp: hd_append)
qed simp

lemma Split_parts: "p \<in> set (Split c xs) \<Longrightarrow> c \<notin> set p"
proof (induction xs arbitrary: p)
  case (Cons x xs)
  then show ?case by (cases "Split c xs") (auto split: if_splits)
qed simp

text \<open>The encodings of the characters for which \<open>unicode.IsSpace\<close> holds.\<close>

definition spaces :: "string list" where
  "spaces = map (\<lambda>n. [char_of n]) [9, 10, 11, 12, 13, 32 :: nat]
     @ map (map char_of) ([[194, 133], [194, 160], [225, 154, 128], [226, 128, 168], [226, 128, 169],
         [226, 128, 175], [226, 129, 159], [227, 128, 128]] :: nat list list)
     @ map (\<lambda>n. map char_of [226, 128, n]) [128 ..< 139 :: nat]"

function TrimLeft :: "string list \<Rightarrow> string \<Rightarrow> string" where
  "TrimLeft ws s =
     (case find (\<lambda>w. w \<noteq> [] \<and> HasPrefix s w) ws of
        None \<Rightarrow> s
      | Some w \<Rightarrow> TrimLeft ws (drop (length w) s))"
  by pat_completeness auto
termination
proof (relation "measure (\<lambda>(ws, s). length s)")
  fix ws s w
  assume "find (\<lambda>w. w \<noteq> [] \<and> HasPrefix s w) ws = Some w"
  then have "w \<noteq> []" "HasPrefix s w" by (auto simp: find_Some_iff)
  then show "((ws, drop (length w) s), ws, s) \<in> measure (\<lambda>(ws, s). length s)"
    by (cases s) (auto simp: HasPrefix_def)
qed simp

definition TrimSpace :: "string \<Rightarrow> string" where
  "TrimSpace s = rev (TrimLeft (map rev spaces) (rev (TrimLeft spaces s)))"

section \<open>Numbers\<close>

text \<open>\<open>strconv.ParseInt(s, 10, 64)\<close>; \<open>None\<close> is an error.\<close>

definition is_digit :: "char \<Rightarrow> bool" where
  "is_digit c \<longleftrightarrow> 48 \<le> (of_char c :: nat) \<and> (of_char c :: nat) < 58"

definition ParseInt :: "string \<Rightarrow> int option" where
  "ParseInt s =
     (let neg = s \<noteq> [] \<and> hd s = CHR ''-'';
          ds = (if s \<noteq> [] \<and> (hd s = CHR ''-'' \<or> hd s = CHR ''+'') then tl s else s);
          n = (if neg then - int (dec_val ds) else int (dec_val ds))
      in if ds = [] \<or> \<not> list_all is_digit ds then None
         else if n < - (2 ^ 63) \<or> n \<ge> 2 ^ 63 then None else Some n)"

lemma dec_digits: "list_all is_digit (dec n)"
proof (induction n rule: dec.induct)
  case (1 n)
  have "is_digit (digit k)" if "k < 10" for k using that of_char_digit [of k] by (simp add: is_digit_def)
  with 1 show ?case by (subst dec.simps) auto
qed

lemma dec_nonempty: "dec n \<noteq> []"
  by (subst dec.simps) auto

lemma ParseInt_itoa: "- (2 ^ 63) \<le> i \<Longrightarrow> i < 2 ^ 63 \<Longrightarrow> ParseInt (itoa i) = Some i"
proof -
  assume i: "- (2 ^ 63) \<le> i" "i < 2 ^ 63"
  have h: "hd (dec n) \<noteq> CHR ''-''" "hd (dec n) \<noteq> CHR ''+''" for n
    using dec_digits [of n] dec_nonempty [of n] by (cases "dec n"; auto simp: is_digit_def)+
  show ?thesis using i h dec_digits dec_nonempty by (auto simp: ParseInt_def itoa_def Let_def)
qed

section \<open>Paths\<close>

abbreviation (input) slash :: char where
  "slash \<equiv> CHR ''/''"

definition Base :: "string \<Rightarrow> string" where
  "Base path =
     (if path = [] then ''.''
      else let b = rev (takeWhile (\<lambda>c. c \<noteq> slash) (dropWhile (\<lambda>c. c = slash) (rev path)))
           in if b = [] then ''/'' else b)"

text \<open>The elements of a cleaned path, innermost first.\<close>

definition clean_elem :: "bool \<Rightarrow> string \<Rightarrow> string list \<Rightarrow> string list" where
  "clean_elem rooted el st =
     (if el = '''' \<or> el = ''.'' then st
      else if el = ''..'' then
        (if st \<noteq> [] \<and> hd st \<noteq> ''..'' then tl st else if rooted then st else el # st)
      else el # st)"

definition elems_of :: "string \<Rightarrow> string list" where
  "elems_of path = rev (fold (clean_elem (path \<noteq> [] \<and> hd path = slash)) (Split slash path) [])"

definition Clean :: "string \<Rightarrow> string" where
  "Clean path =
     (let p = (if path \<noteq> [] \<and> hd path = slash then [slash] else []) @ join [slash] (elems_of path)
      in if p = [] then ''.'' else p)"

definition Join :: "string \<Rightarrow> string \<Rightarrow> string" where
  "Join dir name =
     (if dir = [] then (if name = [] then [] else Clean name)
      else if name = [] then Clean dir else Clean (dir @ [slash] @ name))"

section \<open>Names of files\<close>

definition plain_name :: "string \<Rightarrow> bool" where
  "plain_name n \<longleftrightarrow> n \<notin> {'''', ''.'', ''..''} \<and> slash \<notin> set n"

lemma Base_cases: "Base p \<in> {''.'', ''..'', ''/''} \<or> plain_name (Base p)"
proof -
  have "slash \<notin> set (takeWhile (\<lambda>c. c \<noteq> slash) xs)" for xs by (auto dest: set_takeWhileD)
  then show ?thesis by (auto simp: Base_def Let_def plain_name_def)
qed

lemma Base_plain: "n \<noteq> [] \<Longrightarrow> slash \<notin> set n \<Longrightarrow> Base n = n"
proof -
  assume n: "n \<noteq> []" "slash \<notin> set n"
  have "dropWhile (\<lambda>c. c = slash) (rev n) = rev n" using n by (cases "rev n") auto
  moreover have "takeWhile (\<lambda>c. c \<noteq> slash) (rev n) = rev n" using n by (auto simp: takeWhile_eq_all_conv)
  ultimately show ?thesis using n(1) unfolding Base_def Let_def by (simp only: rev_rev_ident if_False)
qed

lemma Base_idem [simp]: "Base (Base p) = Base p"
proof (cases "Base p = ''/''")
  case True
  then show ?thesis by (simp add: Base_def)
next
  case False
  then have "Base p \<noteq> []" "slash \<notin> set (Base p)" using Base_cases [of p] by (auto simp: plain_name_def)
  then show ?thesis by (rule Base_plain)
qed

text \<open>A plain name joined to a directory is one element below the directory.\<close>

lemma elems_of_Join:
  assumes "plain_name n" and "dir \<noteq> []"
  shows "elems_of (dir @ [slash] @ n) = elems_of dir @ [n]"
proof -
  have "Split slash (dir @ slash # n) = Split slash dir @ [n]"
    using assms(1) by (simp add: Split_middle plain_name_def)
  moreover have "clean_elem r n st = n # st" for r st using assms(1) by (auto simp: clean_elem_def plain_name_def)
  ultimately show ?thesis using assms(2) by (simp add: elems_of_def)
qed

end
