(* ===== verification/Util.thy ===== *)
theory Util
  imports Crypto GoStrings
begin

text \<open>
  The creation of messages (\<^verbatim>\<open>src/internal/util.go\<close>) and the local files it reads, with
  the small vocabulary for the error returns that follow each system call.
\<close>

section \<open>Local files\<close>

text \<open>The files and the directories of the machine that are outside of the message store.\<close>

record disk =
  files :: "string \<Rightarrow> bytes option"
  dirs :: "string set"

definition put_file :: "string \<Rightarrow> bytes \<Rightarrow> disk \<Rightarrow> disk" where
  "put_file p b D = D\<lparr>files := (files D)(p \<mapsto> b)\<rparr>"

definition remove_file :: "string \<Rightarrow> disk \<Rightarrow> disk" where
  "remove_file p D = D\<lparr>files := (files D)(p := None)\<rparr>"

lemma files_simps [simp]: "files (put_file p b D) = (files D)(p \<mapsto> b)" "dirs (put_file p b D) = dirs D"
  "files (remove_file p D) = (files D)(p := None)" "dirs (remove_file p D) = dirs D"
  by (simp_all add: put_file_def remove_file_def)

text \<open>\<open>if err := step; err != nil { return err }\<close>, and the same with a result.\<close>

definition guard :: "err option \<Rightarrow> err + 'a \<Rightarrow> err + 'a" where
  "guard r k = (case r of Some er \<Rightarrow> Inl er | None \<Rightarrow> k)"

definition and_then :: "err + 'a \<Rightarrow> ('a \<Rightarrow> err + 'b) \<Rightarrow> err + 'b" where
  "and_then x k = (case x of Inl er \<Rightarrow> Inl er | Inr a \<Rightarrow> k a)"

lemma guard_simps [simp]: "guard None k = k" "guard (Some er) k = Inl er"
  by (simp_all add: guard_def)

lemma and_then_simps [simp]: "and_then (Inl er) k = Inl er" "and_then (Inr a) k = k a"
  by (simp_all add: and_then_def)

definition os_Open :: "disk \<Rightarrow> string \<Rightarrow> err + bytes" where
  "os_Open D p = (case files D p of None \<Rightarrow> Inl (ErrOS ''no such file or directory'') | Some b \<Rightarrow> Inr b)"

section \<open>New messages\<close>

text \<open>The loop of \<open>NewMessageFromFile\<close> over the pieces of at most 2048 bytes.\<close>

fun hash_loop :: "bytes list \<Rightarrow> hash \<Rightarrow> int64 \<Rightarrow> hash \<times> int64" where
  "hash_loop [] h sz = (h, sz)"
| "hash_loop (p # ps) h sz = hash_loop ps (hash_write h p) (sz + int (length p))"

text \<open>
  \<open>uuid\<close> is the value of \<open>uuid.New()\<close>, \<open>t\<close> that of \<open>time.Now()\<close>, and \<open>rd\<close> the error of
  a read that fails.
\<close>

definition NewMessageFromFile :: "disk \<Rightarrow> err option \<Rightarrow> string \<Rightarrow> time \<Rightarrow> string \<Rightarrow> err + message" where
  "NewMessageFromFile D rd uuid t file =
     and_then (os_Open D file) (\<lambda>b.
     guard rd (
       let (h, sz) = hash_loop (chunks 2048 b) hash_new 0
       in Inr (zero_message\<lparr>Id := uuid, CreationTime := t, Length := sz, Sha256 := hash_sum h\<rparr>)))"

definition NewMessageFromBytes :: "string \<Rightarrow> time \<Rightarrow> bytes \<Rightarrow> message" where
  "NewMessageFromBytes uuid t b =
     (let h = hash_write hash_new b
      in zero_message\<lparr>Id := uuid, CreationTime := t, Length := int (length b), Sha256 := hash_sum h\<rparr>)"

lemma hash_loop_all: "hash_loop ps h sz = (fold (\<lambda>p h. hash_write h p) ps h, sz + int (length (concat ps)))"
  by (induction ps arbitrary: h sz) simp_all

text \<open>Reading the file through the buffer gives the same message as its content in memory.\<close>

lemma NewMessageFromFile_content:
  assumes "files D file = Some b"
  shows "NewMessageFromFile D None uuid t file = Inr (NewMessageFromBytes uuid t b)"
  using assms by (simp add: NewMessageFromFile_def os_Open_def hash_loop_all fold_hash_write NewMessageFromBytes_def
      hash_sum_def Let_def)

lemma NewMessageFromBytes_fields [simp]:
  "Id (NewMessageFromBytes uuid t b) = uuid" "CreationTime (NewMessageFromBytes uuid t b) = t"
  "Length (NewMessageFromBytes uuid t b) = int (length b)" "Sha256 (NewMessageFromBytes uuid t b) = sha256 b"
  "Hops (NewMessageFromBytes uuid t b) = []"
  by (simp_all add: NewMessageFromBytes_def zero_message_def hash_sum_def Let_def)

end
