(* ===== verification/Vdl.thy ===== *)
theory Vdl
  imports Util FileStorage
begin

text \<open>
  The generated encoders and decoders of \<open>Message\<close> (\<^verbatim>\<open>src/ifc/ifc.vdl.go\<close>) and
  \<open>PeerInfo\<close> (\<^verbatim>\<open>src/internal/internal.vdl.go\<close>).

  A \<open>vdl.Encoder\<close> is the sequence of the calls made on it, as tokens; any call may fail.
  A \<open>vdl.Decoder\<close> returns the values of such a sequence.  Values whose types belong to the
  Vanadium libraries (blessings, discharges, signatures, times) are single tokens, and
  \<open>wire_lib\<close> holds the conversions between their native and their wire form.
\<close>

section \<open>Encoders and decoders\<close>

datatype tok = TStart string | TField int | TLenHint nat | TEntryDone | TString string | TInt int | TBool bool
  | TBytes bytes | TOpaque bytes | TFinish

record encoder =
  written :: "tok list"
  calls :: nat
  call_err :: "nat \<Rightarrow> err option"

definition enc_call :: "tok list \<Rightarrow> encoder \<Rightarrow> err + encoder" where
  "enc_call ts E = guard (call_err E (calls E)) (Inr (E\<lparr>written := written E @ ts, calls := Suc (calls E)\<rparr>))"

text \<open>A conditional part of an encoder.\<close>

definition enc_if :: "bool \<Rightarrow> (encoder \<Rightarrow> err + encoder) \<Rightarrow> encoder \<Rightarrow> err + encoder" where
  "enc_if b f E = (if b then f E else Inr E)"

definition enc_seq :: "(encoder \<Rightarrow> err + encoder) \<Rightarrow> (encoder \<Rightarrow> err + encoder) \<Rightarrow> encoder \<Rightarrow> err + encoder" where
  "enc_seq f g E = and_then (f E) g"

fun enc_all :: "(encoder \<Rightarrow> err + encoder) list \<Rightarrow> encoder \<Rightarrow> err + encoder" where
  "enc_all [] E = Inr E"
| "enc_all (f # fs) E = and_then (f E) (enc_all fs)"

record wire_lib =
  blessings_wire :: "blessings \<Rightarrow> err + bytes"
  blessings_native :: "bytes \<Rightarrow> err + blessings"
  discharge_wire :: "discharge \<Rightarrow> err + bytes option"
  discharge_native :: "bytes \<Rightarrow> err + discharge"
  discharge_zero :: bytes
  time_wire :: "time \<Rightarrow> err + bytes"
  time_native :: "bytes \<Rightarrow> err + time"
  duration_wire :: "duration \<Rightarrow> err + bytes"
  duration_native :: "bytes \<Rightarrow> err + duration"
  fields_of :: "string \<Rightarrow> string list"

definition bad_value :: err where
  "bad_value = ErrOS ''vdl: incompatible value''"

text \<open>A field of a type of the libraries: the index, the conversion, and the value.\<close>

definition write_wire :: "int \<Rightarrow> err + bytes \<Rightarrow> encoder \<Rightarrow> err + encoder" where
  "write_wire i w = enc_seq (enc_call [TField i]) (\<lambda>E. and_then w (\<lambda>b. enc_call [TOpaque b] E))"

text \<open>\<open>SkipValue\<close>: one value, with everything nested in it.\<close>

fun skip_in :: "nat \<Rightarrow> tok list \<Rightarrow> err + tok list" where
  "skip_in 0 ts = Inr ts"
| "skip_in (Suc d) [] = Inl bad_value"
| "skip_in (Suc d) (t # ts) =
     skip_in (case t of TStart _ \<Rightarrow> Suc (Suc d) | TFinish \<Rightarrow> d | _ \<Rightarrow> Suc d) ts"

definition SkipValue :: "tok list \<Rightarrow> err + tok list" where
  "SkipValue ts = (case ts of [] \<Rightarrow> Inl bad_value | TStart _ # r \<Rightarrow> skip_in 1 r | _ # r \<Rightarrow> Inr r)"

text \<open>\<open>StartValue\<close> with the type of the value, \<open>LenHint\<close> where there is one, and \<open>FinishValue\<close>.\<close>

definition StartValue :: "tok list \<Rightarrow> err + string \<times> tok list" where
  "StartValue ts = (case ts of TStart ty # r \<Rightarrow> Inr (ty, r) | _ \<Rightarrow> Inl bad_value)"

definition LenHint :: "tok list \<Rightarrow> tok list" where
  "LenHint ts = (case ts of TLenHint _ # r \<Rightarrow> r | _ \<Rightarrow> ts)"

definition FinishValue :: "tok list \<Rightarrow> err + tok list" where
  "FinishValue ts = (case ts of TFinish # r \<Rightarrow> Inr r | _ \<Rightarrow> Inl bad_value)"

text \<open>The index of a field of another struct type in the type that is read, by its name.\<close>

fun find_index :: "string \<Rightarrow> string list \<Rightarrow> nat \<Rightarrow> int" where
  "find_index n [] k = - 1"
| "find_index n (m # ms) k = (if m = n then int k else find_index n ms (Suc k))"

definition own_index :: "wire_lib \<Rightarrow> string \<Rightarrow> string \<Rightarrow> string list \<Rightarrow> int \<Rightarrow> int" where
  "own_index W ownType decType own i =
     (if decType = ownType then i
      else if 0 \<le> i \<and> nat i < length (fields_of W decType) then find_index (fields_of W decType ! nat i) own 0
      else - 1)"

text \<open>
  The loop of a generated \<open>VDLRead\<close>: \<open>rd i x ts\<close> reads the value of the field \<open>i\<close>.  Every
  round consumes a token, so the number of tokens is fuel enough.
\<close>

fun read_fields :: "(int \<Rightarrow> int) \<Rightarrow> (int \<Rightarrow> 'x \<Rightarrow> tok list \<Rightarrow> err + 'x \<times> tok list) \<Rightarrow> nat \<Rightarrow> 'x \<Rightarrow> tok list \<Rightarrow> err + 'x \<times> tok list" where
  "read_fields own rd 0 x ts = Inl bad_value"
| "read_fields own rd (Suc n) x ts =
     (case ts of
        TField i # ts \<Rightarrow>
          if i = - 1 then and_then (FinishValue ts) (\<lambda>r. Inr (x, r))
          else if own i = - 1 then and_then (SkipValue ts) (read_fields own rd n x)
          else and_then (rd (own i) x ts) (\<lambda>(x, r). read_fields own rd n x r)
      | _ \<Rightarrow> Inl bad_value)"

section \<open>Messages\<close>

definition messageType :: string where
  "messageType = ''messenger/ifc.Message''"

definition messageFields :: "string list" where
  "messageFields = [''Hops'', ''SenderBlessings'', ''SenderDischarges'', ''Signature'', ''Id'', ''Recipient'',
     ''CreationTime'', ''Lifespan'', ''Length'', ''Sha256'']"

definition VDLIsZero :: "message \<Rightarrow> bool" where
  "VDLIsZero x \<longleftrightarrow>
     (if Hops x \<noteq> [] then False else if SenderBlessings x \<noteq> [] then False else if SenderDischarges x \<noteq> [] then False
      else if Signature x \<noteq> [] then False else if Id x \<noteq> [] then False else if Recipient x \<noteq> [] then False
      else if \<not> IsZero (CreationTime x) then False else if Lifespan x \<noteq> 0 then False else if Length x \<noteq> 0 then False
      else if Sha256 x \<noteq> [] then False else True)"

definition WriteAnon_list_1 :: "string list \<Rightarrow> encoder \<Rightarrow> err + encoder" where
  "WriteAnon_list_1 x = enc_all (
     [enc_call [TStart ''[]string''], enc_call [TLenHint (length x)]]
     @ map (\<lambda>el. enc_call [TString el]) x
     @ [enc_call [TEntryDone], enc_call [TFinish]])"

definition write_discharge :: "wire_lib \<Rightarrow> string \<times> discharge \<Rightarrow> encoder \<Rightarrow> err + encoder" where
  "write_discharge W kd = enc_seq (enc_call [TString (fst kd)]) (\<lambda>E.
     and_then (discharge_wire W (snd kd)) (\<lambda>wire.
       enc_call [TOpaque (case wire of None \<Rightarrow> discharge_zero W | Some b \<Rightarrow> b)] E))"

definition WriteAnon_map_2 :: "wire_lib \<Rightarrow> (string \<times> discharge) list \<Rightarrow> encoder \<Rightarrow> err + encoder" where
  "WriteAnon_map_2 W x = enc_all (
     [enc_call [TStart ''map[string]Discharge''], enc_call [TLenHint (length x)]]
     @ map (write_discharge W) x
     @ [enc_call [TEntryDone], enc_call [TFinish]])"

definition VDLWrite :: "wire_lib \<Rightarrow> message \<Rightarrow> encoder \<Rightarrow> err + encoder" where
  "VDLWrite W x = enc_all [
     enc_call [TStart messageType],
     enc_if (Hops x \<noteq> []) (enc_seq (enc_call [TField 0]) (WriteAnon_list_1 (Hops x))),
     enc_if (SenderBlessings x \<noteq> []) (write_wire 1 (blessings_wire W (SenderBlessings x))),
     enc_if (SenderDischarges x \<noteq> []) (enc_seq (enc_call [TField 2]) (WriteAnon_map_2 W (SenderDischarges x))),
     enc_if (Signature x \<noteq> []) (enc_seq (enc_call [TField 3]) (enc_call [TOpaque (Signature x)])),
     enc_if (Id x \<noteq> []) (enc_call [TField 4, TString (Id x)]),
     enc_if (Recipient x \<noteq> []) (enc_call [TField 5, TString (Recipient x)]),
     enc_if (\<not> IsZero (CreationTime x)) (write_wire 6 (time_wire W (CreationTime x))),
     enc_if (Lifespan x \<noteq> 0) (write_wire 7 (duration_wire W (Lifespan x))),
     enc_if (Length x \<noteq> 0) (enc_call [TField 8, TInt (Length x)]),
     enc_if (Sha256 x \<noteq> []) (enc_call [TField 9, TBytes (Sha256 x)]),
     enc_call [TField (- 1)],
     enc_call [TFinish]]"

fun read_strings :: "string list \<Rightarrow> tok list \<Rightarrow> err + string list \<times> tok list" where
  "read_strings xs [] = Inl bad_value"
| "read_strings xs (t # ts) =
     (case t of
        TString el \<Rightarrow> read_strings (xs @ [el]) ts
      | TEntryDone \<Rightarrow> and_then (FinishValue ts) (\<lambda>r. Inr (xs, r))
      | _ \<Rightarrow> Inl bad_value)"

definition ReadAnon_list_1 :: "tok list \<Rightarrow> err + string list \<times> tok list" where
  "ReadAnon_list_1 ts = and_then (StartValue ts) (\<lambda>(_, r). read_strings [] (LenHint r))"

fun read_discharges :: "wire_lib \<Rightarrow> (string \<times> discharge) list \<Rightarrow> tok list \<Rightarrow> err + (string \<times> discharge) list \<times> tok list" where
  "read_discharges W m [] = Inl bad_value"
| "read_discharges W m [t] = Inl bad_value"
| "read_discharges W m (t # u # ts) =
     (case t of
        TString k \<Rightarrow>
          (case u of
             TOpaque b \<Rightarrow>
               (case discharge_native W b of Inl er \<Rightarrow> Inl er | Inr d \<Rightarrow> read_discharges W (AList.update k d m) ts)
           | _ \<Rightarrow> Inl bad_value)
      | TEntryDone \<Rightarrow> and_then (FinishValue (u # ts)) (\<lambda>r. Inr (m, r))
      | _ \<Rightarrow> Inl bad_value)"

definition ReadAnon_map_2 :: "wire_lib \<Rightarrow> tok list \<Rightarrow> err + (string \<times> discharge) list \<times> tok list" where
  "ReadAnon_map_2 W ts = and_then (StartValue ts) (\<lambda>(_, r). read_discharges W [] (LenHint r))"

text \<open>The cases of the \<open>switch index\<close>; an index without a case reads nothing.\<close>

definition read_opaque :: "(bytes \<Rightarrow> err + 'a) \<Rightarrow> ('a \<Rightarrow> 'x) \<Rightarrow> tok list \<Rightarrow> err + 'x \<times> tok list" where
  "read_opaque conv upd ts = (case ts of TOpaque b # r \<Rightarrow> and_then (conv b) (\<lambda>a. Inr (upd a, r)) | _ \<Rightarrow> Inl bad_value)"

definition read_string :: "(string \<Rightarrow> 'x) \<Rightarrow> tok list \<Rightarrow> err + 'x \<times> tok list" where
  "read_string upd ts = (case ts of TString s # r \<Rightarrow> Inr (upd s, r) | _ \<Rightarrow> Inl bad_value)"

definition fits_bits :: "nat \<Rightarrow> int \<Rightarrow> bool" where
  "fits_bits b i \<longleftrightarrow> - (2 ^ (b - 1)) \<le> i \<and> i < 2 ^ (b - 1)"

definition ReadValueInt :: "nat \<Rightarrow> (int \<Rightarrow> 'x) \<Rightarrow> tok list \<Rightarrow> err + 'x \<times> tok list" where
  "ReadValueInt b upd ts =
     (case ts of TInt i # r \<Rightarrow> if fits_bits b i then Inr (upd i, r) else Inl bad_value | _ \<Rightarrow> Inl bad_value)"

definition read_message_field :: "wire_lib \<Rightarrow> int \<Rightarrow> message \<Rightarrow> tok list \<Rightarrow> err + message \<times> tok list" where
  "read_message_field W i x ts =
     (if i = 0 then and_then (ReadAnon_list_1 ts) (\<lambda>(v, r). Inr (x\<lparr>Hops := v\<rparr>, r))
      else if i = 1 then read_opaque (blessings_native W) (\<lambda>v. x\<lparr>SenderBlessings := v\<rparr>) ts
      else if i = 2 then and_then (ReadAnon_map_2 W ts) (\<lambda>(v, r). Inr (x\<lparr>SenderDischarges := v\<rparr>, r))
      else if i = 3 then read_opaque Inr (\<lambda>v. x\<lparr>Signature := v\<rparr>) ts
      else if i = 4 then read_string (\<lambda>v. x\<lparr>Id := v\<rparr>) ts
      else if i = 5 then read_string (\<lambda>v. x\<lparr>Recipient := v\<rparr>) ts
      else if i = 6 then read_opaque (time_native W) (\<lambda>v. x\<lparr>CreationTime := v\<rparr>) ts
      else if i = 7 then read_opaque (duration_native W) (\<lambda>v. x\<lparr>Lifespan := v\<rparr>) ts
      else if i = 8 then ReadValueInt 64 (\<lambda>v. x\<lparr>Length := v\<rparr>) ts
      else if i = 9 then (case ts of TBytes b # r \<Rightarrow> Inr (x\<lparr>Sha256 := b\<rparr>, r) | _ \<Rightarrow> Inl bad_value)
      else Inr (x, ts))"

definition VDLRead :: "wire_lib \<Rightarrow> tok list \<Rightarrow> err + message \<times> tok list" where
  "VDLRead W ts =
     and_then (StartValue ts) (\<lambda>(decType, r).
       read_fields (own_index W messageType decType messageFields) (read_message_field W) (Suc (length r)) zero_message r)"

section \<open>Peer records\<close>

definition peerInfoType :: string where
  "peerInfoType = ''messenger/internal.PeerInfo''"

definition peerInfoFields :: "string list" where
  "peerInfoFields = [''Sent'', ''FatalError'', ''NextAttempt'', ''NumAttempts'']"

definition PeerInfo_IsZero :: "PeerInfo \<Rightarrow> bool" where
  "PeerInfo_IsZero x \<longleftrightarrow>
     (if Sent x then False else if FatalError x then False else if \<not> IsZero (NextAttempt x) then False
      else if NumAttempts x \<noteq> 0 then False else True)"

definition PeerInfo_Write :: "wire_lib \<Rightarrow> PeerInfo \<Rightarrow> encoder \<Rightarrow> err + encoder" where
  "PeerInfo_Write W x = enc_all [
     enc_call [TStart peerInfoType],
     enc_if (Sent x) (enc_call [TField 0, TBool (Sent x)]),
     enc_if (FatalError x) (enc_call [TField 1, TBool (FatalError x)]),
     enc_if (\<not> IsZero (NextAttempt x)) (write_wire 2 (time_wire W (NextAttempt x))),
     enc_if (NumAttempts x \<noteq> 0) (enc_call [TField 3, TInt (NumAttempts x)]),
     enc_call [TField (- 1)],
     enc_call [TFinish]]"

definition ReadValueBool :: "(bool \<Rightarrow> 'x) \<Rightarrow> tok list \<Rightarrow> err + 'x \<times> tok list" where
  "ReadValueBool upd ts = (case ts of TBool b # r \<Rightarrow> Inr (upd b, r) | _ \<Rightarrow> Inl bad_value)"

definition read_peerInfo_field :: "wire_lib \<Rightarrow> int \<Rightarrow> PeerInfo \<Rightarrow> tok list \<Rightarrow> err + PeerInfo \<times> tok list" where
  "read_peerInfo_field W i x ts =
     (if i = 0 then ReadValueBool (\<lambda>v. x\<lparr>Sent := v\<rparr>) ts
      else if i = 1 then ReadValueBool (\<lambda>v. x\<lparr>FatalError := v\<rparr>) ts
      else if i = 2 then read_opaque (time_native W) (\<lambda>v. x\<lparr>NextAttempt := v\<rparr>) ts
      else if i = 3 then ReadValueInt 32 (\<lambda>v. x\<lparr>NumAttempts := v\<rparr>) ts
      else Inr (x, ts))"

definition PeerInfo_Read :: "wire_lib \<Rightarrow> tok list \<Rightarrow> err + PeerInfo \<times> tok list" where
  "PeerInfo_Read W ts =
     and_then (StartValue ts) (\<lambda>(decType, r).
       read_fields (own_index W peerInfoType decType peerInfoFields) (read_peerInfo_field W) (Suc (length r)) zero_PeerInfo r)"

section \<open>What an encoder emits\<close>

definition healthy :: "encoder \<Rightarrow> bool" where
  "healthy E \<longleftrightarrow> (\<forall>n. call_err E n = None)"

definition emits :: "(encoder \<Rightarrow> err + encoder) \<Rightarrow> tok list \<Rightarrow> bool" where
  "emits f ts \<longleftrightarrow> (\<forall>E. healthy E \<longrightarrow> (\<exists>E'. f E = Inr E' \<and> written E' = written E @ ts \<and> healthy E'))"

lemma emits_call: "emits (enc_call ts) ts"
  by (simp add: emits_def enc_call_def healthy_def)

lemma emits_seq: "emits f ts \<Longrightarrow> emits g us \<Longrightarrow> emits (enc_seq f g) (ts @ us)"
  unfolding emits_def enc_seq_def by fastforce

lemma emits_if: "(b \<Longrightarrow> emits f ts) \<Longrightarrow> emits (enc_if b f) (if b then ts else [])"
  by (auto simp: emits_def enc_if_def)

lemma emits_Nil: "emits (enc_all []) []"
  by (simp add: emits_def)

lemma emits_Cons: "emits f ts \<Longrightarrow> emits (enc_all fs) us \<Longrightarrow> emits (enc_all (f # fs)) (ts @ us)"
  unfolding emits_def by fastforce

lemma emits_append: "emits (enc_all fs) ts \<Longrightarrow> emits (enc_all gs) us \<Longrightarrow> emits (enc_all (fs @ gs)) (ts @ us)"
proof -
  assume a: "emits (enc_all fs) ts" "emits (enc_all gs) us"
  have eq: "enc_all (xs @ ys) E = and_then (enc_all xs E) (enc_all ys)" for xs ys E
    by (induction xs arbitrary: E) (auto simp: and_then_def split: sum.splits)
  show ?thesis using a unfolding emits_def eq by fastforce
qed

lemma emits_map: "(\<And>x. x \<in> set xs \<Longrightarrow> emits (g x) (h x)) \<Longrightarrow> emits (enc_all (map g xs)) (concat (map h xs))"
proof (induction xs)
  case (Cons x xs)
  then have "emits (enc_all (g x # map g xs)) (h x @ concat (map h xs))" by (intro emits_Cons) auto
  then show ?case unfolding list.map concat.simps .
qed (simp add: emits_def)

text \<open>The wire form of a value whose conversion succeeds.\<close>

definition wire_of :: "err + 'a \<Rightarrow> 'a" where
  "wire_of r = (case r of Inr b \<Rightarrow> b)"

lemma emits_wire: "r = Inr b \<Longrightarrow> emits (write_wire i r) [TField i, TOpaque b]"
  unfolding write_wire_def using emits_seq [OF emits_call [of "[TField i]"] emits_call [of "[TOpaque b]"]] by simp

definition discharge_tok :: "wire_lib \<Rightarrow> discharge \<Rightarrow> bytes" where
  "discharge_tok W d = (case wire_of (discharge_wire W d) of None \<Rightarrow> discharge_zero W | Some b \<Rightarrow> b)"

lemma emits_discharge:
  "discharge_wire W (snd kd) = Inr w \<Longrightarrow> emits (write_discharge W kd) [TString (fst kd), TOpaque (discharge_tok W (snd kd))]"
  unfolding write_discharge_def discharge_tok_def wire_of_def
  using emits_seq [OF emits_call [of "[TString (fst kd)]"] emits_call [of "[TOpaque (case w of None \<Rightarrow> discharge_zero W | Some b \<Rightarrow> b)]"]]
  by simp

definition list_toks :: "string list \<Rightarrow> tok list" where
  "list_toks xs = TStart ''[]string'' # TLenHint (length xs) # map TString xs @ [TEntryDone, TFinish]"

lemma emits_list: "emits (WriteAnon_list_1 xs) (list_toks xs)"
proof -
  have e: "emits (enc_all (map (\<lambda>el. enc_call [TString el]) xs)) (map TString xs)"
    using emits_map [of xs "\<lambda>el. enc_call [TString el]" "\<lambda>el. [TString el]"] emits_call by simp
  show ?thesis unfolding WriteAnon_list_1_def list_toks_def
    using emits_append [OF emits_Cons [OF emits_call emits_Cons [OF emits_call emits_Nil]]
        emits_append [OF e emits_Cons [OF emits_call emits_Cons [OF emits_call emits_Nil]]],
      of "[TStart ''[]string'']" "[TLenHint (length xs)]" "[TEntryDone]" "[TFinish]"] by simp
qed

definition map_toks :: "wire_lib \<Rightarrow> (string \<times> discharge) list \<Rightarrow> tok list" where
  "map_toks W m = TStart ''map[string]Discharge'' # TLenHint (length m)
     # concat (map (\<lambda>kd. [TString (fst kd), TOpaque (discharge_tok W (snd kd))]) m) @ [TEntryDone, TFinish]"

lemma emits_discharges:
  assumes "\<forall>kd \<in> set m. \<exists>w. discharge_wire W (snd kd) = Inr w"
  shows "emits (WriteAnon_map_2 W m) (map_toks W m)"
proof -
  have e: "emits (enc_all (map (write_discharge W) m)) (concat (map (\<lambda>kd. [TString (fst kd), TOpaque (discharge_tok W (snd kd))]) m))"
    by (rule emits_map) (use assms emits_discharge in blast)
  show ?thesis unfolding WriteAnon_map_2_def map_toks_def
    using emits_append [OF emits_Cons [OF emits_call emits_Cons [OF emits_call emits_Nil]]
        emits_append [OF e emits_Cons [OF emits_call emits_Cons [OF emits_call emits_Nil]]],
      of "[TStart ''map[string]Discharge'']" "[TLenHint (length m)]" "[TEntryDone]" "[TFinish]"] by simp
qed

section \<open>What a decoder reads\<close>

definition reads :: "(int \<Rightarrow> int) \<Rightarrow> (int \<Rightarrow> 'x \<Rightarrow> tok list \<Rightarrow> err + 'x \<times> tok list) \<Rightarrow> 'x \<Rightarrow> tok list \<Rightarrow> err + 'x \<times> tok list \<Rightarrow> bool" where
  "reads own rd x ts res \<longleftrightarrow> (\<forall>n. length ts < n \<longrightarrow> read_fields own rd n x ts = res)"

lemma reads_all: "reads own rd x ts res \<Longrightarrow> read_fields own rd (Suc (length ts)) x ts = res"
  unfolding reads_def by blast

lemma reads_end: "reads own rd x (TField (- 1) # TFinish # r) (Inr (x, r))"
proof -
  have "read_fields own rd n x (TField (- 1) # TFinish # r) = Inr (x, r)" if "0 < n" for n
    using that by (cases n) (simp_all add: FinishValue_def)
  then show ?thesis by (simp add: reads_def)
qed

lemma reads_field:
  assumes "b \<Longrightarrow> own i \<noteq> - 1 \<and> i \<noteq> - 1 \<and> rd (own i) x (vs @ rest) = Inr (x', rest)"
    and "\<not> b \<Longrightarrow> x' = x" and "reads own rd x' rest res"
  shows "reads own rd x ((if b then TField i # vs else []) @ rest) res"
proof (cases b)
  case True
  have "read_fields own rd n x (TField i # vs @ rest) = res" if n: "length (TField i # vs @ rest) < n" for n
  proof -
    obtain k where k: "n = Suc k" "length rest < k" using n by (cases n) auto
    with assms(1) [OF True] assms(3) show ?thesis by (simp add: reads_def)
  qed
  with True show ?thesis by (simp add: reads_def)
next
  case False
  with assms(2,3) show ?thesis by simp
qed

text \<open>A field that the type does not have is skipped, whatever its value.\<close>

lemma reads_unknown:
  assumes "own i = - 1" and "i \<noteq> - 1" and "SkipValue (vs @ rest) = Inr rest" and "reads own rd x rest res"
  shows "reads own rd x (TField i # vs @ rest) res"
proof -
  have "read_fields own rd n x (TField i # vs @ rest) = res" if n: "length (TField i # vs @ rest) < n" for n
  proof -
    obtain k where k: "n = Suc k" "length rest < k" using n by (cases n) auto
    with assms show ?thesis by (simp add: reads_def)
  qed
  then show ?thesis by (simp add: reads_def)
qed

lemma read_strings_list: "read_strings xs (map TString ys @ TEntryDone # TFinish # r) = Inr (xs @ ys, r)"
  by (induction ys arbitrary: xs) (simp_all add: FinishValue_def)

lemma ReadAnon_list_toks: "ReadAnon_list_1 (list_toks xs @ r) = Inr (xs, r)"
  by (simp add: ReadAnon_list_1_def StartValue_def LenHint_def list_toks_def read_strings_list)

text \<open>What the conversions of the libraries promise, and which messages they accept.\<close>

definition wire_ok :: "wire_lib \<Rightarrow> bool" where
  "wire_ok W \<longleftrightarrow> (\<forall>x b. blessings_wire W x = Inr b \<longrightarrow> blessings_native W b = Inr x)
     \<and> (\<forall>d w. discharge_wire W d = Inr w \<longrightarrow> discharge_native W (case w of None \<Rightarrow> discharge_zero W | Some b \<Rightarrow> b) = Inr d)
     \<and> (\<forall>t b. time_wire W t = Inr b \<longrightarrow> time_native W b = Inr t)
     \<and> (\<forall>t b. duration_wire W t = Inr b \<longrightarrow> duration_native W b = Inr t)"

definition converts :: "err + 'a \<Rightarrow> bool" where
  "converts r \<longleftrightarrow> (\<exists>b. r = Inr b)"

definition encodable :: "wire_lib \<Rightarrow> message \<Rightarrow> bool" where
  "encodable W m \<longleftrightarrow> (SenderBlessings m \<noteq> [] \<longrightarrow> converts (blessings_wire W (SenderBlessings m)))
     \<and> (\<forall>kd \<in> set (SenderDischarges m). converts (discharge_wire W (snd kd))) \<and> distinct (map fst (SenderDischarges m))
     \<and> (\<not> IsZero (CreationTime m) \<longrightarrow> converts (time_wire W (CreationTime m)))
     \<and> (Lifespan m \<noteq> 0 \<longrightarrow> converts (duration_wire W (Lifespan m))) \<and> fits_bits 64 (Length m)"

lemma converts_wire: "converts r \<Longrightarrow> r = Inr (wire_of r)"
  by (auto simp: converts_def wire_of_def)

lemma discharge_native_tok: "wire_ok W \<Longrightarrow> converts (discharge_wire W d) \<Longrightarrow> discharge_native W (discharge_tok W d) = Inr d"
  unfolding wire_ok_def discharge_tok_def using converts_wire by blast

lemma read_discharges_map:
  assumes "wire_ok W" and "\<forall>kd \<in> set m. converts (discharge_wire W (snd kd))" and "distinct (map fst (acc @ m))"
  shows "read_discharges W acc (concat (map (\<lambda>kd. [TString (fst kd), TOpaque (discharge_tok W (snd kd))]) m)
    @ TEntryDone # TFinish # r) = Inr (acc @ m, r)"
  using assms(2,3)
proof (induction m arbitrary: acc)
  case Nil
  then show ?case by (simp add: FinishValue_def)
next
  case (Cons kd m)
  have "discharge_native W (discharge_tok W (snd kd)) = Inr (snd kd)"
    using discharge_native_tok [OF assms(1)] Cons.prems(1) by simp
  moreover have "AList.update (fst kd) (snd kd) acc = acc @ [kd]" using Cons.prems(2) by (simp add: alist_update_new)
  ultimately show ?case using Cons.IH [of "acc @ [kd]"] Cons.prems by simp
qed

lemma ReadAnon_map_toks:
  assumes "wire_ok W" and "\<forall>kd \<in> set m. converts (discharge_wire W (snd kd))" and "distinct (map fst m)"
  shows "ReadAnon_map_2 W (map_toks W m @ r) = Inr (m, r)"
  using read_discharges_map [OF assms(1,2), of "[]" r] assms(3)
  by (simp add: ReadAnon_map_2_def StartValue_def LenHint_def map_toks_def)

section \<open>Messages survive the wire\<close>

text \<open>A field is the empty sequence when its value is the zero value.\<close>

definition field_toks :: "bool \<Rightarrow> int \<Rightarrow> tok list \<Rightarrow> tok list" where
  "field_toks b i vs = (if b then TField i # vs else [])"

definition message_toks :: "wire_lib \<Rightarrow> message \<Rightarrow> tok list" where
  "message_toks W m =
     field_toks (Hops m \<noteq> []) 0 (list_toks (Hops m))
     @ field_toks (SenderBlessings m \<noteq> []) 1 [TOpaque (wire_of (blessings_wire W (SenderBlessings m)))]
     @ field_toks (SenderDischarges m \<noteq> []) 2 (map_toks W (SenderDischarges m))
     @ field_toks (Signature m \<noteq> []) 3 [TOpaque (Signature m)]
     @ field_toks (Id m \<noteq> []) 4 [TString (Id m)]
     @ field_toks (Recipient m \<noteq> []) 5 [TString (Recipient m)]
     @ field_toks (\<not> IsZero (CreationTime m)) 6 [TOpaque (wire_of (time_wire W (CreationTime m)))]
     @ field_toks (Lifespan m \<noteq> 0) 7 [TOpaque (wire_of (duration_wire W (Lifespan m)))]
     @ field_toks (Length m \<noteq> 0) 8 [TInt (Length m)]
     @ field_toks (Sha256 m \<noteq> []) 9 [TBytes (Sha256 m)]"

lemma emits_field: "(b \<Longrightarrow> emits f (TField i # vs)) \<Longrightarrow> emits (enc_if b f) (field_toks b i vs)"
  unfolding field_toks_def by (rule emits_if)

lemma emits_field_seq: "emits g vs \<Longrightarrow> emits (enc_seq (enc_call [TField i]) g) (TField i # vs)"
  using emits_seq [OF emits_call [of "[TField i]"], of g vs] by simp

lemma VDLWrite_emits:
  assumes "encodable W m"
  shows "emits (VDLWrite W m) (TStart messageType # message_toks W m @ [TField (- 1), TFinish])"
proof -
  let ?w = "\<lambda>r. wire_of r"
  have b: "emits (write_wire 1 (blessings_wire W (SenderBlessings m))) [TField 1, TOpaque (?w (blessings_wire W (SenderBlessings m)))]"
    if "SenderBlessings m \<noteq> []"
    using that assms by (intro emits_wire converts_wire) (simp add: encodable_def)
  have t: "emits (write_wire 6 (time_wire W (CreationTime m))) [TField 6, TOpaque (?w (time_wire W (CreationTime m)))]"
    if "\<not> IsZero (CreationTime m)"
    using that assms by (intro emits_wire converts_wire) (simp add: encodable_def)
  have d: "emits (write_wire 7 (duration_wire W (Lifespan m))) [TField 7, TOpaque (?w (duration_wire W (Lifespan m)))]"
    if "Lifespan m \<noteq> 0"
    using that assms by (intro emits_wire converts_wire) (simp add: encodable_def)
  have dis: "emits (WriteAnon_map_2 W (SenderDischarges m)) (map_toks W (SenderDischarges m))"
    using assms by (intro emits_discharges) (auto simp: encodable_def converts_def)
  have "emits (VDLWrite W m) ([TStart messageType]
    @ field_toks (Hops m \<noteq> []) 0 (list_toks (Hops m))
    @ field_toks (SenderBlessings m \<noteq> []) 1 [TOpaque (?w (blessings_wire W (SenderBlessings m)))]
    @ field_toks (SenderDischarges m \<noteq> []) 2 (map_toks W (SenderDischarges m))
    @ field_toks (Signature m \<noteq> []) 3 [TOpaque (Signature m)]
    @ field_toks (Id m \<noteq> []) 4 [TString (Id m)]
    @ field_toks (Recipient m \<noteq> []) 5 [TString (Recipient m)]
    @ field_toks (\<not> IsZero (CreationTime m)) 6 [TOpaque (?w (time_wire W (CreationTime m)))]
    @ field_toks (Lifespan m \<noteq> 0) 7 [TOpaque (?w (duration_wire W (Lifespan m)))]
    @ field_toks (Length m \<noteq> 0) 8 [TInt (Length m)]
    @ field_toks (Sha256 m \<noteq> []) 9 [TBytes (Sha256 m)]
    @ [TField (- 1)] @ [TFinish] @ [])"
    unfolding VDLWrite_def
    by (intro emits_Cons emits_Nil emits_call emits_field emits_field_seq emits_list b t d dis)
  then show ?thesis by (simp add: message_toks_def)
qed

definition own_message :: "wire_lib \<Rightarrow> int \<Rightarrow> int" where
  "own_message W = own_index W messageType messageType messageFields"

lemma own_message_id [simp]: "own_message W i = i"
  by (simp add: own_message_def own_index_def)

lemma reads_field_toks:
  assumes "b \<Longrightarrow> rd i x (vs @ rest) = Inr (x', rest)" and "\<not> b \<Longrightarrow> x' = x" and "i \<noteq> - 1"
    and "reads (own_message W) rd x' rest res"
  shows "reads (own_message W) rd x (field_toks b i vs @ rest) res"
  unfolding field_toks_def by (rule reads_field [where x' = x']) (use assms in auto)

lemmas read_defs = read_message_field_def read_opaque_def read_string_def ReadValueInt_def

lemma message_toks_read:
  assumes "wire_ok W" and "encodable W m"
  shows "reads (own_message W) (read_message_field W) zero_message (message_toks W m @ TField (- 1) # TFinish # r) (Inr (m, r))"
proof -
  have conv: "SenderBlessings m \<noteq> [] \<Longrightarrow> blessings_native W (wire_of (blessings_wire W (SenderBlessings m))) = Inr (SenderBlessings m)"
    "\<not> IsZero (CreationTime m) \<Longrightarrow> time_native W (wire_of (time_wire W (CreationTime m))) = Inr (CreationTime m)"
    "Lifespan m \<noteq> 0 \<Longrightarrow> duration_native W (wire_of (duration_wire W (Lifespan m))) = Inr (Lifespan m)"
    using assms converts_wire unfolding wire_ok_def encodable_def by blast+
  have dis: "ReadAnon_map_2 W (map_toks W (SenderDischarges m) @ ts) = Inr (SenderDischarges m, ts)" for ts
    using assms by (intro ReadAnon_map_toks) (auto simp: encodable_def)
  have z: "IsZero t \<Longrightarrow> t = zero_time" for t by (simp add: IsZero_def)
  have len: "fits_bits 64 (Length m)" using assms(2) by (simp add: encodable_def)
  let ?x1 = "zero_message\<lparr>Hops := Hops m\<rparr>"
  let ?x2 = "?x1\<lparr>SenderBlessings := SenderBlessings m\<rparr>"
  let ?x3 = "?x2\<lparr>SenderDischarges := SenderDischarges m\<rparr>"
  let ?x4 = "?x3\<lparr>Signature := Signature m\<rparr>"
  let ?x5 = "?x4\<lparr>Id := Id m\<rparr>"
  let ?x6 = "?x5\<lparr>Recipient := Recipient m\<rparr>"
  let ?x7 = "?x6\<lparr>CreationTime := CreationTime m\<rparr>"
  let ?x8 = "?x7\<lparr>Lifespan := Lifespan m\<rparr>"
  let ?x9 = "?x8\<lparr>Length := Length m\<rparr>"
  have "m = ?x9\<lparr>Sha256 := Sha256 m\<rparr>" by (simp add: zero_message_def)
  then have "reads (own_message W) (read_message_field W) (?x9\<lparr>Sha256 := Sha256 m\<rparr>) (TField (- 1) # TFinish # r) (Inr (m, r))"
    using reads_end by metis
  then show ?thesis unfolding message_toks_def append_assoc
    by (intro reads_field_toks [where i = 0 and x' = ?x1] reads_field_toks [where i = 1 and x' = ?x2] reads_field_toks [where i = 2 and x' = ?x3]
        reads_field_toks [where i = 3 and x' = ?x4] reads_field_toks [where i = 4 and x' = ?x5] reads_field_toks [where i = 5 and x' = ?x6]
        reads_field_toks [where i = 6 and x' = ?x7] reads_field_toks [where i = 7 and x' = ?x8] reads_field_toks [where i = 8 and x' = ?x9]
        reads_field_toks [where i = 9 and x' = "?x9\<lparr>Sha256 := Sha256 m\<rparr>"])
      (simp_all add: read_defs ReadAnon_list_toks conv dis len z zero_message_def)
qed

lemma VDLRead_toks:
  assumes "wire_ok W" and "encodable W m"
  shows "VDLRead W (TStart messageType # message_toks W m @ TField (- 1) # TFinish # r) = Inr (m, r)"
  using reads_all [OF message_toks_read [OF assms, of r]] unfolding VDLRead_def own_message_def
  by (simp add: StartValue_def del: read_fields.simps)

lemma VDLIsZero_iff: "VDLIsZero m \<longleftrightarrow> m = zero_message"
  by (cases m) (auto simp: VDLIsZero_def zero_message_def IsZero_def)

text \<open>
  C35: a message that is written to an encoder is read back unchanged, whatever follows it,
  fields with a zero value included, which are not written at all; \<open>VDLIsZero\<close> holds exactly
  for the zero message.
\<close>

theorem Message_wire_roundtrip:
  assumes "wire_ok W" and "encodable W m" and "healthy E" and "written E = []"
  shows "\<exists>E'. VDLWrite W m E = Inr E' \<and> VDLRead W (written E' @ r) = Inr (m, r)
    \<and> (VDLIsZero m \<longleftrightarrow> m = zero_message)
    \<and> (VDLIsZero m \<longrightarrow> written E' = [TStart messageType, TField (- 1), TFinish])"
proof -
  obtain E' where "VDLWrite W m E = Inr E'" "written E' = TStart messageType # message_toks W m @ [TField (- 1), TFinish]"
    using VDLWrite_emits [OF assms(2)] assms(3,4) unfolding emits_def by auto
  moreover have "message_toks W zero_message = []" by (simp add: message_toks_def field_toks_def zero_message_def IsZero_def)
  ultimately show ?thesis using VDLRead_toks [OF assms(1,2), of r] by (auto simp: VDLIsZero_iff)
qed

section \<open>Peer records survive the wire\<close>

definition peerInfo_toks :: "wire_lib \<Rightarrow> PeerInfo \<Rightarrow> tok list" where
  "peerInfo_toks W x =
     field_toks (Sent x) 0 [TBool (Sent x)]
     @ field_toks (FatalError x) 1 [TBool (FatalError x)]
     @ field_toks (\<not> IsZero (NextAttempt x)) 2 [TOpaque (wire_of (time_wire W (NextAttempt x)))]
     @ field_toks (NumAttempts x \<noteq> 0) 3 [TInt (NumAttempts x)]"

definition peerInfo_encodable :: "wire_lib \<Rightarrow> PeerInfo \<Rightarrow> bool" where
  "peerInfo_encodable W x \<longleftrightarrow> (\<not> IsZero (NextAttempt x) \<longrightarrow> converts (time_wire W (NextAttempt x))) \<and> fits_bits 32 (NumAttempts x)"

lemma PeerInfo_Write_emits:
  assumes "peerInfo_encodable W x"
  shows "emits (PeerInfo_Write W x) (TStart peerInfoType # peerInfo_toks W x @ [TField (- 1), TFinish])"
proof -
  have t: "emits (write_wire 2 (time_wire W (NextAttempt x))) [TField 2, TOpaque (wire_of (time_wire W (NextAttempt x)))]"
    if "\<not> IsZero (NextAttempt x)"
    using that assms by (intro emits_wire converts_wire) (simp add: peerInfo_encodable_def)
  have "emits (PeerInfo_Write W x) ([TStart peerInfoType] @ field_toks (Sent x) 0 [TBool (Sent x)]
     @ field_toks (FatalError x) 1 [TBool (FatalError x)]
     @ field_toks (\<not> IsZero (NextAttempt x)) 2 [TOpaque (wire_of (time_wire W (NextAttempt x)))]
     @ field_toks (NumAttempts x \<noteq> 0) 3 [TInt (NumAttempts x)] @ [TField (- 1)] @ [TFinish] @ [])"
    unfolding PeerInfo_Write_def by (intro emits_Cons emits_Nil emits_call emits_field t)
  then show ?thesis by (simp add: peerInfo_toks_def)
qed

lemma reads_own_field:
  assumes "b \<Longrightarrow> rd i x (vs @ rest) = Inr (x', rest)" and "\<not> b \<Longrightarrow> x' = x" and "i \<noteq> - 1"
    and "reads (\<lambda>i. i) rd x' rest res"
  shows "reads (\<lambda>i. i) rd x (field_toks b i vs @ rest) res"
  unfolding field_toks_def by (rule reads_field [where x' = x']) (use assms in auto)

lemma PeerInfo_wire_roundtrip:
  assumes "wire_ok W" and "peerInfo_encodable W x" and "healthy E" and "written E = []"
  shows "\<exists>E'. PeerInfo_Write W x E = Inr E' \<and> PeerInfo_Read W (written E' @ r) = Inr (x, r)
    \<and> (PeerInfo_IsZero x \<longleftrightarrow> x = zero_PeerInfo)"
proof -
  obtain E' where E: "PeerInfo_Write W x E = Inr E'" "written E' = TStart peerInfoType # peerInfo_toks W x @ [TField (- 1), TFinish]"
    using PeerInfo_Write_emits [OF assms(2)] assms(3,4) unfolding emits_def by auto
  have conv: "\<not> IsZero (NextAttempt x) \<Longrightarrow> time_native W (wire_of (time_wire W (NextAttempt x))) = Inr (NextAttempt x)"
    using assms(1,2) converts_wire unfolding wire_ok_def peerInfo_encodable_def by blast
  have n: "fits_bits 32 (NumAttempts x)" using assms(2) by (simp add: peerInfo_encodable_def)
  let ?x1 = "zero_PeerInfo\<lparr>Sent := Sent x\<rparr>"
  let ?x2 = "?x1\<lparr>FatalError := FatalError x\<rparr>"
  let ?x3 = "?x2\<lparr>NextAttempt := NextAttempt x\<rparr>"
  let ?x4 = "?x3\<lparr>NumAttempts := NumAttempts x\<rparr>"
  have x: "x = ?x4" by (simp add: zero_PeerInfo_def)
  have "reads (\<lambda>i. i) (read_peerInfo_field W) ?x4 (TField (- 1) # TFinish # r) (Inr (x, r))"
    by (subst x [symmetric]) (rule reads_end)
  then have "reads (\<lambda>i. i) (read_peerInfo_field W) zero_PeerInfo (peerInfo_toks W x @ TField (- 1) # TFinish # r) (Inr (x, r))"
    unfolding peerInfo_toks_def append_assoc
    by (intro reads_own_field [where i = 0 and x' = ?x1] reads_own_field [where i = 1 and x' = ?x2]
        reads_own_field [where i = 2 and x' = ?x3] reads_own_field [where i = 3 and x' = ?x4])
      (simp_all add: read_peerInfo_field_def ReadValueBool_def ReadValueInt_def read_opaque_def conv n zero_PeerInfo_def IsZero_def)
  moreover have "own_index W peerInfoType peerInfoType peerInfoFields = (\<lambda>i. i)" by (simp add: own_index_def fun_eq_iff)
  ultimately have "PeerInfo_Read W (written E' @ r) = Inr (x, r)"
    using reads_all by (fastforce simp add: E(2) PeerInfo_Read_def StartValue_def simp del: read_fields.simps)
  moreover have "PeerInfo_IsZero x \<longleftrightarrow> x = zero_PeerInfo"
    by (cases x) (auto simp: PeerInfo_IsZero_def zero_PeerInfo_def IsZero_def)
  ultimately show ?thesis using E(1) by blast
qed

section \<open>Values written by another version\<close>

text \<open>
  A value of a struct type that has a field the reader does not know, next to the fields it
  knows: the unknown field is skipped with everything nested in it.
\<close>

lemma skip_nested: "SkipValue (TStart ty # TLenHint n # map TString xs @ TEntryDone # TFinish # r) = Inr r"
proof -
  have "skip_in (Suc 0) (map TString xs @ TEntryDone # TFinish # r) = Inr r" by (induction xs) simp_all
  then show ?thesis by (simp add: SkipValue_def)
qed

section \<open>A small instance\<close>

definition ex_put :: "int \<Rightarrow> err + bytes" where
  "ex_put t = (if fits_bits 64 t then Inr (itoa t) else Inl bad_value)"

definition ex_get :: "bytes \<Rightarrow> err + int" where
  "ex_get b = (case ParseInt b of None \<Rightarrow> Inl bad_value | Some t \<Rightarrow> Inr t)"

definition ex_wire :: wire_lib where
  "ex_wire = \<lparr>blessings_wire = Inr, blessings_native = Inr, discharge_wire = (\<lambda>d. Inr (if d = [] then None else Some d)),
     discharge_native = Inr, discharge_zero = [], time_wire = ex_put, time_native = ex_get,
     duration_wire = ex_put, duration_native = ex_get, fields_of = (\<lambda>_. [])\<rparr>"

lemma ex_get_put: "ex_put t = Inr b \<Longrightarrow> ex_get b = Inr t"
  by (auto simp: ex_put_def ex_get_def fits_bits_def ParseInt_itoa split: if_splits)

lemma ex_wire_ok: "wire_ok ex_wire"
  by (auto simp: wire_ok_def ex_wire_def ex_get_put split: if_splits)

definition ex_encoder :: encoder where
  "ex_encoder = \<lparr>written = [], calls = 0, call_err = (\<lambda>_. None)\<rparr>"

definition ex_wire_message :: message where
  "ex_wire_message = zero_message\<lparr>Id := ''m1'', Hops := [''a'', ''b''], SenderDischarges := [(''d'', ''x'')], Length := 7, Lifespan := 10\<rparr>"

theorem Message_wire_roundtrip_witness:
  "\<exists>E'. VDLWrite ex_wire ex_wire_message ex_encoder = Inr E' \<and> VDLRead ex_wire (written E' @ [TFinish]) = Inr (ex_wire_message, [TFinish])"
proof -
  have "encodable ex_wire ex_wire_message"
    by (simp add: encodable_def ex_wire_def ex_wire_message_def zero_message_def converts_def ex_put_def fits_bits_def IsZero_def)
  moreover have "healthy ex_encoder" "written ex_encoder = []" by (simp_all add: healthy_def ex_encoder_def)
  ultimately show ?thesis using Message_wire_roundtrip [OF ex_wire_ok, of ex_wire_message ex_encoder "[TFinish]"] by blast
qed

end
