(* ===== verification/VdlTypes.thy ===== *)
theory VdlTypes
  imports Vdl
begin

text \<open>
  The types of the values on the wire.  A token sequence has a VDL type; what the generated
  encoders of \<^verbatim>\<open>src/ifc/ifc.vdl.go\<close> and \<^verbatim>\<open>src/internal/internal.vdl.go\<close> emit has the type of the
  struct, and the generated decoders succeed on every value of a compatible struct type, also
  one with other fields, in another order or of another version.
\<close>

section \<open>Types\<close>

datatype vty = TyString | TyInt nat | TyBool | TyBytes | TyOpaque string | TyList vty | TyMap vty vty
  | TyStruct string "(string \<times> vty) list"

text \<open>\<open>valid n b\<close>: the bytes \<open>b\<close> are the wire form of a value of the library type \<open>n\<close>.\<close>

inductive has_type :: "(string \<Rightarrow> bytes \<Rightarrow> bool) \<Rightarrow> vty \<Rightarrow> tok list \<Rightarrow> bool" for valid where
  string: "has_type valid TyString [TString s]"
| int: "fits_bits b i \<Longrightarrow> has_type valid (TyInt b) [TInt i]"
| bool: "has_type valid TyBool [TBool b]"
| bytes: "has_type valid TyBytes [TBytes b]"
| opaque: "valid n b \<Longrightarrow> has_type valid (TyOpaque n) [TOpaque b]"
| list: "\<forall>ts \<in> set xs. has_type valid t ts \<Longrightarrow>
    has_type valid (TyList t) (TStart n # TLenHint (length xs) # concat xs @ [TEntryDone, TFinish])"
| map: "\<forall>kv \<in> set xs. has_type valid k (fst kv) \<and> has_type valid t (snd kv) \<Longrightarrow>
    has_type valid (TyMap k t) (TStart n # TLenHint (length xs) # concat (map (\<lambda>kv. fst kv @ snd kv) xs) @ [TEntryDone, TFinish])"
| struct: "\<forall>x \<in> set xs. fst x < length fs \<and> has_type valid (snd (fs ! fst x)) (snd x) \<Longrightarrow> sorted_wrt (<) (map fst xs) \<Longrightarrow>
    has_type valid (TyStruct n fs) (TStart n # concat (map (\<lambda>x. TField (int (fst x)) # snd x) xs) @ [TField (- 1), TFinish])"

inductive_cases string_typeE: "has_type valid TyString ts"
inductive_cases int_typeE: "has_type valid (TyInt b) ts"
inductive_cases bool_typeE: "has_type valid TyBool ts"
inductive_cases bytes_typeE: "has_type valid TyBytes ts"
inductive_cases opaque_typeE: "has_type valid (TyOpaque n) ts"
inductive_cases list_typeE: "has_type valid (TyList t) ts"
inductive_cases map_typeE: "has_type valid (TyMap k t) ts"
inductive_cases struct_typeE: "has_type valid (TyStruct n fs) ts"

text \<open>The types of the two structs, as their definitions in the generated files give them.\<close>

definition messageTys :: "vty list" where
  "messageTys = [TyList TyString, TyOpaque ''WireBlessings'', TyMap TyString (TyOpaque ''WireDischarge''), TyOpaque ''Signature'',
     TyString, TyString, TyOpaque ''Time'', TyOpaque ''Duration'', TyInt 64, TyBytes]"

definition messageTy :: vty where
  "messageTy = TyStruct messageType (zip messageFields messageTys)"

definition peerInfoTys :: "vty list" where
  "peerInfoTys = [TyBool, TyBool, TyOpaque ''Time'', TyInt 32]"

definition peerInfoTy :: vty where
  "peerInfoTy = TyStruct peerInfoType (zip peerInfoFields peerInfoTys)"

definition valid_wire :: "wire_lib \<Rightarrow> string \<Rightarrow> bytes \<Rightarrow> bool" where
  "valid_wire W n b \<longleftrightarrow>
     (if n = ''WireBlessings'' then converts (blessings_native W b)
      else if n = ''WireDischarge'' then converts (discharge_native W b)
      else if n = ''Time'' then converts (time_native W b)
      else if n = ''Duration'' then converts (duration_native W b)
      else True)"

section \<open>Skipping\<close>

text \<open>A value is balanced: skipping inside an enclosing value passes over it.\<close>

lemma skip_in_concat:
  assumes "\<forall>ts \<in> set xs. \<forall>d r. skip_in (Suc d) (ts @ r) = skip_in (Suc d) r"
  shows "skip_in (Suc d) (concat xs @ r) = skip_in (Suc d) r"
  using assms by (induction xs) auto

lemma has_type_balanced: "has_type valid t ts \<Longrightarrow> skip_in (Suc d) (ts @ r) = skip_in (Suc d) r"
proof (induction arbitrary: d r rule: has_type.induct)
  case (list xs t n)
  then have "skip_in (Suc (Suc d)) (concat xs @ s) = skip_in (Suc (Suc d)) s" for s
    by (intro skip_in_concat) blast
  then show ?case by simp
next
  case (map xs k t n)
  then have "\<forall>ts \<in> set (map (\<lambda>kv. fst kv @ snd kv) xs). \<forall>d r. skip_in (Suc d) (ts @ r) = skip_in (Suc d) r" by auto
  then have "skip_in (Suc (Suc d)) (concat (map (\<lambda>kv. fst kv @ snd kv) xs) @ s) = skip_in (Suc (Suc d)) s" for s
    by (rule skip_in_concat)
  then show ?case by simp
next
  case (struct xs fs n)
  then have "\<forall>ts \<in> set (map (\<lambda>x. TField (int (fst x)) # snd x) xs). \<forall>d r. skip_in (Suc d) (ts @ r) = skip_in (Suc d) r" by auto
  then have "skip_in (Suc (Suc d)) (concat (map (\<lambda>x. TField (int (fst x)) # snd x) xs) @ s) = skip_in (Suc (Suc d)) s" for s
    by (rule skip_in_concat)
  then show ?case by simp
qed simp_all

lemma has_type_skip:
  assumes "has_type valid t ts" shows "SkipValue (ts @ r) = Inr r"
  using assms
proof (cases rule: has_type.cases)
  case (list xs t' n)
  then have "\<forall>ts \<in> set xs. \<forall>d r. skip_in (Suc d) (ts @ r) = skip_in (Suc d) r" using has_type_balanced by blast
  from skip_in_concat [OF this, of 0] list show ?thesis by (simp add: SkipValue_def)
next
  case (map xs k t' n)
  then have "\<forall>ts \<in> set (map (\<lambda>kv. fst kv @ snd kv) xs). \<forall>d r. skip_in (Suc d) (ts @ r) = skip_in (Suc d) r"
    using has_type_balanced by auto
  from skip_in_concat [OF this, of 0] map show ?thesis by (simp add: SkipValue_def)
next
  case (struct xs fs n)
  then have "\<forall>ts \<in> set (map (\<lambda>x. TField (int (fst x)) # snd x) xs). \<forall>d r. skip_in (Suc d) (ts @ r) = skip_in (Suc d) r"
    using has_type_balanced by auto
  from skip_in_concat [OF this, of 0] struct show ?thesis by (simp add: SkipValue_def)
qed (simp_all add: SkipValue_def)

section \<open>Reading a value of a type\<close>

lemma read_strings_typed:
  "\<forall>ts \<in> set xs. has_type valid TyString ts \<Longrightarrow> \<exists>ys. read_strings acc (concat xs @ TEntryDone # TFinish # r) = Inr (ys, r)"
  by (induction xs arbitrary: acc) (auto simp: FinishValue_def elim!: string_typeE)

lemma ReadAnon_list_typed: "has_type valid (TyList TyString) ts \<Longrightarrow> \<exists>xs. ReadAnon_list_1 (ts @ r) = Inr (xs, r)"
  by (erule list_typeE) (use read_strings_typed in \<open>force simp: ReadAnon_list_1_def StartValue_def LenHint_def\<close>)

lemma read_discharges_typed:
  "\<forall>kv \<in> set xs. has_type (valid_wire W) TyString (fst kv) \<and> has_type (valid_wire W) (TyOpaque ''WireDischarge'') (snd kv) \<Longrightarrow>
    \<exists>m. read_discharges W acc (concat (map (\<lambda>kv. fst kv @ snd kv) xs) @ TEntryDone # TFinish # r) = Inr (m, r)"
  by (induction xs arbitrary: acc)
    (auto simp: FinishValue_def valid_wire_def converts_def elim!: string_typeE opaque_typeE)

lemma ReadAnon_map_typed:
  "has_type (valid_wire W) (TyMap TyString (TyOpaque ''WireDischarge'')) ts \<Longrightarrow> \<exists>m. ReadAnon_map_2 W (ts @ r) = Inr (m, r)"
  by (erule map_typeE) (use read_discharges_typed in \<open>force simp: ReadAnon_map_2_def StartValue_def LenHint_def\<close>)

text \<open>A decoder of one field accepts the values of the types \<open>tys\<close> of the fields.\<close>

definition field_reader :: "wire_lib \<Rightarrow> vty list \<Rightarrow> (int \<Rightarrow> 'x \<Rightarrow> tok list \<Rightarrow> err + 'x \<times> tok list) \<Rightarrow> bool" where
  "field_reader W tys rd \<longleftrightarrow> (\<forall>j x ts r. j < length tys \<longrightarrow> has_type (valid_wire W) (tys ! j) ts \<longrightarrow>
     (\<exists>x'. rd (int j) x (ts @ r) = Inr (x', r)))"

lemma field_readerD:
  "field_reader W tys rd \<Longrightarrow> j < length tys \<Longrightarrow> has_type (valid_wire W) (tys ! j) ts \<Longrightarrow> \<exists>x'. rd (int j) x (ts @ r) = Inr (x', r)"
  by (simp add: field_reader_def)

lemma read_message_field_typed: "field_reader W messageTys (read_message_field W)"
  unfolding field_reader_def
proof (intro allI impI)
  fix j x ts r
  assume j: "j < length messageTys" and ty: "has_type (valid_wire W) (messageTys ! j) ts"
  from j have "j \<in> {0, 1, 2, 3, 4, 5, 6, 7, 8, 9}" by (auto simp: messageTys_def)
  then show "\<exists>x'. read_message_field W (int j) x (ts @ r) = Inr (x', r)"
    using ty ReadAnon_list_typed [of "valid_wire W" ts r] ReadAnon_map_typed [of W ts r]
    by (auto simp: messageTys_def read_defs valid_wire_def converts_def
        elim!: string_typeE opaque_typeE int_typeE bytes_typeE)
qed

lemma read_peerInfo_field_typed: "field_reader W peerInfoTys (read_peerInfo_field W)"
  unfolding field_reader_def
proof (intro allI impI)
  fix j x ts r
  assume j: "j < length peerInfoTys" and ty: "has_type (valid_wire W) (peerInfoTys ! j) ts"
  from j have "j \<in> {0, 1, 2, 3}" by (auto simp: peerInfoTys_def)
  then show "\<exists>x'. read_peerInfo_field W (int j) x (ts @ r) = Inr (x', r)"
    using ty
    by (auto simp: peerInfoTys_def read_peerInfo_field_def read_opaque_def ReadValueInt_def ReadValueBool_def valid_wire_def converts_def
        elim!: bool_typeE opaque_typeE int_typeE)
qed

section \<open>Reading a struct\<close>

text \<open>
  The struct type of the value is compatible with the one that is read: it is that type, or
  another one whose fields of a common name have the same type.
\<close>

definition compatible :: "wire_lib \<Rightarrow> string \<Rightarrow> string list \<Rightarrow> vty list \<Rightarrow> string \<Rightarrow> (string \<times> vty) list \<Rightarrow> bool" where
  "compatible W ownType own tys n fs \<longleftrightarrow> fields_of W n = map fst fs
     \<and> (n = ownType \<longrightarrow> fs = zip own tys)
     \<and> (\<forall>x \<in> set fs. \<forall>j < length own. own ! j = fst x \<longrightarrow> tys ! j = snd x)"

lemma find_index_cases: "find_index m ms k = - 1 \<or> (\<exists>j < length ms. find_index m ms k = int (k + j) \<and> ms ! j = m)"
proof (induction ms arbitrary: k)
  case (Cons a ms)
  show ?case
  proof (cases "a = m")
    case False
    from Cons [of "Suc k"] show ?thesis
    proof
      assume "\<exists>j < length ms. find_index m ms (Suc k) = int (Suc k + j) \<and> ms ! j = m"
      then obtain j where "j < length ms" "find_index m ms (Suc k) = int (Suc k + j)" "ms ! j = m" by blast
      with False show ?thesis by (intro disjI2 exI [of _ "Suc j"]) simp
    qed (simp add: False)
  qed auto
qed simp

lemma compatible_index:
  assumes "compatible W ownType own tys n fs" and "length tys = length own" and "i < length fs"
  shows "own_index W ownType n own (int i) = - 1
    \<or> (\<exists>j < length tys. own_index W ownType n own (int i) = int j \<and> tys ! j = snd (fs ! i))"
proof (cases "n = ownType")
  case True
  with assms show ?thesis by (auto simp: compatible_def own_index_def)
next
  case False
  let ?f = "fst (fs ! i)"
  have idx: "own_index W ownType n own (int i) = find_index ?f own 0"
    using False assms(1,3) by (simp add: own_index_def compatible_def)
  from find_index_cases [of ?f own 0] show ?thesis
  proof
    assume "\<exists>j < length own. find_index ?f own 0 = int (0 + j) \<and> own ! j = ?f"
    then obtain j where j: "j < length own" "find_index ?f own 0 = int j" "own ! j = ?f" by auto
    moreover have "fs ! i \<in> set fs" using assms(3) by simp
    ultimately have "tys ! j = snd (fs ! i)" using assms(1) unfolding compatible_def by blast
    with j idx assms(2) show ?thesis by auto
  qed (simp add: idx)
qed

lemma struct_reads:
  assumes "compatible W ownType own tys n fs" and "length tys = length own" and "field_reader W tys rd"
    and "\<forall>x \<in> set xs. fst x < length fs \<and> has_type (valid_wire W) (snd (fs ! fst x)) (snd x)"
  shows "\<exists>y. reads (own_index W ownType n own) rd x (concat (map (\<lambda>x. TField (int (fst x)) # snd x) xs) @ TField (- 1) # TFinish # r) (Inr (y, r))"
  using assms(4)
proof (induction xs arbitrary: x)
  case Nil
  show ?case by (rule exI [of _ x]) (simp add: reads_end)
next
  case (Cons a xs)
  let ?own = "own_index W ownType n own" and ?rest = "concat (map (\<lambda>x. TField (int (fst x)) # snd x) xs) @ TField (- 1) # TFinish # r"
  from Cons.prems have a: "fst a < length fs" "has_type (valid_wire W) (snd (fs ! fst a)) (snd a)" by simp_all
  from compatible_index [OF assms(1,2) a(1)] show ?case
  proof
    assume u: "?own (int (fst a)) = - 1"
    from Cons obtain y where "reads ?own rd x ?rest (Inr (y, r))" by auto
    from reads_unknown [OF u _ has_type_skip [OF a(2)] this] show ?thesis by auto
  next
    assume "\<exists>j < length tys. ?own (int (fst a)) = int j \<and> tys ! j = snd (fs ! fst a)"
    then obtain j where j: "j < length tys" "?own (int (fst a)) = int j" "tys ! j = snd (fs ! fst a)" by blast
    with a(2) have "has_type (valid_wire W) (tys ! j) (snd a)" by simp
    then obtain x' where x': "rd (int j) x (snd a @ ?rest) = Inr (x', ?rest)"
      using field_readerD [OF assms(3) j(1)] by blast
    from Cons obtain y where "reads ?own rd x' ?rest (Inr (y, r))" by auto
    with reads_field [of True ?own "int (fst a)" rd x "snd a" ?rest x'] j(2) x' show ?thesis by auto
  qed
qed

lemma VDLRead_typed:
  assumes "compatible W messageType messageFields messageTys n fs" and "has_type (valid_wire W) (TyStruct n fs) ts"
  shows "\<exists>m. VDLRead W (ts @ r) = Inr (m, r)"
proof -
  obtain xs where xs: "ts = TStart n # concat (map (\<lambda>x. TField (int (fst x)) # snd x) xs) @ [TField (- 1), TFinish]"
    "\<forall>x \<in> set xs. fst x < length fs \<and> has_type (valid_wire W) (snd (fs ! fst x)) (snd x)"
    using assms(2) by (auto elim: struct_typeE)
  have "length messageTys = length messageFields" by (simp add: messageTys_def messageFields_def)
  from struct_reads [OF assms(1) this read_message_field_typed xs(2), of zero_message r] obtain y where
    "reads (own_index W messageType n messageFields) (read_message_field W) zero_message
       (concat (map (\<lambda>x. TField (int (fst x)) # snd x) xs) @ TField (- 1) # TFinish # r) (Inr (y, r))" by blast
  from reads_all [OF this] show ?thesis by (simp add: VDLRead_def StartValue_def xs(1) del: read_fields.simps)
qed

lemma PeerInfo_Read_typed:
  assumes "compatible W peerInfoType peerInfoFields peerInfoTys n fs" and "has_type (valid_wire W) (TyStruct n fs) ts"
  shows "\<exists>x. PeerInfo_Read W (ts @ r) = Inr (x, r)"
proof -
  obtain xs where xs: "ts = TStart n # concat (map (\<lambda>x. TField (int (fst x)) # snd x) xs) @ [TField (- 1), TFinish]"
    "\<forall>x \<in> set xs. fst x < length fs \<and> has_type (valid_wire W) (snd (fs ! fst x)) (snd x)"
    using assms(2) by (auto elim: struct_typeE)
  have "length peerInfoTys = length peerInfoFields" by (simp add: peerInfoTys_def peerInfoFields_def)
  from struct_reads [OF assms(1) this read_peerInfo_field_typed xs(2), of zero_PeerInfo r] obtain y where
    "reads (own_index W peerInfoType n peerInfoFields) (read_peerInfo_field W) zero_PeerInfo
       (concat (map (\<lambda>x. TField (int (fst x)) # snd x) xs) @ TField (- 1) # TFinish # r) (Inr (y, r))" by blast
  from reads_all [OF this] show ?thesis by (simp add: PeerInfo_Read_def StartValue_def xs(1) del: read_fields.simps)
qed

section \<open>Writing a value of a type\<close>

text \<open>The fields of a struct with the condition under which each is written.\<close>

lemma written_fields:
  "concat (map (\<lambda>(b, i, ts). field_toks b (int i) ts) ys) =
     concat (map (\<lambda>x. TField (int (fst x)) # snd x) (map snd (filter fst ys)))"
  by (induction ys) (auto simp: field_toks_def)

lemma fields_typed:
  assumes "map (fst \<circ> snd) ys = [0..<length fs]" and "\<forall>(b, i, ts) \<in> set ys. b \<longrightarrow> has_type valid (snd (fs ! i)) ts"
  shows "has_type valid (TyStruct n fs)
    (TStart n # concat (map (\<lambda>(b, i, ts). field_toks b (int i) ts) ys) @ [TField (- 1), TFinish])"
  unfolding written_fields
proof (rule struct)
  have "sorted_wrt (<) (map (fst \<circ> snd) ys)" unfolding assms(1) by (rule sorted_wrt_upt)
  then have "sorted_wrt (\<lambda>x y. (fst \<circ> snd) x < (fst \<circ> snd) y) (filter fst ys)" by (simp add: sorted_wrt_map sorted_wrt_filter)
  then show "sorted_wrt (<) (map fst (map snd (filter fst ys)))" by (simp add: sorted_wrt_map)
  have "fst (snd y) < length fs" if "y \<in> set ys" for y
  proof -
    have "(fst \<circ> snd) y \<in> set (map (fst \<circ> snd) ys)" using that by (simp add: image_iff) blast
    then show ?thesis unfolding assms(1) by simp
  qed
  then show "\<forall>x \<in> set (map snd (filter fst ys)). fst x < length fs \<and> has_type valid (snd (fs ! fst x)) (snd x)"
    using assms(2) by fastforce
qed

lemma list_toks_typed: "has_type valid (TyList TyString) (list_toks xs)"
proof -
  have "concat (map (\<lambda>s. [TString s]) xs) = map TString xs" by (induction xs) simp_all
  then show ?thesis
    using has_type.list [of "map (\<lambda>s. [TString s]) xs" valid TyString "''[]string''"] has_type.string
    by (auto simp: list_toks_def)
qed

lemma map_toks_typed:
  assumes "wire_ok W" and "\<forall>kd \<in> set m. converts (discharge_wire W (snd kd))"
  shows "has_type (valid_wire W) (TyMap TyString (TyOpaque ''WireDischarge'')) (map_toks W m)"
proof -
  have "has_type (valid_wire W) (TyOpaque ''WireDischarge'') [TOpaque (discharge_tok W (snd kd))]" if "kd \<in> set m" for kd
    using discharge_native_tok [OF assms(1)] assms(2) that
    by (intro has_type.opaque) (simp add: valid_wire_def converts_def)
  then show ?thesis
    using has_type.map [of "map (\<lambda>kd. ([TString (fst kd)], [TOpaque (discharge_tok W (snd kd))])) m" "valid_wire W" TyString
        "TyOpaque ''WireDischarge''" "''map[string]Discharge''"] has_type.string
    by (auto simp: map_toks_def comp_def)
qed

lemma wire_typed:
  assumes "wire_ok W" and "converts (blessings_wire W x) \<or> x = []"
  shows "x \<noteq> [] \<Longrightarrow> valid_wire W ''WireBlessings'' (wire_of (blessings_wire W x))"
    and "converts (time_wire W t) \<Longrightarrow> valid_wire W ''Time'' (wire_of (time_wire W t))"
    and "converts (duration_wire W d) \<Longrightarrow> valid_wire W ''Duration'' (wire_of (duration_wire W d))"
  using assms unfolding wire_ok_def by (auto simp: valid_wire_def converts_def wire_of_def)

lemma message_toks_typed:
  assumes "wire_ok W" and "encodable W m"
  shows "has_type (valid_wire W) messageTy (TStart messageType # message_toks W m @ [TField (- 1), TFinish])"
proof -
  let ?ys = "[(Hops m \<noteq> [], 0, list_toks (Hops m)),
     (SenderBlessings m \<noteq> [], 1, [TOpaque (wire_of (blessings_wire W (SenderBlessings m)))]),
     (SenderDischarges m \<noteq> [], 2, map_toks W (SenderDischarges m)),
     (Signature m \<noteq> [], 3, [TOpaque (Signature m)]),
     (Id m \<noteq> [], 4, [TString (Id m)]),
     (Recipient m \<noteq> [], 5, [TString (Recipient m)]),
     (\<not> IsZero (CreationTime m), 6, [TOpaque (wire_of (time_wire W (CreationTime m)))]),
     (Lifespan m \<noteq> 0, 7, [TOpaque (wire_of (duration_wire W (Lifespan m)))]),
     (Length m \<noteq> 0, 8, [TInt (Length m)]),
     (Sha256 m \<noteq> [], 9 :: nat, [TBytes (Sha256 m)])]"
  have e: "converts (blessings_wire W (SenderBlessings m)) \<or> SenderBlessings m = []"
    "\<forall>kd \<in> set (SenderDischarges m). converts (discharge_wire W (snd kd))"
    "\<not> IsZero (CreationTime m) \<Longrightarrow> converts (time_wire W (CreationTime m))"
    "Lifespan m \<noteq> 0 \<Longrightarrow> converts (duration_wire W (Lifespan m))" "fits_bits 64 (Length m)"
    using assms(2) by (auto simp: encodable_def)
  note w = wire_typed [OF assms(1) e(1)]
  have "has_type (valid_wire W) (TyStruct messageType (zip messageFields messageTys))
      (TStart messageType # concat (map (\<lambda>(b, i, ts). field_toks b (int i) ts) ?ys) @ [TField (- 1), TFinish])"
  proof (rule fields_typed)
    show "map (fst \<circ> snd) ?ys = [0..<length (zip messageFields messageTys)]"
      by (simp add: messageFields_def messageTys_def upt_rec)
    show "\<forall>(b, i, ts) \<in> set ?ys. b \<longrightarrow> has_type (valid_wire W) (snd (zip messageFields messageTys ! i)) ts"
      using list_toks_typed map_toks_typed [OF assms(1) e(2)] w(1,2,3) e(3-5)
      by (auto simp: messageFields_def messageTys_def valid_wire_def intro: has_type.intros)
  qed
  then show ?thesis by (simp add: messageTy_def message_toks_def)
qed

lemma peerInfo_toks_typed:
  assumes "wire_ok W" and "peerInfo_encodable W x"
  shows "has_type (valid_wire W) peerInfoTy (TStart peerInfoType # peerInfo_toks W x @ [TField (- 1), TFinish])"
proof -
  let ?ys = "[(Sent x, 0, [TBool (Sent x)]), (FatalError x, 1, [TBool (FatalError x)]),
     (\<not> IsZero (NextAttempt x), 2, [TOpaque (wire_of (time_wire W (NextAttempt x)))]),
     (NumAttempts x \<noteq> 0, 3 :: nat, [TInt (NumAttempts x)])]"
  have e: "\<not> IsZero (NextAttempt x) \<Longrightarrow> converts (time_wire W (NextAttempt x))" "fits_bits 32 (NumAttempts x)"
    using assms(2) by (auto simp: peerInfo_encodable_def)
  note w = wire_typed(2) [OF assms(1), of "[]"]
  have "has_type (valid_wire W) (TyStruct peerInfoType (zip peerInfoFields peerInfoTys))
      (TStart peerInfoType # concat (map (\<lambda>(b, i, ts). field_toks b (int i) ts) ?ys) @ [TField (- 1), TFinish])"
  proof (rule fields_typed)
    show "map (fst \<circ> snd) ?ys = [0..<length (zip peerInfoFields peerInfoTys)]"
      by (simp add: peerInfoFields_def peerInfoTys_def upt_rec)
    show "\<forall>(b, i, ts) \<in> set ?ys. b \<longrightarrow> has_type (valid_wire W) (snd (zip peerInfoFields peerInfoTys ! i)) ts"
      using w e by (auto simp: peerInfoFields_def peerInfoTys_def intro: has_type.intros)
  qed
  then show ?thesis by (simp add: peerInfoTy_def peerInfo_toks_def)
qed


text \<open>A message of a later version: another order, and a field that is not known here.\<close>

definition ex_fields :: "(string \<times> vty) list" where
  "ex_fields = [(''Id'', TyString), (''Tags'', TyList TyString), (''Length'', TyInt 64)]"

definition ex_wire2 :: wire_lib where
  "ex_wire2 = ex_wire\<lparr>fields_of := (\<lambda>n. if n = messageType then messageFields else map fst ex_fields)\<rparr>"

definition ex_toks :: "tok list" where
  "ex_toks = [TStart ''Message2'', TField 0, TString ''m1'', TField 1, TStart ''[]string'', TLenHint 1, TString ''x'', TEntryDone, TFinish,
     TField 2, TInt 7, TField (- 1), TFinish]"

lemma ex_toks_typed: "has_type valid (TyStruct ''Message2'' ex_fields) ex_toks"
proof -
  let ?xs = "[(0, [TString ''m1'']), (1, list_toks [''x'']), (2 :: nat, [TInt 7])]"
  have "has_type valid (TyStruct ''Message2'' ex_fields)
      (TStart ''Message2'' # concat (map (\<lambda>x. TField (int (fst x)) # snd x) ?xs) @ [TField (- 1), TFinish])"
    by (rule has_type.struct) (auto simp: ex_fields_def fits_bits_def list_toks_typed intro: has_type.intros)
  then show ?thesis by (simp add: ex_toks_def list_toks_def)
qed


end
