(* ===== verification/Verrors.thy ===== *)
theory Verrors
  imports Ifc
begin

text \<open>
  The error definitions of \<^verbatim>\<open>src/ifc/ifc.vdl.go\<close>, their constructors, and the package
  initialisation \<open>__VDLInit\<close> of \<^verbatim>\<open>src/ifc\<close> and \<^verbatim>\<open>src/internal\<close>.  The package \<^verbatim>\<open>verror\<close> is a
  parameter with its documented contract, a locale; under it the values of the type \<open>err\<close>
  that the rest of the development uses have the identifier and the retry action of the
  errors the generated constructors make.
\<close>

section \<open>The registered errors\<close>

record IDAction =
  ia_ID :: string
  ia_Action :: action
  ia_Format :: string

definition E_AlreadySeen :: IDAction where
  "E_AlreadySeen = \<lparr>ia_ID = ''messenger/ifc.AlreadySeen'', ia_Action = NoRetry, ia_Format = ''{1:}{2:} message id already seen: {3}''\<rparr>"
definition E_Busy :: IDAction where
  "E_Busy = \<lparr>ia_ID = ''messenger/ifc.Busy'', ia_Action = RetryBackoff, ia_Format = ''{1:}{2:} message is already opened''\<rparr>"
definition E_ContentMismatch :: IDAction where
  "E_ContentMismatch = \<lparr>ia_ID = ''messenger/ifc.ContentMismatch'', ia_Action = NoRetry,
     ia_Format = ''{1:}{2:} the sha256 hash doesn'' @ [CHR 0x27] @ ''t match the message content''\<rparr>"
definition E_Expired :: IDAction where
  "E_Expired = \<lparr>ia_ID = ''messenger/ifc.Expired'', ia_Action = NoRetry,
     ia_Format = ''{1:}{2:} message lifespan expired: {3} + {4} < {5}''\<rparr>"
definition E_IncorrectOffset :: IDAction where
  "E_IncorrectOffset = \<lparr>ia_ID = ''messenger/ifc.IncorrectOffset'', ia_Action = NoRetry,
     ia_Format = ''{1:}{2:} the specified file offset is incorrect ({3} != {4})''\<rparr>"
definition E_InvalidSignature :: IDAction where
  "E_InvalidSignature = \<lparr>ia_ID = ''messenger/ifc.InvalidSignature'', ia_Action = NoRetry,
     ia_Format = ''{1:}{2:} message signature is invalid''\<rparr>"
definition E_MessageIdCollision :: IDAction where
  "E_MessageIdCollision = \<lparr>ia_ID = ''messenger/ifc.MessageIdCollision'', ia_Action = NoRetry,
     ia_Format = ''{1:}{2:} message id already seen with different content: {3}''\<rparr>"
definition E_NoRoute :: IDAction where
  "E_NoRoute = \<lparr>ia_ID = ''messenger/ifc.NoRoute'', ia_Action = NoRetry, ia_Format = ''{1:}{2:} no route for recipient: {3}''\<rparr>"
definition E_RateLimitExceeded :: IDAction where
  "E_RateLimitExceeded = \<lparr>ia_ID = ''messenger/ifc.RateLimitExceeded'', ia_Action = RetryBackoff,
     ia_Format = ''{1:}{2:} request rate limit exceeded: {3} req/s''\<rparr>"
definition E_TooBig :: IDAction where
  "E_TooBig = \<lparr>ia_ID = ''messenger/ifc.TooBig'', ia_Action = NoRetry, ia_Format = ''{1:}{2:} message is too big, limit: {3}''\<rparr>"
definition E_TooManyHops :: IDAction where
  "E_TooManyHops = \<lparr>ia_ID = ''messenger/ifc.TooManyHops'', ia_Action = NoRetry, ia_Format = ''{1:}{2:} too many hops, limit: {3}''\<rparr>"

definition registered :: "IDAction list" where
  "registered = [E_AlreadySeen, E_Busy, E_ContentMismatch, E_Expired, E_IncorrectOffset, E_InvalidSignature,
     E_MessageIdCollision, E_NoRoute, E_RateLimitExceeded, E_TooBig, E_TooManyHops]"

lemmas error_defs = E_AlreadySeen_def E_Busy_def E_ContentMismatch_def E_Expired_def E_IncorrectOffset_def
  E_InvalidSignature_def E_MessageIdCollision_def E_NoRoute_def E_RateLimitExceeded_def E_TooBig_def E_TooManyHops_def

section \<open>The constructors\<close>

datatype verror_param = PString string | PTime time | PDuration duration | PInt64 int64 | PFloat32 rat | PInt32 int

definition NewErrAlreadySeen :: "(IDAction \<Rightarrow> verror_param list \<Rightarrow> 'e) \<Rightarrow> string \<Rightarrow> 'e" where
  "NewErrAlreadySeen New i = New E_AlreadySeen [PString i]"
definition NewErrBusy :: "(IDAction \<Rightarrow> verror_param list \<Rightarrow> 'e) \<Rightarrow> string \<Rightarrow> 'e" where
  "NewErrBusy New i = New E_Busy [PString i]"
definition NewErrContentMismatch :: "(IDAction \<Rightarrow> verror_param list \<Rightarrow> 'e) \<Rightarrow> 'e" where
  "NewErrContentMismatch New = New E_ContentMismatch []"
definition NewErrExpired :: "(IDAction \<Rightarrow> verror_param list \<Rightarrow> 'e) \<Rightarrow> time \<Rightarrow> duration \<Rightarrow> time \<Rightarrow> 'e" where
  "NewErrExpired New created lifespan t = New E_Expired [PTime created, PDuration lifespan, PTime t]"
definition NewErrIncorrectOffset :: "(IDAction \<Rightarrow> verror_param list \<Rightarrow> 'e) \<Rightarrow> int64 \<Rightarrow> int64 \<Rightarrow> 'e" where
  "NewErrIncorrectOffset New offset n = New E_IncorrectOffset [PInt64 offset, PInt64 n]"
definition NewErrInvalidSignature :: "(IDAction \<Rightarrow> verror_param list \<Rightarrow> 'e) \<Rightarrow> 'e" where
  "NewErrInvalidSignature New = New E_InvalidSignature []"
definition NewErrMessageIdCollision :: "(IDAction \<Rightarrow> verror_param list \<Rightarrow> 'e) \<Rightarrow> string \<Rightarrow> 'e" where
  "NewErrMessageIdCollision New i = New E_MessageIdCollision [PString i]"
definition NewErrNoRoute :: "(IDAction \<Rightarrow> verror_param list \<Rightarrow> 'e) \<Rightarrow> string \<Rightarrow> 'e" where
  "NewErrNoRoute New recipient = New E_NoRoute [PString recipient]"
definition NewErrRateLimitExceeded :: "(IDAction \<Rightarrow> verror_param list \<Rightarrow> 'e) \<Rightarrow> rat \<Rightarrow> 'e" where
  "NewErrRateLimitExceeded New limit = New E_RateLimitExceeded [PFloat32 limit]"
definition NewErrTooBig :: "(IDAction \<Rightarrow> verror_param list \<Rightarrow> 'e) \<Rightarrow> int64 \<Rightarrow> 'e" where
  "NewErrTooBig New limit = New E_TooBig [PInt64 limit]"
definition NewErrTooManyHops :: "(IDAction \<Rightarrow> verror_param list \<Rightarrow> 'e) \<Rightarrow> int \<Rightarrow> 'e" where
  "NewErrTooManyHops New limit = New E_TooManyHops [PInt32 limit]"

lemmas new_err_defs = NewErrAlreadySeen_def NewErrBusy_def NewErrContentMismatch_def NewErrExpired_def
  NewErrIncorrectOffset_def NewErrInvalidSignature_def NewErrMessageIdCollision_def NewErrNoRoute_def
  NewErrRateLimitExceeded_def NewErrTooBig_def NewErrTooManyHops_def

text \<open>The error of the package that a value of type \<open>err\<close> stands for.\<close>

fun made_by :: "(IDAction \<Rightarrow> verror_param list \<Rightarrow> 'e) \<Rightarrow> err \<Rightarrow> 'e option" where
  "made_by New (ErrAlreadySeen i) = Some (NewErrAlreadySeen New i)"
| "made_by New (ErrBusy i) = Some (NewErrBusy New i)"
| "made_by New ErrContentMismatch = Some (NewErrContentMismatch New)"
| "made_by New (ErrExpired c l t) = Some (NewErrExpired New c l t)"
| "made_by New (ErrIncorrectOffset a b) = Some (NewErrIncorrectOffset New a b)"
| "made_by New ErrInvalidSignature = Some (NewErrInvalidSignature New)"
| "made_by New (ErrMessageIdCollision i) = Some (NewErrMessageIdCollision New i)"
| "made_by New (ErrNoRoute r) = Some (NewErrNoRoute New r)"
| "made_by New (ErrRateLimitExceeded l) = Some (NewErrRateLimitExceeded New l)"
| "made_by New (ErrTooBig l) = Some (NewErrTooBig New l)"
| "made_by New (ErrTooManyHops l) = Some (NewErrTooManyHops New l)"
| "made_by New (ErrVerror _) = None"
| "made_by New (ErrOS _) = None"

section \<open>The contract of the package\<close>

text \<open>An error carries the identifier, the action and the parameters it was made with.\<close>

locale verror_package =
  fixes New :: "IDAction \<Rightarrow> verror_param list \<Rightarrow> 'e"
    and id_of :: "'e \<Rightarrow> string"
    and action_of :: "'e \<Rightarrow> action"
    and params_of :: "'e \<Rightarrow> verror_param list"
  assumes id_of_New: "id_of (New d ps) = ia_ID d"
    and action_of_New: "action_of (New d ps) = ia_Action d"
    and params_of_New: "params_of (New d ps) = ps"
begin

lemma made_by_faithful:
  "made_by New er = Some x \<Longrightarrow> ErrorID (Some er) = IdIfc (id_of x) \<and> Action va (Some er) = action_of x"
  by (cases er) (auto simp: new_err_defs id_of_New action_of_New error_defs)

lemma New_inject: "New d ps = New d' ps' \<Longrightarrow> ia_ID d = ia_ID d' \<and> ps = ps'"
  using id_of_New params_of_New by metis

lemma made_by_inject:
  assumes "made_by New er = Some x" and "made_by New er' = Some x" shows "er = er'"
proof -
  have "made_by New er = made_by New er'" and "made_by New er \<noteq> None" using assms by simp_all
  then show ?thesis
    by (cases er; cases er') (auto simp: new_err_defs error_defs dest!: New_inject)
qed

end

interpretation pairs: verror_package Pair "\<lambda>x. ia_ID (fst x)" "\<lambda>x. ia_Action (fst x)" snd
  by unfold_locales simp_all

lemma registered_distinct: "distinct (map ia_ID registered)"
  by (simp add: registered_def error_defs)

section \<open>Initialisation\<close>

text \<open>
  The variables of a package, and what the initialisation calls: registering a type, looking a
  type up by its name, and setting a message of the catalogue.
\<close>

record ('t, 'r, 'm) vdl_vars =
  initCalled :: bool
  vdl_types :: "'t list"
  registry :: 'r
  catalogue :: 'm

definition ifc_type_names :: "string list" where
  "ifc_type_names = [''Message'', ''[]string'', ''security.WireBlessings'', ''map[string]security.Discharge'',
     ''security.Signature'', ''vdltime.Time'', ''vdltime.Duration'', ''[]byte'', ''security.WireDischarge'']"

definition catalogue_entries :: "(string \<times> string) list" where
  "catalogue_entries = [
     (''messenger/ifc.AlreadySeen'', ''{1:}{2:} message id already seen: {3}''),
     (''messenger/ifc.Busy'', ''{1:}{2:} message is already opened''),
     (''messenger/ifc.ContentMismatch'', ''{1:}{2:} the sha256 hash doesn'' @ [CHR 0x27] @ ''t match the message content''),
     (''messenger/ifc.Expired'', ''{1:}{2:} message lifespan expired: {3} + {4} < {5}''),
     (''messenger/ifc.IncorrectOffset'', ''{1:}{2:} the specified file offset is incorrect ({3} != {4})''),
     (''messenger/ifc.InvalidSignature'', ''{1:}{2:} message signature is invalid''),
     (''messenger/ifc.MessageIdCollision'', ''{1:}{2:} message id already seen with different content: {3}''),
     (''messenger/ifc.NoRoute'', ''{1:}{2:} no route for recipient: {3}''),
     (''messenger/ifc.RateLimitExceeded'', ''{1:}{2:} request rate limit exceeded: {3} req/s''),
     (''messenger/ifc.TooBig'', ''{1:}{2:} message is too big, limit: {3}''),
     (''messenger/ifc.TooManyHops'', ''{1:}{2:} too many hops, limit: {3}'')]"

definition VDLInit :: "(string \<Rightarrow> 'r \<Rightarrow> 'r) \<Rightarrow> (string \<Rightarrow> 't) \<Rightarrow> (string \<Rightarrow> string \<Rightarrow> string \<Rightarrow> 'm \<Rightarrow> 'm) \<Rightarrow>
    ('t, 'r, 'm) vdl_vars \<Rightarrow> ('t, 'r, 'm) vdl_vars" where
  "VDLInit Register TypeOf SetWithBase s =
     (if initCalled s then s
      else s\<lparr>initCalled := True, registry := Register ''Message'' (registry s),
             vdl_types := map TypeOf ifc_type_names,
             catalogue := fold (\<lambda>(i, f). SetWithBase ''en'' i f) catalogue_entries (catalogue s)\<rparr>)"

definition internal_VDLInit :: "(string \<Rightarrow> 'r \<Rightarrow> 'r) \<Rightarrow> (string \<Rightarrow> 't) \<Rightarrow> ('t, 'r, 'm) vdl_vars \<Rightarrow> ('t, 'r, 'm) vdl_vars" where
  "internal_VDLInit Register TypeOf s =
     (if initCalled s then s
      else s\<lparr>initCalled := True, registry := Register ''PeerInfo'' (registry s),
             vdl_types := map TypeOf [''PeerInfo'', ''vdltime.Time'']\<rparr>)"

text \<open>
  Calling the initialisation again changes nothing, and the catalogue holds for each error
  the format the error was registered with.
\<close>

lemma VDLInit_again:
  "VDLInit R T S (VDLInit R T S s) = VDLInit R T S s" "internal_VDLInit R T (internal_VDLInit R T s) = internal_VDLInit R T s"
  by (simp_all add: VDLInit_def internal_VDLInit_def)

lemma catalogue_formats: "catalogue_entries = map (\<lambda>d. (ia_ID d, ia_Format d)) registered"
  by (simp add: catalogue_entries_def registered_def error_defs)

text \<open>
  Whatever the implementation of the error package, as long as an error keeps the
  identifier, the action and the parameters it was made with: an error of the model has the
  identifier and the retry action of the error its generated constructor makes, different
  errors are made differently, and the identifiers are pairwise distinct, so that a
  comparison of identifiers tells the kinds of errors apart.
\<close>

theorem errors_faithful:
  assumes "verror_package New id_of action_of params_of" and "made_by New er = Some x" and "made_by New er' = Some x'"
  shows "ErrorID (Some er) = IdIfc (id_of x) \<and> Action va (Some er) = action_of x \<and> (x = x') = (er = er')
    \<and> distinct (map ia_ID registered)"
  using verror_package.made_by_faithful [OF assms(1,2), of va] verror_package.made_by_inject [OF assms(1,2), of er']
    assms(2,3) registered_distinct by auto

theorem errors_faithful_witness:
  "ErrorID (Some (ErrBusy ''m1'')) = IdIfc (ia_ID E_Busy) \<and> Action (\<lambda>_. NoRetry) (Some (ErrBusy ''m1'')) = ia_Action E_Busy"
  using errors_faithful [OF pairs.verror_package_axioms, of "ErrBusy ''m1''" "(E_Busy, [PString ''m1''])" ErrContentMismatch
      "(E_ContentMismatch, [])" "\<lambda>_. NoRetry"]
  by (simp add: new_err_defs)

end
