(* ===== verification/ReaderSafety.thy ===== *)
theory ReaderSafety
  imports StorageManifest StorageFrame
begin

text \<open>
  Readers of the storage.  \<open>OpenRead\<close> takes no lock, so a reader stays open while other
  goroutines write, clean up and reopen messages.  The content file of a complete message is
  frozen: no later operation writes to its inode, whether or not its directory is still there,
  so that a reader gives the verified content for as long as it is used.
\<close>

section \<open>Frozen inodes\<close>

text \<open>An inode that only the content path of a complete message names, if a path names it at all.\<close>

definition frozen :: "nat \<Rightarrow> fs \<Rightarrow> bool" where
  "frozen i F \<longleftrightarrow> i < fs_next F \<and> (\<forall>d n. fs_find F d n = Some i \<longrightarrow>
     d \<noteq> '''' \<and> n = contentFileName \<and> fs_find F d doneFileName \<noteq> None)"

lemma frozenD:
  assumes "frozen i F"
  shows "i < fs_next F" and "fs_find F d n = Some i \<Longrightarrow>
    d \<noteq> '''' \<and> n = contentFileName \<and> fs_find F d doneFileName \<noteq> None"
  using assms unfolding frozen_def by blast+

definition freezes :: "nat \<Rightarrow> fs \<Rightarrow> fs \<Rightarrow> bool" where
  "freezes i F F' \<longleftrightarrow> (fs_wf F \<and> frozen i F \<longrightarrow> fs_wf F' \<and> frozen i F' \<and> fs_data F' i = fs_data F i)"

lemma freezes_refl [simp]: "freezes i F F"
  by (simp add: freezes_def)

lemma freezes_trans: "freezes i F G \<Longrightarrow> freezes i G H \<Longrightarrow> freezes i F H"
  by (simp add: freezes_def)

lemma frozen_create:
  assumes "fs_create e F d n = Inr (F', j)" and "fs_wf F" and "frozen i F"
  shows "frozen i F'" and "n \<noteq> contentFileName \<Longrightarrow> j \<noteq> i"
proof -
  note c = fs_create_wf [OF assms(1,2)]
  have lt: "i < fs_next F" using assms(3) by (simp add: frozen_def)
  have old: "j = i \<Longrightarrow> fs_find F d n = Some i"
    using assms(1) lt by (cases rule: fs_create_Inr) auto
  then show "n \<noteq> contentFileName \<Longrightarrow> j \<noteq> i" using assms(3) by (auto simp: frozen_def)
  have "d' \<noteq> '''' \<and> n' = contentFileName \<and> fs_find F' d' doneFileName \<noteq> None"
    if "fs_find F' d' n' = Some i" for d' n'
  proof -
    have "fs_find F d' n' = Some i" using that old by (auto simp: c(3) split: if_splits)
    with assms(3) show ?thesis by (auto simp: frozen_def c(3))
  qed
  with lt c(5) show "frozen i F'" by (auto simp: frozen_def)
qed

lemma freezes_create:
  assumes "fs_create e F d n = Inr (F', j)" shows "freezes i F F'"
  using fs_create_wf(1) [OF assms] fs_create_wf(7) [OF assms _ frozenD(1)] frozen_create(1) [OF assms]
  by (simp add: freezes_def)

lemma freezes_set: "j \<noteq> i \<Longrightarrow> freezes i F (fs_set j b F)"
  by (simp add: freezes_def frozen_def fs_simps)

lemma freezes_put:
  assumes "fs_create e F d n = Inr (F', j)" and "n \<noteq> contentFileName"
  shows "freezes i F (fs_set j b F')"
proof (cases "fs_wf F \<and> frozen i F")
  case True
  with frozen_create(2) [OF assms(1) _ _ assms(2)] have "freezes i F' (fs_set j b F')" by (intro freezes_set) blast
  then show ?thesis by (rule freezes_trans [OF freezes_create [OF assms(1)]])
qed (auto simp: freezes_def)

lemmas freezes_put_file =
  freezes_put [OF _ file_names(1)] freezes_put [OF _ file_names(6)] freezes_put [OF _ peerFile_neq(3)]

lemma freezes_mkdirall:
  assumes "fs_mkdirall e F d = Inr F'" shows "freezes i F F'"
  using fs_mkdirall_Inr [OF assms] by (simp add: freezes_def frozen_def fs_wf_def)

lemma freezes_removeall: "freezes i F (fs_removeall e F d)"
proof -
  have "fs_next (fs_removeall e F d) = fs_next F" "fs_data (fs_removeall e F d) = fs_data F"
    by (simp_all add: fs_removeall_def)
  then show ?thesis by (auto simp: freezes_def frozen_def fs_wf_def fs_removeall_find split: if_splits)
qed

section \<open>The operations leave frozen inodes alone\<close>

lemma storeMessage_freezes:
  assumes "storeMessage v e s m = (s', er)" shows "freezes i (st_fs s) (st_fs s')"
proof -
  have "freezes i (st_fs s) (st_fs s')" if "writeMessage v e s m = (s', er)"
    using that
    by (auto simp: writeMessage_def split: sum.splits if_splits intro: freezes_mkdirall)
      (erule (1) freezes_trans [OF freezes_mkdirall freezes_put_file(1)])+
  with assms show ?thesis by (auto simp: storeMessage_def split: sum.splits if_splits)
qed

lemma OpenWrite_freezes:
  assumes "OpenWrite v e s m off = (s', r)" shows "freezes i (st_fs s) (st_fs s')"
proof -
  obtain s2 er where s2: "storeMessage v e (s\<lparr>busy := insert (Id m) (busy s)\<rparr>) m = (s2, er)" by force
  from storeMessage_freezes [OF s2, of i] have "freezes i (st_fs s) (st_fs s2)" by simp
  with assms s2 show ?thesis
    by (auto simp: OpenWrite_def lock_def unlock_def Let_def split: if_splits sum.splits option.splits)
      (erule freezes_trans, erule freezes_create)+
qed

lemma Close_freezes:
  assumes "Close e s w = (s', er)" shows "freezes i (st_fs s) (st_fs s')"
proof -
  obtain s1 er1 where b: "closeBody e s w = (s1, er1)" by force
  then have "freezes i (st_fs s) (st_fs s1)"
    by (auto simp: closeBody_def writeDone_def Let_def freezes_removeall split: if_splits sum.splits)
      (erule freezes_put_file)+
  with assms b show ?thesis by (auto simp: Close_def unlock_def)
qed

lemma cleanup_freezes: "freezes i (st_fs s) (st_fs (cleanup v e s))"
proof -
  have "freezes i (st_fs t) (st_fs (cleanup_entry v e n t))" for n t
    by (auto simp: cleanup_entry_def freezes_removeall split: option.splits sum.splits)
  then have "freezes i (st_fs t) (st_fs (fold (cleanup_entry v e) ns t))" for ns t
    by (induction ns arbitrary: t) (auto intro: freezes_trans)
  then show ?thesis by (simp add: cleanup_def)
qed

section \<open>A reader in use\<close>

text \<open>The inode of a reader is frozen and no open writer has it.\<close>

definition reading :: "nat \<Rightarrow> storage \<times> writers \<Rightarrow> bool" where
  "reading i x \<longleftrightarrow> frozen i (st_fs (fst x)) \<and> (\<forall>mid w. snd x mid = Some w \<longrightarrow> w_f w \<noteq> i)"

lemma store_step_reading:
  assumes "codec_strict v" and "store_step v x y" and "store_inv v x" and "reading i x"
  shows "reading i y" and "fs_data (st_fs (fst y)) i = fs_data (st_fs (fst x)) i"
proof -
  have wf: "fs_wf (st_fs (fst x))" using assms(3) by (simp add: store_inv_def fs_inv_def)
  have inv: "store_inv v y" by (rule store_step_inv [OF assms(1-3)])
  have sl: "frozen i (st_fs (fst x))" using assms(4) by (simp add: reading_def)
  from assms(2) have "freezes i (st_fs (fst x)) (st_fs (fst y)) \<and> (\<forall>mid w. snd y mid = Some w \<longrightarrow>
      (frozen i (st_fs (fst y)) \<longrightarrow> w_f w \<noteq> i))"
  proof (cases rule: store_step.cases)
    case (open_write e s msg off s' w W)
    have at: "fs_find (st_fs s') (messageDir (Id msg)) contentFileName = Some (w_f w)"
      using OpenWrite_touches(2) [OF open_write(4)] wf open_write(1) by (simp add: writer_at_def)
    have "writer_ok v (st_fs s') (Id msg) w"
      using inv open_write(2) inv_writersD(1) [of v "st_fs s'" "W(Id msg \<mapsto> w)" "Id msg" w]
      by (simp add: store_inv_def fs_inv_def)
    from writer_okD(7) [OF this]
    have dn: "Id msg = '''' \<or> fs_find (st_fs s') (messageDir (Id msg)) doneFileName = None" by fast
    have "w_f w \<noteq> i" if "frozen i (st_fs s')"
    proof
      assume "w_f w = i"
      with frozenD(2) [OF that] at dn show False by (metis messageDir_Nil(1))
    qed
    then show ?thesis using OpenWrite_freezes [OF open_write(4)] open_write(1,2) assms(4) by (auto simp: reading_def)
  next
    case (write_content e W mid w s p s' w' er)
    then have "w_f w \<noteq> i" "w_f w' = w_f w" using assms(4) by (auto simp: reading_def Write_def Let_def)
    moreover from write_content this have "freezes i (st_fs s) (st_fs s')"
      by (auto simp: Write_def Let_def intro: freezes_set)
    ultimately show ?thesis using write_content(1,2) assms(4) by (auto simp: reading_def)
  next
    case (open_read e s mid s' r W)
    then have "freezes i (st_fs s) (st_fs s')"
      by (auto simp: OpenRead_def split: if_splits sum.splits) (erule freezes_create)
    with open_read(1,2) assms(4) show ?thesis by (auto simp: reading_def)
  next
    case (set_peer_info e s mid peer q s' er W)
    then have "freezes i (st_fs s) (st_fs s')"
      by (auto simp: SetPeerInfo_def split: if_splits sum.splits) (erule freezes_put_file)+
    with set_peer_info(1,2) assms(4) show ?thesis by (auto simp: reading_def)
  qed (use assms(4) in \<open>auto simp: reading_def split: if_splits dest: Offset_inv OpenWrite_freezes Close_freezes
        intro: cleanup_freezes\<close>)
  with wf sl show "reading i y" and "fs_data (st_fs (fst y)) i = fs_data (st_fs (fst x)) i"
    by (auto simp: reading_def freezes_def)
qed

lemma store_steps_reading:
  assumes "codec_strict v" and "(store_step v)\<^sup>*\<^sup>* x y" and "store_inv v x" and "reading i x"
  shows "store_inv v y \<and> reading i y \<and> fs_data (st_fs (fst y)) i = fs_data (st_fs (fst x)) i"
  using assms(2)
proof (induction rule: rtranclp_induct)
  case (step y z)
  then show ?case using store_step_inv [OF assms(1)] store_step_reading [OF assms(1)] by metis
qed (use assms(3,4) in simp)

lemma OpenRead_reading:
  assumes "store_inv v (s, W)" and "mid \<noteq> ''''" and "OpenRead v e s mid = (s', Inr (m, r))"
  shows "reading (r_f r) (s', W)"
proof -
  note c = OpenRead_complete [OF assms]
  then have f: "fs_find (st_fs s) (messageDir mid) contentFileName = Some (r_f r)"
    and dn: "fs_find (st_fs s) (messageDir mid) doneFileName \<noteq> None" and s': "s' = s" by blast+
  have wf: "fs_wf (st_fs s)" and wr: "inv_writers v (st_fs s) W"
    using assms(1) by (simp_all add: store_inv_def fs_inv_def)
  have "frozen (r_f r) (st_fs s)"
    using fs_wfD [OF wf f] dn assms(2) unfolding frozen_def by (metis messageDir_Nil(1))
  moreover have "w_f w \<noteq> r_f r" if "W k = Some w" for k w
  proof
    assume eq: "w_f w = r_f r"
    have ok: "writer_ok v (st_fs s) k w" by (rule inv_writersD [OF wr that])
    from writer_okD(5) [OF ok, of "messageDir mid" contentFileName] f eq have "k = mid" by simp
    with writer_okD(7) [OF ok] assms(2) dn show False by simp
  qed
  ultimately show ?thesis by (simp add: reading_def s')
qed



end
