(* ===== verification/Network.thy ===== *)
theory Network
  imports Peer
begin

text \<open>
  A network of nodes that relay messages.  The state has the service and the open writers of
  every node, and the messages the peers have read in order to push them.  A step is one
  operation of one node, at the granularity of the calls of the storage, so that everything
  interleaves: a peer reads a message of its node (\<open>OpenRead\<close> in \<open>pushMessage\<close>), the handler
  \<open>Push\<close> of another node starts with the message and the added hop (up to \<open>OpenWrite\<close>), any
  bytes whatever arrive and are written, a writer is closed, an application creates a message,
  the clean-up runs, a record of a peer is written, a node restarts, or something happens that
  leaves the storage alone.
\<close>

section \<open>The network\<close>

record net =
  node_of :: "string \<Rightarrow> Messenger"
  writing :: "string \<Rightarrow> writers"
  held :: "(string \<times> message) set"

definition set_node :: "string \<Rightarrow> Messenger \<Rightarrow> writers \<Rightarrow> net \<Rightarrow> net" where
  "set_node n M W S = S\<lparr>node_of := (node_of S)(n := M), writing := (writing S)(n := W)\<rparr>"

definition opened_by :: "message \<Rightarrow> err + fileWrapper \<Rightarrow> writers \<Rightarrow> writers" where
  "opened_by m r W = (case r of Inl _ \<Rightarrow> W | Inr w \<Rightarrow> W(Id m \<mapsto> w))"

inductive net_step :: "codec \<Rightarrow> (string \<times> string) set \<Rightarrow> net \<Rightarrow> net \<Rightarrow> bool" for v links where
  peer_reads: "reliable e \<Longrightarrow> OpenRead v e (store (node_of S a)) mid = (s, Inr (msg, r)) \<Longrightarrow>
    net_step v links S ((set_node a (set_store s (node_of S a)) (writing S a) S)\<lparr>held := insert (a, msg) (held S)\<rparr>)"
| push_starts: "(localId p, msg) \<in> held S \<Longrightarrow> (localId p, b) \<in> links \<Longrightarrow> reliable e \<Longrightarrow>
    push_start v L e (node_of S b) call (with_hop p msg) off = (M, r) \<Longrightarrow>
    net_step v links S (set_node b M (opened_by msg r (writing S b)) S)"
| bytes_arrive: "reliable e \<Longrightarrow> writing S b mid = Some w \<Longrightarrow> Write e (store (node_of S b)) w p = (s, w', er) \<Longrightarrow>
    net_step v links S (set_node b (set_store s (node_of S b)) ((writing S b)(mid \<mapsto> w')) S)"
| writer_closes: "writing S b mid = Some w \<Longrightarrow> Close e (store (node_of S b)) w = (s, er) \<Longrightarrow>
    net_step v links S (set_node b (set_store s (node_of S b)) ((writing S b)(mid := None)) S)"
| creates: "Hops msg = [] \<Longrightarrow> reliable e \<Longrightarrow> OpenWrite v e (store (node_of S a)) msg off = (s, r) \<Longrightarrow>
    net_step v links S (set_node a (set_store s (node_of S a)) (opened_by msg r (writing S a)) S)"
| cleans_up: "net_step v links S (set_node a (set_store (cleanup v e (store (node_of S a))) (node_of S a)) (writing S a) S)"
| records: "SetPeerInfo v e (store (node_of S a)) mid peer info = (s, er) \<Longrightarrow>
    net_step v links S (set_node a (set_store s (node_of S a)) (writing S a) S)"
| restarts: "net_step v links S (set_node a (set_store ((store (node_of S a))\<lparr>busy := {}\<rparr>) (node_of S a)) Map.empty S)"
| elsewhere: "store M = store (node_of S a) \<Longrightarrow> MaxHops (params M) = MaxHops (params (node_of S a)) \<Longrightarrow>
    net_step v links S (set_node a M (writing S a) S)"

text \<open>At first no node has a message.\<close>

definition net_start :: "net \<Rightarrow> bool" where
  "net_start S \<longleftrightarrow> (\<forall>n. store (node_of S n) = storage_init) \<and> writing S = (\<lambda>_. Map.empty) \<and> held S = {}"

section \<open>Where stored messages come from\<close>

definition no_new :: "codec \<Rightarrow> fs \<Rightarrow> fs \<Rightarrow> bool" where
  "no_new v F F' \<longleftrightarrow> (\<forall>mid m. stored v F' mid m \<longrightarrow> stored v F mid m)"

lemma no_new_refl [simp]: "no_new v F F"
  by (simp add: no_new_def)

lemma no_new_trans: "no_new v F G \<Longrightarrow> no_new v G H \<Longrightarrow> no_new v F H"
  by (simp add: no_new_def)

lemma no_new_put:
  assumes "fs_create e F d n = Inr (F', i)" and "fs_wf F" and "n \<noteq> messageFileName"
  shows "no_new v F (fs_set i b F')" and "no_new v F F'"
proof -
  show "no_new v F (fs_set i b F')" using assms(3) by (simp add: no_new_def stored_put [OF assms(1,2)])
  show "no_new v F F'" using assms(3) by (simp add: no_new_def stored_def fs_read_create [OF assms(1,2)])
qed

lemma no_new_removeall: "no_new v F (fs_removeall e F d)"
proof -
  have "fs_data (fs_removeall e F d) = fs_data F" by (simp add: fs_removeall_def)
  then have "fs_read (fs_removeall e F d) x n = (if gone e d x \<or> (x = '''' \<and> gone e d n) then None else fs_read F x n)" for x n
    by (simp add: fs_read_def fs_removeall_find)
  then show ?thesis by (auto simp: no_new_def stored_def split: if_splits)
qed

lemma cleanup_no_new: "no_new v (st_fs s) (st_fs (cleanup v e s))"
proof -
  have "no_new v (st_fs t) (st_fs (cleanup_entry v e n t))" for n t
    by (auto simp: cleanup_entry_def no_new_removeall split: option.splits sum.splits)
  then have "no_new v (st_fs t) (st_fs (fold (cleanup_entry v e) ns t))" for ns t
    by (induction ns arbitrary: t) (auto intro: no_new_trans)
  then show ?thesis by (simp add: cleanup_def)
qed

lemma Close_no_new:
  assumes "Close e s w = (s', er)" and "fs_wf (st_fs s)" shows "no_new v (st_fs s) (st_fs s')"
proof -
  obtain s1 er1 where b: "closeBody e s w = (s1, er1)" by force
  have "no_new v (st_fs s) (st_fs s1)"
  proof (cases "fs_create e (st_fs s) (messageDir (Id (w_msg w))) doneFileName")
    case (Inl x)
    then show ?thesis using b
      by (auto simp: closeBody_def writeDone_def Let_def no_new_removeall split: if_splits)
  next
    case (Inr q)
    obtain F i where "fs_create e (st_fs s) (messageDir (Id (w_msg w))) doneFileName = Inr (F, i)" using Inr by (cases q) auto
    with no_new_put(1) [OF this assms(2), of v] show ?thesis using b
      by (auto simp: closeBody_def writeDone_def Let_def no_new_removeall split: if_splits)
  qed
  with assms(1) b show ?thesis by (auto simp: Close_def unlock_def)
qed

lemma SetPeerInfo_no_new:
  assumes "SetPeerInfo v e s mid peer info = (s', er)" and "fs_wf (st_fs s)" shows "no_new v' (st_fs s) (st_fs s')"
proof (cases "fs_create e (st_fs s) (messageDir mid) (peerFile peer)")
  case (Inr q)
  obtain F i where "fs_create e (st_fs s) (messageDir mid) (peerFile peer) = Inr (F, i)" using Inr by (cases q) auto
  with no_new_put(1) [OF this assms(2), of v'] assms(1) show ?thesis by (auto simp: SetPeerInfo_def split: if_splits)
qed (use assms(1) in \<open>auto simp: SetPeerInfo_def\<close>)

lemma Write_no_new:
  assumes "Write e s w p = (s', w', er)" and "writer_ok v (st_fs s) mid w" shows "no_new v (st_fs s) (st_fs s')"
proof -
  have "fs_read (fs_set (w_f w) b (st_fs s)) d messageFileName = fs_read (st_fs s) d messageFileName" for b d
    using writer_okD(5) [OF assms(2), of d messageFileName]
    by (cases "fs_find (st_fs s) d messageFileName") (auto simp: fs_read_def fs_simps)
  then show ?thesis using assms(1) by (auto simp: Write_def Let_def no_new_def stored_def)
qed

text \<open>\<open>OpenWrite\<close> adds at most the message it was given.\<close>

lemma writeMessage_stored:
  assumes "codec_strict v" and "writeMessage v e s m = (t, er)" and "fs_wf (st_fs s)"
  shows "fs_wf (st_fs t) \<and> (stored v (st_fs t) k y \<longrightarrow> stored v (st_fs s) k y \<or> y = m)"
proof (cases "fs_mkdirall e (st_fs s) (messageDir (Id m))")
  case (Inl z)
  with assms(2,3) show ?thesis by (auto simp: writeMessage_def)
next
  case (Inr F)
  note mk = fs_mkdirall_Inr [OF Inr]
  have F: "fs_wf F" "stored v F = stored v (st_fs s)"
    using assms(3) mk by (auto simp: fs_wf_def stored_def fs_read_def fun_eq_iff)
  show ?thesis
  proof (cases "fs_create e F (messageDir (Id m)) messageFileName")
    case (Inl z)
    with assms(2) Inr F show ?thesis by (auto simp: writeMessage_def)
  next
    case c: (Inr q)
    obtain G i where c': "fs_create e F (messageDir (Id m)) messageFileName = Inr (G, i)" using c by (cases q) auto
    let ?j = "if fails e (SysWrite messageFileName) then short e else length (enc_msg v m)"
    have t: "t = s\<lparr>st_fs := fs_set i (take ?j (enc_msg v m)) G\<rparr>"
      using assms(2) Inr c' by (auto simp: writeMessage_def split: if_splits)
    have "dec_msg v (take ?j (enc_msg v m)) = Inr y \<Longrightarrow> y = m" by (rule codec_prefix [OF assms(1)])
    then show ?thesis unfolding t using fs_create_wf(1) [OF c' F(1)] F(2)
      by (simp add: fs_simps stored_put [OF c' F(1)] del: split_paired_All)
  qed
qed

lemma storeMessage_stored:
  assumes "codec_strict v" and "storeMessage v e s m = (t, er)" and "fs_wf (st_fs s)"
  shows "fs_wf (st_fs t) \<and> (stored v (st_fs t) k y \<longrightarrow> stored v (st_fs s) k y \<or> y = m)"
  using assms(2,3) writeMessage_stored [OF assms(1), of e s m t er k y]
  by (auto simp: storeMessage_def split: sum.splits if_splits)

lemma OpenWrite_stored:
  assumes "codec_strict v" and "OpenWrite v e s m off = (s', r)" and "fs_wf (st_fs s)" and "stored v (st_fs s') mid x"
  shows "stored v (st_fs s) mid x \<or> x = m"
proof -
  obtain s2 er where s2: "storeMessage v e (s\<lparr>busy := insert (Id m) (busy s)\<rparr>) m = (s2, er)" by force
  have s2': "fs_wf (st_fs s2) \<and> (stored v (st_fs s2) mid x \<longrightarrow> stored v (st_fs s) mid x \<or> x = m)"
    using storeMessage_stored [OF assms(1) s2, of mid x] assms(3) by simp
  have "st_fs s' = st_fs s \<or> st_fs s' = st_fs s2
      \<or> (\<exists>i. fs_create e (st_fs s2) (messageDir (Id m)) contentFileName = Inr (st_fs s', i))"
    using assms(2) s2
    by (auto simp: OpenWrite_def lock_def unlock_def Let_def split: if_splits sum.splits option.splits)
  then show ?thesis
  proof (elim disjE exE)
    fix i assume "fs_create e (st_fs s2) (messageDir (Id m)) contentFileName = Inr (st_fs s', i)"
    from no_new_put(2) [OF this _ file_names(2), of v] s2' assms(4) show ?thesis unfolding no_new_def by blast
  qed (use s2' assms(4) in auto)
qed

lemma OpenRead_no_new:
  assumes "OpenRead v e s mid = (s', Inr (m, r))" and "fs_wf (st_fs s)"
  shows "no_new v (st_fs s) (st_fs s')" and "stored v (st_fs s) mid m"
  using assms(1) no_new_put(2) [OF _ assms(2) file_names(2)]
  by (auto simp: OpenRead_def split: if_splits sum.splits dest: readMessage_stored)

lemma push_start_opens:
  assumes "push_start v L e m call msg off = (m', r)"
  shows "MaxHops (params m') = MaxHops (params m) \<and> ((store m' = store m \<and> (\<exists>er. r = Inl er))
    \<or> (OpenWrite v e (store m) msg off = (store m', r) \<and> (MaxHops (params m) > 0 \<longrightarrow> int (length (Hops msg)) \<le> MaxHops (params m))))"
  using assms
  by (auto simp: push_start_def Let_def split: prod.splits option.splits if_splits
      dest!: authorize_in_keeps authorize_sender_keeps)

section \<open>The invariant\<close>

text \<open>A list of nodes in which each has the next one as a peer.\<close>

fun walk :: "(string \<times> string) set \<Rightarrow> string list \<Rightarrow> bool" where
  "walk links (x # y # r) \<longleftrightarrow> (x, y) \<in> links \<and> walk links (y # r)"
| "walk links _ \<longleftrightarrow> True"

lemma walk_snoc: "walk links (xs @ [a]) \<Longrightarrow> (a, b) \<in> links \<Longrightarrow> walk links (xs @ [a, b])"
proof (induction xs)
  case (Cons x xs)
  then show ?case by (cases xs) auto
qed simp

definition in_limits :: "Messenger \<Rightarrow> message \<Rightarrow> bool" where
  "in_limits M m \<longleftrightarrow> (MaxHops (params M) > 0 \<longrightarrow> int (length (Hops m)) \<le> MaxHops (params M))"

definition fair :: "codec \<Rightarrow> (string \<times> string) set \<Rightarrow> string \<Rightarrow> Messenger \<Rightarrow> bool" where
  "fair v links n M \<longleftrightarrow> (\<forall>mid m. stored v (st_fs (store M)) mid m \<longrightarrow> walk links (Hops m @ [n]) \<and> in_limits M m)"

definition net_inv :: "codec \<Rightarrow> (string \<times> string) set \<Rightarrow> net \<Rightarrow> bool" where
  "net_inv v links S \<longleftrightarrow> (\<forall>n. store_inv v (store (node_of S n), writing S n) \<and> fair v links n (node_of S n))
     \<and> (\<forall>x \<in> held S. walk links (Hops (snd x) @ [fst x]))"

lemma net_invD:
  assumes "net_inv v links S"
  shows "store_inv v (store (node_of S n), writing S n)" and "fs_wf (st_fs (store (node_of S n)))"
    and "fair v links n (node_of S n)" and "(a, m) \<in> held S \<Longrightarrow> walk links (Hops m @ [a])"
  using assms by (auto simp: net_inv_def store_inv_def fs_inv_def)

lemma net_inv_set:
  assumes "net_inv v links S" and "store_inv v (store M, W)" and "fair v links n M"
  shows "net_inv v links (set_node n M W S)"
  using assms by (auto simp: net_inv_def set_node_def)

lemma fair_no_new:
  assumes "fair v links n M" and "no_new v (st_fs (store M)) (st_fs s)"
  shows "fair v links n (set_store s M)"
  using assms by (auto simp: fair_def no_new_def in_limits_def)

lemma fair_opened:
  assumes "codec_strict v" and "fair v links n M" and "OpenWrite v e (store M) m off = (store M', r)" and "fs_wf (st_fs (store M))"
    and "MaxHops (params M') = MaxHops (params M)" and "walk links (Hops m @ [n])" and "in_limits M m"
  shows "fair v links n M'"
  using OpenWrite_stored [OF assms(1,3,4)] assms(2,5-7) unfolding fair_def in_limits_def by metis

text \<open>Opening a message for writing, by a push or by an application.\<close>

lemma net_inv_open:
  assumes "codec_strict v" and "net_inv v links S" and "reliable e" and "OpenWrite v e (store (node_of S n)) m off = (store M, r)"
    and "MaxHops (params M) = MaxHops (params (node_of S n))" and "walk links (Hops m @ [n])" and "in_limits (node_of S n) m"
    and "Id m' = Id m"
  shows "net_inv v links (set_node n M (opened_by m' r (writing S n)) S)"
proof (rule net_inv_set [OF assms(2)])
  show "store_inv v (store M, opened_by m' r (writing S n))"
    using OpenWrite_inv [OF assms(1,3,4) net_invD(1) [OF assms(2)]] assms(8) by (simp add: opened_by_def cong: sum.case_cong)
  show "fair v links n M"
    by (rule fair_opened [OF assms(1) net_invD(3) [OF assms(2)] assms(4) net_invD(2) [OF assms(2)] assms(5-7)])
qed

lemma net_step_inv:
  assumes "codec_strict v" and "net_step v links S T" and "net_inv v links S"
  shows "net_inv v links T"
  using assms(2)
proof (cases rule: net_step.cases)
  case (peer_reads e a mid s msg r)
  note n = OpenRead_no_new [OF peer_reads(3) net_invD(2) [OF assms(3)]]
  have "walk links (Hops msg @ [a])" using n(2) net_invD(3) [OF assms(3)] unfolding fair_def by blast
  moreover have "net_inv v links (set_node a (set_store s (node_of S a)) (writing S a) S)"
    using OpenRead_inv [OF peer_reads(3) net_invD(1) [OF assms(3)]]
    by (intro net_inv_set [OF assms(3)] fair_no_new [OF net_invD(3) [OF assms(3)] n(1)]) simp
  ultimately show ?thesis using net_invD(4) [OF assms(3)] unfolding peer_reads(1) net_inv_def by (auto simp: set_node_def)
next
  case (push_starts p msg b e L call off M r)
  note k = push_start_opens [OF push_starts(5)]
  from k show ?thesis
  proof (elim conjE disjE)
    assume "store M = store (node_of S b)" "\<exists>er. r = Inl er" "MaxHops (params M) = MaxHops (params (node_of S b))"
    with net_invD(1,3) [OF assms(3), of b] show ?thesis unfolding push_starts(1)
      by (intro net_inv_set [OF assms(3)]) (auto simp: opened_by_def fair_def in_limits_def)
  next
    assume o: "OpenWrite v e (store (node_of S b)) (with_hop p msg) off = (store M, r)" "MaxHops (params M) = MaxHops (params (node_of S b))"
      "MaxHops (params (node_of S b)) > 0 \<longrightarrow> int (length (Hops (with_hop p msg))) \<le> MaxHops (params (node_of S b))"
    have "walk links (Hops (with_hop p msg) @ [b])"
      using walk_snoc [OF net_invD(4) [OF assms(3) push_starts(2)] push_starts(3)] by (simp add: with_hop_def)
    then show ?thesis unfolding push_starts(1)
      by (intro net_inv_open [OF assms(1,3) push_starts(4) o(1,2)]) (use o(3) in \<open>simp_all add: in_limits_def\<close>)
  qed
next
  case (bytes_arrive e b mid w p s w' er)
  have ok: "writer_ok v (st_fs (store (node_of S b))) mid w"
    using net_invD(1) [OF assms(3), of b] bytes_arrive(3) inv_writersD(1) by (auto simp: store_inv_def fs_inv_def)
  show ?thesis unfolding bytes_arrive(1)
    using Write_inv [OF bytes_arrive(2-4) net_invD(1) [OF assms(3)]]
    by (intro net_inv_set [OF assms(3)] fair_no_new [OF net_invD(3) [OF assms(3)] Write_no_new [OF bytes_arrive(4) ok]]) simp
next
  case (writer_closes b mid w e s er)
  show ?thesis unfolding writer_closes(1)
    using Close_inv [OF writer_closes(2,3) net_invD(1) [OF assms(3)]]
    by (intro net_inv_set [OF assms(3)] fair_no_new [OF net_invD(3) [OF assms(3)] Close_no_new [OF writer_closes(3) net_invD(2) [OF assms(3)]]]) simp
next
  case (creates msg e a off s r)
  show ?thesis unfolding creates(1)
    by (rule net_inv_open [OF assms(1,3) creates(3), of a msg off]) (use creates(2,4) in \<open>simp_all add: in_limits_def\<close>)
next
  case (cleans_up a e)
  show ?thesis unfolding cleans_up(1)
    using cleanup_inv [OF net_invD(1) [OF assms(3)]]
    by (intro net_inv_set [OF assms(3)] fair_no_new [OF net_invD(3) [OF assms(3)] cleanup_no_new]) simp
next
  case (records e a mid peer info s er)
  show ?thesis unfolding records(1)
    using SetPeerInfo_inv [OF records(2) net_invD(1) [OF assms(3)]]
    by (intro net_inv_set [OF assms(3)] fair_no_new [OF net_invD(3) [OF assms(3)] SetPeerInfo_no_new [OF records(2) net_invD(2) [OF assms(3)]]]) simp
next
  case (restarts a)
  have "store_inv v ((store (node_of S a))\<lparr>busy := {}\<rparr>, Map.empty)"
    using store_step_inv [OF assms(1) restart net_invD(1) [OF assms(3)]] .
  then show ?thesis unfolding restarts(1)
    by (intro net_inv_set [OF assms(3)] fair_no_new [OF net_invD(3) [OF assms(3)]]) simp_all
next
  case (elsewhere M a)
  show ?thesis unfolding elsewhere(1)
    using net_invD(1,3) [OF assms(3), of a] elsewhere(2,3)
    by (intro net_inv_set [OF assms(3)]) (auto simp: fair_def in_limits_def)
qed

lemma net_start_inv: "net_start S \<Longrightarrow> net_inv v links S"
  by (auto simp: net_start_def net_inv_def fair_def stored_def fs_read_def storage_init_def fs_simps
      store_inv_def fs_inv_def fs_wf_empty inv_msgs_def inv_done_def inv_writers_def)

lemma net_reachable_inv:
  assumes "codec_strict v" and "net_start S" and "(net_step v links)\<^sup>*\<^sup>* S T"
  shows "net_inv v links T"
  using assms(3) by (induction rule: rtranclp_induct) (use net_start_inv assms(2) net_step_inv [OF assms(1)] in blast)+

lemma net_MaxHops: "net_step v links S T \<Longrightarrow> MaxHops (params (node_of T n)) = MaxHops (params (node_of S n))"
  by (induction rule: net_step.induct) (auto simp: set_node_def dest!: push_start_opens)

text \<open>
  C8: in a network of nodes that relay messages to their peers, starting with empty stores,
  whatever the interleaving, and whatever bytes the network delivers: a message that a node
  hands out has verified content; its hops, followed by the node, are a path of peers from the
  node that created it; and when the node limits the hops, that path has at most so many links,
  so that a message never gets further from its origin than the limit of the node that has it.
\<close>

theorem network_relays:
  assumes "codec_strict v" and "net_start S" and "(net_step v links)\<^sup>*\<^sup>* S T" and "mid \<noteq> ''''"
    and "OpenRead v e (store (node_of T n)) mid = (s, Inr (m, r))"
  shows "Id m = mid \<and> verified m (read_rest s r) \<and> walk links (Hops m @ [n])
    \<and> (MaxHops (params (node_of T n)) > 0 \<longrightarrow> int (length (Hops m)) \<le> MaxHops (params (node_of T n)))"
proof -
  have inv: "net_inv v links T" by (rule net_reachable_inv [OF assms(1-3)])
  note c = OpenRead_complete [OF net_invD(1) [OF inv] assms(4,5)]
  with net_invD(3) [OF inv, of n] show ?thesis unfolding fair_def in_limits_def by blast
qed

section \<open>A whole call is a run\<close>

text \<open>
  The handler \<open>Push\<close>, called by a peer with a message it has read, is a sequence of such
  steps, whatever packets it receives, however the stream ends, and however it returns.
\<close>

lemma set_node_simps [simp]:
  "node_of (set_node n M W S) n = M" "writing (set_node n M W S) n = W" "held (set_node n M W S) = held S"
  "set_node n M W (set_node n M' W' S) = set_node n M W S"
  by (simp_all add: set_node_def)

lemma elsewhere_step:
  assumes "store M' = store M" and "MaxHops (params M') = MaxHops (params M)"
  shows "net_step v links (set_node b M W S) (set_node b M' W S)"
  using elsewhere [of M' "set_node b M W S" b v links] assms by simp

lemma Write_reliable: "reliable e \<Longrightarrow> Write e s w p = (s', w', er) \<Longrightarrow> er = None"
  by (auto simp: Write_def reliable_def Let_def)

lemma push_recv_run:
  assumes "\<forall>n. reliable (E n)" and "W mid = Some w" and "push_recv E n M w sz ps = (M', w', sz', er)"
  shows "er = None \<and> (net_step v links)\<^sup>*\<^sup>* (set_node b M W S) (set_node b M' (W(mid \<mapsto> w')) S)"
  using assms(2,3)
proof (induction ps arbitrary: n M w sz W)
  case Nil
  then show ?case by (simp add: fun_upd_idem)
next
  case (Cons p ps)
  obtain s w1 er1 where wr: "Write (E n) (store M) w p = (s, w1, er1)" by (metis prod_cases3)
  then have er1: "er1 = None" using Write_reliable assms(1) by blast
  let ?M = "(set_store s M)\<lparr>counters := (counters M)\<lparr>numBytesReceived := Incr (now (E n)) (int (length p)) (numBytesReceived (counters M))\<rparr>\<rparr>"
  have "net_step v links (set_node b M W S) (set_node b (set_store s M) (W(mid \<mapsto> w1)) S)"
    using bytes_arrive [of "E n" "set_node b M W S" b mid w p s w1 er1] assms(1) Cons.prems(1) wr by simp
  moreover have "net_step v links (set_node b (set_store s M) (W(mid \<mapsto> w1)) S) (set_node b ?M (W(mid \<mapsto> w1)) S)"
    by (rule elsewhere_step) simp_all
  moreover have pr: "push_recv E (Suc n) ?M w1 (sz + int (length p)) ps = (M', w', sz', er)"
    using Cons.prems(2) wr er1 by simp
  have "er = None \<and> (net_step v links)\<^sup>*\<^sup>* (set_node b ?M (W(mid \<mapsto> w1)) S) (set_node b M' (W(mid \<mapsto> w')) S)"
    using Cons.IH [of "W(mid \<mapsto> w1)", OF fun_upd_same pr] unfolding fun_upd_upd .
  ultimately show ?case by (meson converse_rtranclp_into_rtranclp)
qed

lemma push_end_run:
  assumes "W mid = Some w" and "push_end e M w msg sz serr = (M', er)"
  shows "(net_step v links)\<^sup>*\<^sup>* (set_node b M W S) (set_node b M' (W(mid := None)) S)"
proof -
  obtain s er1 where c: "Close e (store M) w = (s, er1)" by force
  have "net_step v links (set_node b M W S) (set_node b (set_store s M) (W(mid := None)) S)"
    using writer_closes [of "set_node b M W S" b mid w e s er1] assms(1) c by simp
  moreover have "store M' = s \<and> MaxHops (params M') = MaxHops (params M)"
    using assms(2) c by (auto simp: push_end_def close_quietly_def split: if_splits option.splits)
  then have "net_step v links (set_node b (set_store s M) (W(mid := None)) S) (set_node b M' (W(mid := None)) S)"
    by (intro elsewhere_step) simp_all
  ultimately show ?thesis by (meson converse_rtranclp_into_rtranclp r_into_rtranclp)
qed

lemma Push_is_run:
  assumes "(localId p, msg) \<in> held S" and "(localId p, b) \<in> links" and "reliable e" and "\<forall>n. reliable (E n)"
    and "Push v L e E e' (node_of S b) call (with_hop p msg) off ps serr = (M', er)"
  shows "\<exists>W. (net_step v links)\<^sup>*\<^sup>* S (set_node b M' W S)"
proof -
  obtain M r where ps: "push_start v L e (node_of S b) call (with_hop p msg) off = (M, r)" by force
  have s: "net_step v links S (set_node b M (opened_by msg r (writing S b)) S)" by (rule push_starts [OF assms(1-3) ps])
  show ?thesis
  proof (cases r)
    case (Inl er1)
    with assms(5) ps have "M' = M" by (simp add: Push_def)
    with s show ?thesis by blast
  next
    case (Inr w)
    let ?W = "(writing S b)(Id msg \<mapsto> w)"
    obtain M2 w2 sz er2 where rc: "push_recv E 0 M w 0 ps = (M2, w2, sz, er2)" by (metis prod_cases4)
    note rr = push_recv_run [OF assms(4) _ rc, of ?W "Id msg" v links b S]
    then have e: "push_end e' M2 w2 (with_hop p msg) sz serr = (M', er)"
      using assms(5) ps Inr rc by (simp add: Push_def)
    from push_end_run [OF _ e, of "?W(Id msg \<mapsto> w2)" "Id msg"] rr s Inr show ?thesis
      by (simp add: opened_by_def) (meson converse_rtranclp_into_rtranclp rtranclp_trans)
  qed
qed

section \<open>Two small nodes\<close>

definition ex_note :: message where
  "ex_note = ex_msg\<lparr>Hops := []\<rparr>"

definition ex_net :: net where
  "ex_net = \<lparr>node_of = (\<lambda>_. ex_node), writing = (\<lambda>_. Map.empty), held = {}\<rparr>"

text \<open>The bytes of a message arrive at a node that has opened it, and the writer is closed.\<close>

lemma net_fills:
  assumes "reliable e" and "Write e (store M) w b = (s, w', er)" and "Close e s w' = (s', er')"
  shows "(net_step v links)\<^sup>*\<^sup>* (set_node n M [mid \<mapsto> w] S) (set_node n (set_store s' M) Map.empty S)"
proof -
  let ?S = "set_node n M [mid \<mapsto> w] S"
  have "net_step v links ?S (set_node n (set_store s M) [mid \<mapsto> w'] S)"
    using bytes_arrive [of e ?S n mid w b s w' er] assms(1,2) by simp
  moreover have "net_step v links (set_node n (set_store s M) [mid \<mapsto> w'] S) (set_node n (set_store s' M) Map.empty S)"
    using writer_closes [of "set_node n (set_store s M) [mid \<mapsto> w'] S" n mid w' e s' er'] assms(3) by simp
  ultimately show ?thesis by (meson converse_rtranclp_into_rtranclp r_into_rtranclp)
qed

lemma ex_transfer:
  assumes "Id m = ''m1''" and "Length m = 2" and "Sha256 m = sha256 ''hi''"
  shows "\<exists>s1 w1 s2 w2 s. OpenWrite text_codec ex_env storage_init m 0 = (s1, Inr w1) \<and> Write ex_env s1 w1 ''hi'' = (s2, w2, None)
    \<and> Close ex_env s2 w2 = (s, None) \<and> fs_idle text_codec ex_env s ''m1'' \<and> fs_view text_codec s ''m1'' = Complete m ''hi''"
proof -
  have i: "fs_idle text_codec ex_env storage_init (Id m)" using ex_idle assms(1) by simp
  obtain s1 w1 s2 w2 s where t: "OpenWrite text_codec ex_env storage_init m 0 = (s1, Inr w1)"
    "write_all (Write ex_env) s1 w1 [''hi''] = (s2, w2, None)" "Close ex_env s2 w2 = (s, None)"
    "fs_idle text_codec ex_env s (Id m)" "fs_view text_codec s (Id m) = Complete m (concat [''hi''])"
    using complete_reachable [OF i init_idle(2) ex_env_simps(4) store_reachable.init, of "[''hi'']"] assms(2,3) by auto
  from t(2) have "Write ex_env s1 w1 ''hi'' = (s2, w2, None)" by (auto split: prod.splits option.splits)
  with t assms(1) show ?thesis by auto
qed

lemma ex_note_simps [simp]: "Id ex_note = ''m1''" "Length ex_note = 2" "Sha256 ex_note = sha256 ''hi''" "Hops ex_note = []"
  by (simp_all add: ex_note_def)

lemma ex_note_admitted: "admitted ex_lib ex_env ex_node ex_self (with_hop (ex_peer s) ex_note)"
proof -
  have "same_key ex_lib ex_self" by (simp add: same_key_def ex_lib_def ex_self_def)
  moreover have "sender_call ex_self (with_hop (ex_peer s) ex_note) = ex_self"
    by (simp add: sender_call_def ex_self_def ex_note_def ex_msg_def with_hop_def)
  moreover have "Validate (PublicKey ex_lib) (Verify ex_lib) 5 (with_hop (ex_peer s) ex_note) = None"
    by (simp add: Validate_def Expired_def ex_lib_def ex_note_def ex_msg_def with_hop_def)
  ultimately show ?thesis
    by (simp add: admitted_def Authorize_def ex_node_limits) (simp add: with_hop_def)
qed

theorem network_relays_witness:
  "\<exists>T s r. (net_step text_codec {(''n1'', ''n2'')})\<^sup>*\<^sup>* ex_net T
     \<and> OpenRead text_codec ex_env (store (node_of T ''n2'')) ''m1'' = (s, Inr (ex_note\<lparr>Hops := [''n1'']\<rparr>, r))
     \<and> verified (ex_note\<lparr>Hops := [''n1'']\<rparr>) (read_rest s r) \<and> walk {(''n1'', ''n2'')} [''n1'', ''n2'']"
proof -
  let ?R = "net_step text_codec {(''n1'', ''n2'')}" and ?p = "ex_peer storage_init"
  let ?m = "with_hop ?p ex_note"
  obtain a1 u1 a2 u2 a where A: "OpenWrite text_codec ex_env storage_init ex_note 0 = (a1, Inr u1)" "Write ex_env a1 u1 ''hi'' = (a2, u2, None)"
    "Close ex_env a2 u2 = (a, None)" "fs_idle text_codec ex_env a ''m1''" "fs_view text_codec a ''m1'' = Complete ex_note ''hi''"
    using ex_transfer [of ex_note] by auto
  obtain b1 w1 b2 w2 b where B: "OpenWrite text_codec ex_env storage_init ?m 0 = (b1, Inr w1)" "Write ex_env b1 w1 ''hi'' = (b2, w2, None)"
    "Close ex_env b2 w2 = (b, None)" "fs_idle text_codec ex_env b ''m1''" "fs_view text_codec b ''m1'' = Complete ?m ''hi''"
    using ex_transfer [of ?m] by auto
  let ?S1 = "set_node ''n1'' (set_store a1 ex_node) [''m1'' \<mapsto> u1] ex_net" and ?S2 = "set_node ''n1'' (set_store a ex_node) Map.empty ex_net"
  have st: "store ex_node = storage_init" by simp
  have s1: "?R ex_net ?S1"
    using creates [of ex_note ex_env text_codec ex_net "''n1''" 0 a1 "Inr u1"] A(1) by (simp add: ex_net_def opened_by_def)
  have s2: "?R\<^sup>*\<^sup>* ?S1 ?S2" using net_fills [of ex_env "set_store a1 ex_node" u1 "''hi''" a2 u2 None a None] A(2,3) by simp
  obtain t r where o: "OpenRead text_codec ex_env a ''m1'' = (t, Inr (ex_note, r))" using fs_read_back [OF A(4,5)] by auto
  let ?S3 = "(set_node ''n1'' (set_store t (set_store a ex_node)) Map.empty ?S2)\<lparr>held := {(''n1'', ex_note)}\<rparr>"
  have s3: "?R ?S2 ?S3"
    using peer_reads [of ex_env text_codec ?S2 "''n1''" "''m1''" t ex_note r] o by (simp add: set_node_def ex_net_def)
  obtain M where M: "push_start text_codec ex_lib ex_env ex_node ex_self ?m 0 = (M, Inr w1)" "store M = b1"
    using push_start_admitted [OF ex_note_admitted B(1) [folded st]] unfolding st by blast
  let ?S4 = "set_node ''n2'' M [''m1'' \<mapsto> w1] ?S3" and ?T = "set_node ''n2'' (set_store b M) Map.empty ?S3"
  have s4: "?R ?S3 ?S4"
    using push_starts [of ?p ex_note ?S3 "''n2''" _ ex_env text_codec ex_lib ex_self 0 M "Inr w1"] M(1)
    by (simp add: set_node_def ex_net_def ex_peer_def opened_by_def)
  have s5: "?R\<^sup>*\<^sup>* ?S4 ?T" using net_fills [of ex_env M w1 "''hi''" b2 w2 None b None] B(2,3) M(2) by simp
  have run: "?R\<^sup>*\<^sup>* ex_net ?T" using s1 s2 s3 s4 s5 by (meson r_into_rtranclp rtranclp_trans)
  have hop: "?m = ex_note\<lparr>Hops := [''n1'']\<rparr>" by (simp add: with_hop_def ex_peer_def)
  have T: "store (node_of ?T ''n2'') = b" by (simp add: set_node_def)
  obtain s r2 where o2: "OpenRead text_codec ex_env (store (node_of ?T ''n2'')) ''m1'' = (s, Inr (?m, r2))"
    using fs_read_back [OF B(4,5)] T by auto
  have "net_start ex_net" by (simp add: net_start_def ex_net_def)
  from network_relays [OF text_codec_strict this run _ o2] have "verified ?m (read_rest s r2) \<and> walk {(''n1'', ''n2'')} (Hops ?m @ [''n2''])" by simp
  with run o2 show ?thesis unfolding hop by auto
qed

end
