(* ===== verification/PubSub.thy ===== *)
theory PubSub
  imports Ifc
begin

text \<open>
  The publisher of new messages (\<^verbatim>\<open>src/internal/pubsub.go\<close>) as a transition system: calls of
  \<open>Pub\<close>, \<open>Sub\<close> and \<open>Unsub\<close>, the goroutine \<open>readLoop\<close>, subscribers that receive, and
  the cancellation of the context interleave in any order.  A send on a closed channel and
  a second close, which panic in Go, set the flag \<open>panicked\<close>.
\<close>

type_synonym chan = nat

text \<open>
  The program counter of \<open>readLoop\<close>: in the \<open>select\<close>, in the loop over the subscribers
  with the message and the channels still to serve (the mutex is held), or past the end.
\<close>

datatype rl_pc = RLSelect | RLSend message "chan list" | RLDone

text \<open>
  \<open>waiting\<close> are the messages of the publishers that are blocked on the unbuffered channel
  \<open>in\<close>; \<open>bufs\<close> are the buffers of the subscribers' channels.  \<open>taken\<close>, \<open>since\<close> and
  \<open>got\<close> record what \<open>readLoop\<close> took from \<open>in\<close>, how much of it was before the
  subscription of a channel, and what was received from a channel.
\<close>

record PubSub =
  waiting :: "message list"
  out :: "chan set"
  bufs :: "chan \<Rightarrow> message list"
  closed_chans :: "chan set"
  next_chan :: chan
  done_closed :: bool
  ctx_done :: bool
  panicked :: bool
  rl :: rl_pc
  taken :: "message list"
  since :: "chan \<Rightarrow> nat"
  got :: "chan \<Rightarrow> message list"

definition newPubSub :: PubSub where
  "newPubSub = \<lparr>waiting = [], out = {}, bufs = (\<lambda>_. []), closed_chans = {}, next_chan = 0, done_closed = False,
     ctx_done = False, panicked = False, rl = RLSelect, taken = [], since = (\<lambda>_. 0), got = (\<lambda>_. [])\<rparr>"

definition bufsize :: nat where
  "bufsize = 10"

definition mutex_free :: "PubSub \<Rightarrow> bool" where
  "mutex_free p \<longleftrightarrow> (case rl p of RLSend _ _ \<Rightarrow> False | _ \<Rightarrow> True)"

definition close_chan :: "chan \<Rightarrow> PubSub \<Rightarrow> PubSub" where
  "close_chan ch p = p\<lparr>closed_chans := insert ch (closed_chans p), panicked := panicked p \<or> ch \<in> closed_chans p\<rparr>"

definition Pub :: "message \<Rightarrow> PubSub \<Rightarrow> PubSub" where
  "Pub msg p = p\<lparr>waiting := waiting p @ [msg]\<rparr>"

definition Sub_chan :: "PubSub \<Rightarrow> PubSub \<times> chan" where
  "Sub_chan p = (let ch = next_chan p in
     (p\<lparr>out := insert ch (out p), bufs := (bufs p)(ch := []), next_chan := Suc ch,
        since := (since p)(ch := length (taken p)), got := (got p)(ch := [])\<rparr>, ch))"

definition Unsub :: "chan \<Rightarrow> PubSub \<Rightarrow> PubSub" where
  "Unsub ch p =
     (if ch \<in> out p then (close_chan ch p)\<lparr>out := out p - {ch}, bufs := (bufs p)(ch := [])\<rparr> else p)"

text \<open>\<open>readLoop\<close> takes a message and iterates over the map in an order \<open>chs\<close> of the runtime.\<close>

definition rl_take :: "nat \<Rightarrow> chan list \<Rightarrow> PubSub \<Rightarrow> PubSub" where
  "rl_take i chs p = p\<lparr>rl := RLSend (waiting p ! i) chs, taken := taken p @ [waiting p ! i],
     waiting := take i (waiting p) @ drop (Suc i) (waiting p)\<rparr>"

definition rl_send :: "message \<Rightarrow> chan \<Rightarrow> chan list \<Rightarrow> PubSub \<Rightarrow> PubSub" where
  "rl_send msg ch chs p = p\<lparr>rl := RLSend msg chs, bufs := (bufs p)(ch := bufs p ch @ [msg]),
     panicked := panicked p \<or> ch \<in> closed_chans p\<rparr>"

definition rl_shutdown :: "PubSub \<Rightarrow> PubSub" where
  "rl_shutdown p = p\<lparr>rl := RLDone, closed_chans := closed_chans p \<union> out p, out := {}, done_closed := True,
     panicked := panicked p \<or> out p \<inter> closed_chans p \<noteq> {} \<or> done_closed p\<rparr>"

inductive ps_step :: "PubSub \<Rightarrow> PubSub \<Rightarrow> bool" where
  pub: "ps_step p (Pub msg p)"
| pub_abort: "ctx_done p \<Longrightarrow> i < length (waiting p) \<Longrightarrow>
    ps_step p (p\<lparr>waiting := take i (waiting p) @ drop (Suc i) (waiting p)\<rparr>)"
| sub: "mutex_free p \<Longrightarrow> ps_step p (fst (Sub_chan p))"
| unsub: "mutex_free p \<Longrightarrow> ps_step p (Unsub ch p)"
| rl_recv: "rl p = RLSelect \<Longrightarrow> i < length (waiting p) \<Longrightarrow> set chs = out p \<Longrightarrow> distinct chs \<Longrightarrow>
    ps_step p (rl_take i chs p)"
| rl_put: "rl p = RLSend msg (ch # chs) \<Longrightarrow> length (bufs p ch) < bufsize \<Longrightarrow> ps_step p (rl_send msg ch chs p)"
| rl_skip: "rl p = RLSend msg (ch # chs) \<Longrightarrow> ctx_done p \<Longrightarrow> ps_step p (p\<lparr>rl := RLSend msg chs\<rparr>)"
| rl_unlock: "rl p = RLSend msg [] \<Longrightarrow> ps_step p (p\<lparr>rl := RLSelect\<rparr>)"
| rl_end: "rl p = RLSelect \<Longrightarrow> ctx_done p \<Longrightarrow> ps_step p (rl_shutdown p)"
| receive: "bufs p ch = msg # ms \<Longrightarrow>
    ps_step p (p\<lparr>bufs := (bufs p)(ch := ms), got := (got p)(ch := got p ch @ [msg])\<rparr>)"
| cancel: "ps_step p (p\<lparr>ctx_done := True\<rparr>)"

inductive ps_reachable :: "PubSub \<Rightarrow> bool" where
  ps_init: "ps_reachable newPubSub"
| ps_next: "ps_reachable p \<Longrightarrow> ps_step p p' \<Longrightarrow> ps_reachable p'"

section \<open>Channels\<close>

definition chan_inv :: "PubSub \<Rightarrow> bool" where
  "chan_inv p \<longleftrightarrow> \<not> panicked p \<and> out p \<inter> closed_chans p = {} \<and> (\<forall>ch \<in> out p \<union> closed_chans p. ch < next_chan p)
     \<and> (done_closed p \<longleftrightarrow> rl p = RLDone) \<and> finite (out p)
     \<and> (\<forall>msg chs. rl p = RLSend msg chs \<longrightarrow> set chs \<subseteq> out p \<and> distinct chs)
     \<and> (\<forall>ch. length (bufs p ch) \<le> bufsize) \<and> (\<forall>ch. next_chan p \<le> ch \<longrightarrow> bufs p ch = [])"

lemmas ps_defs = Pub_def Sub_chan_def Unsub_def rl_take_def rl_send_def rl_shutdown_def close_chan_def Let_def

lemma ps_step_chan_inv: "ps_step p p' \<Longrightarrow> chan_inv p \<Longrightarrow> chan_inv p'"
proof (induction rule: ps_step.induct)
  case (sub p)
  then show ?case by (auto simp: chan_inv_def ps_defs mutex_free_def less_Suc_eq split: rl_pc.splits)
next
  case (unsub p ch)
  then show ?case by (auto simp: chan_inv_def ps_defs mutex_free_def split: rl_pc.splits)
next
  case (rl_put p msg ch chs)
  then have "ch \<in> out p" and "\<forall>ch \<in> out p. ch < next_chan p" by (auto simp: chan_inv_def)
  then have "\<not> next_chan p \<le> ch" by auto
  with rl_put show ?case by (auto simp: chan_inv_def ps_defs)
next
  case (receive p ch msg ms)
  then have "length (msg # ms) \<le> bufsize" "ch < next_chan p" unfolding chan_inv_def by (metis, metis linorder_not_less list.distinct(1))
  with receive show ?case by (auto simp: chan_inv_def)
qed (auto simp: chan_inv_def ps_defs)

section \<open>Delivery\<close>

definition pending :: "PubSub \<Rightarrow> chan \<Rightarrow> message list" where
  "pending p ch = (case rl p of RLSend msg chs \<Rightarrow> if ch \<in> set chs then [msg] else [] | _ \<Rightarrow> [])"

definition delivery_inv :: "PubSub \<Rightarrow> bool" where
  "delivery_inv p \<longleftrightarrow> ctx_done p \<or> (\<forall>ch \<in> out p. since p ch \<le> length (taken p)
     \<and> got p ch @ bufs p ch @ pending p ch = drop (since p ch) (taken p))"

lemma ps_step_delivery: "ps_step p p' \<Longrightarrow> chan_inv p \<Longrightarrow> delivery_inv p \<Longrightarrow> delivery_inv p'"
proof (induction rule: ps_step.induct)
  case (sub p)
  then show ?case by (auto simp: delivery_inv_def ps_defs pending_def mutex_free_def split: rl_pc.splits)
next
  case (rl_recv p i chs)
  then show ?case by (auto simp: delivery_inv_def ps_defs pending_def)
next
  case (rl_put p msg ch chs)
  then have "ch \<notin> set chs" by (auto simp: chan_inv_def)
  with rl_put show ?case by (fastforce simp: delivery_inv_def ps_defs pending_def)
next
  case (receive p ch msg ms)
  then show ?case by (fastforce simp: delivery_inv_def pending_def)
qed (auto simp: delivery_inv_def ps_defs pending_def)

lemma ps_reachable_inv: "ps_reachable p \<Longrightarrow> chan_inv p \<and> delivery_inv p"
proof (induction rule: ps_reachable.induct)
  case ps_init
  show ?case by (simp add: newPubSub_def chan_inv_def delivery_inv_def)
next
  case (ps_next p p')
  then show ?case by (blast intro: ps_step_chan_inv ps_step_delivery)
qed

text \<open>
  C23: whatever the interleaving, the \<open>PubSub\<close> never sends on a closed channel, never
  closes a channel twice, and no subscriber buffers more than ten messages.
\<close>

theorem PubSub_no_panic:
  assumes "ps_reachable p"
  shows "\<not> panicked p \<and> out p \<inter> closed_chans p = {} \<and> (\<forall>ch. length (bufs p ch) \<le> 10)"
  using ps_reachable_inv [OF assms] by (auto simp: chan_inv_def bufsize_def)

definition ex_ps :: PubSub where
  "ex_ps = Unsub 0 (fst (Sub_chan newPubSub))"

lemma ex_ps_reachable: "ps_reachable ex_ps"
proof -
  have "ps_step newPubSub (fst (Sub_chan newPubSub))" by (rule sub) (simp add: mutex_free_def newPubSub_def)
  moreover have "ps_step (fst (Sub_chan newPubSub)) ex_ps" unfolding ex_ps_def
    by (rule unsub) (simp add: mutex_free_def newPubSub_def ps_defs)
  ultimately show ?thesis by (blast intro: ps_init ps_next)
qed

theorem PubSub_no_panic_witness: "closed_chans ex_ps = {0} \<and> out ex_ps = {} \<and> \<not> panicked ex_ps"
  using PubSub_no_panic [OF ex_ps_reachable] by (simp add: ex_ps_def ps_defs newPubSub_def)

text \<open>
  C24: while the context lives, a subscriber receives, without loss, duplication or
  reordering, the messages that \<open>readLoop\<close> took since the subscription: what it got and
  what is buffered for it are all of them, except the one that is being distributed.
\<close>

theorem PubSub_delivers:
  assumes "ps_reachable p" and "\<not> ctx_done p" and "ch \<in> out p"
  shows "got p ch @ bufs p ch @ pending p ch = drop (since p ch) (taken p)
    \<and> (mutex_free p \<longrightarrow> got p ch @ bufs p ch = drop (since p ch) (taken p))"
proof -
  have "got p ch @ bufs p ch @ pending p ch = drop (since p ch) (taken p)"
    using ps_reachable_inv [OF assms(1)] assms(2,3) by (auto simp: delivery_inv_def)
  moreover have "pending p ch = []" if "mutex_free p"
    using that by (auto simp: pending_def mutex_free_def split: rl_pc.splits)
  ultimately show ?thesis by auto
qed

text \<open>Publishing a message to the only subscriber.\<close>

lemma publish_one:
  assumes "ps_reachable p" and "rl p = RLSelect" and "waiting p = []" and "out p = {ch}"
    and "length (bufs p ch) < bufsize" and "\<not> ctx_done p"
  shows "\<exists>p'. ps_reachable p' \<and> rl p' = RLSelect \<and> waiting p' = [] \<and> out p' = {ch} \<and> \<not> ctx_done p'
    \<and> bufs p' ch = bufs p ch @ [msg]"
proof -
  let ?p1 = "Pub msg p" and ?p2 = "rl_take 0 [ch] (Pub msg p)"
  let ?p3 = "rl_send msg ch [] ?p2"
  have "ps_step p ?p1" by (rule pub)
  moreover have "ps_step ?p1 ?p2" by (rule rl_recv) (use assms in \<open>auto simp: ps_defs\<close>)
  moreover have "ps_step ?p2 ?p3" by (rule rl_put) (use assms in \<open>auto simp: ps_defs\<close>)
  moreover have "ps_step ?p3 (?p3\<lparr>rl := RLSelect\<rparr>)" by (rule rl_unlock) (use assms in \<open>auto simp: ps_defs\<close>)
  ultimately have "ps_reachable (?p3\<lparr>rl := RLSelect\<rparr>)" using assms(1) by (blast intro: ps_next)
  then show ?thesis by (intro exI conjI) (assumption, use assms in \<open>auto simp: ps_defs\<close>)
qed

lemma fill_buffer:
  assumes "n \<le> bufsize"
  shows "\<exists>p. ps_reachable p \<and> rl p = RLSelect \<and> waiting p = [] \<and> out p = {0} \<and> \<not> ctx_done p
    \<and> bufs p 0 = replicate n msg"
  using assms
proof (induction n)
  case 0
  let ?p = "fst (Sub_chan newPubSub)"
  have "ps_step newPubSub ?p" by (rule sub) (simp add: mutex_free_def newPubSub_def)
  then have "ps_reachable ?p" by (blast intro: ps_init ps_next)
  then show ?case by (intro exI conjI) (assumption, auto simp: ps_defs newPubSub_def)
next
  case (Suc n)
  then obtain p where p: "ps_reachable p" "rl p = RLSelect" "waiting p = []" "out p = {0}" "\<not> ctx_done p"
    "bufs p 0 = replicate n msg" by auto
  have "length (bufs p 0) < bufsize" using Suc.prems p(6) by simp
  from publish_one [OF p(1-4) this p(5), of msg] p(6) show ?case by (simp add: replicate_append_same)
qed

theorem PubSub_delivers_witness:
  "\<exists>p. ps_reachable p \<and> bufs p 0 = replicate 3 zero_message
     \<and> got p 0 @ replicate 3 zero_message = drop (since p 0) (taken p)"
proof -
  obtain p where p: "ps_reachable p" "rl p = RLSelect" "out p = {0}" "\<not> ctx_done p" "bufs p 0 = replicate 3 zero_message"
    using fill_buffer [of 3 zero_message] by (auto simp: bufsize_def)
  have "mutex_free p" using p(2) by (simp add: mutex_free_def)
  with PubSub_delivers [OF p(1,4), of 0] p show ?thesis by auto
qed

section \<open>A full subscriber\<close>

text \<open>The steps in which the context stays alive and the subscriber of \<open>ch\<close> does not receive.\<close>

definition without :: "chan \<Rightarrow> PubSub \<Rightarrow> PubSub \<Rightarrow> bool" where
  "without ch p p' \<longleftrightarrow> ps_step p p' \<and> got p' ch = got p ch \<and> \<not> ctx_done p'"

definition stuck :: "chan \<Rightarrow> message \<Rightarrow> PubSub \<Rightarrow> bool" where
  "stuck ch msg p \<longleftrightarrow> (\<exists>m chs. rl p = RLSend m (ch # chs)) \<and> length (bufs p ch) = bufsize \<and> \<not> ctx_done p
     \<and> msg \<in> set (waiting p)"

lemma stuck_step:
  assumes "stuck ch msg p" and "without ch p p'"
  shows "stuck ch msg p'"
proof -
  from assms have "ps_step p p'" "got p' ch = got p ch" "\<not> ctx_done p'" by (simp_all add: without_def)
  then show ?thesis using assms(1)
    by (cases rule: ps_step.cases) (auto simp: stuck_def ps_defs mutex_free_def split: if_splits)
qed

lemma stuck_forever: "(without ch)\<^sup>*\<^sup>* p p' \<Longrightarrow> stuck ch msg p \<Longrightarrow> stuck ch msg p'"
  by (induction rule: rtranclp_induct) (auto intro: stuck_step)

text \<open>
  A subscriber with a full buffer blocks everybody: the system reaches a state from
  which, as long as that subscriber does not receive, no publisher that waits ever returns
  and neither \<open>Sub\<close> nor \<open>Unsub\<close> gets the mutex.  A goroutine that subscribes and also
  publishes, while it waits in \<open>Pub\<close>, is such a subscriber.
\<close>

theorem PubSub_full_subscriber_blocks:
  "\<exists>p. ps_reachable p \<and> {p'. (without 0)\<^sup>*\<^sup>* p p'} \<subseteq> {p'. zero_message \<in> set (waiting p') \<and> \<not> mutex_free p'}"
proof -
  obtain p where p: "ps_reachable p" "rl p = RLSelect" "waiting p = []" "out p = {0}" "\<not> ctx_done p"
    "bufs p 0 = replicate bufsize zero_message" using fill_buffer [of bufsize zero_message] by auto
  let ?p1 = "Pub zero_message p" and ?p2 = "rl_take 0 [0] (Pub zero_message p)"
  have "ps_step p ?p1" by (rule pub)
  moreover have "ps_step ?p1 ?p2" by (rule rl_recv) (use p in \<open>auto simp: ps_defs\<close>)
  moreover have "ps_step ?p2 (Pub zero_message ?p2)" by (rule pub)
  ultimately have r: "ps_reachable (Pub zero_message ?p2)" using p(1) by (blast intro: ps_next)
  have "stuck 0 zero_message (Pub zero_message ?p2)" using p by (auto simp: stuck_def ps_defs)
  then have "stuck 0 zero_message p'" if "(without 0)\<^sup>*\<^sup>* (Pub zero_message ?p2) p'" for p'
    using stuck_forever [OF that] by blast
  then have "{p'. (without 0)\<^sup>*\<^sup>* (Pub zero_message ?p2) p'}
      \<subseteq> {p'. zero_message \<in> set (waiting p') \<and> \<not> mutex_free p'}"
    by (fastforce simp: stuck_def mutex_free_def)
  with r show ?thesis by blast
qed

end
