(* ===== verification/Ring.thy ===== *)
theory Ring
  imports Prelude "HOL-Library.Char_ord" "HOL-Library.List_Lexorder"
begin

text \<open>
  The choice of the peers a node talks to (\<open>checkActivePeers\<close> of
  \<^verbatim>\<open>src/internal/peers.go\<close>): the peers sorted by identifier form a ring, and the node
  selects those at distances that are powers of two to its right, skipping peers that are
  selected already or that have produced many errors.
\<close>

section \<open>The selection\<close>

text \<open>The position of the node among the sorted identifiers, compared byte by byte.\<close>

definition ring_offset :: "string \<Rightarrow> string list \<Rightarrow> nat" where
  "ring_offset me sortedPeers = length (takeWhile (\<lambda>x. \<not> me < x) sortedPeers)"

text \<open>The loop over \<open>j\<close>, at most \<open>numPeers\<close> times, and the loop while \<open>active[idx]\<close>.\<close>

fun skip_taken :: "nat \<Rightarrow> bool list \<Rightarrow> bool list \<Rightarrow> nat \<Rightarrow> nat" where
  "skip_taken 0 active bad idx = idx"
| "skip_taken (Suc j) active bad idx =
     (if \<not> active ! idx \<and> \<not> bad ! idx then idx
      else skip_taken j active bad ((idx + 1) mod length active))"

partial_function (option) skip_active :: "bool list \<Rightarrow> nat \<Rightarrow> nat option" where
  "skip_active active idx =
     (if active ! idx then skip_active active ((idx + 1) mod length active) else Some idx)"

definition start_idx :: "nat \<Rightarrow> nat \<Rightarrow> nat \<Rightarrow> nat" where
  "start_idx n offset i = (offset + (2 ^ (i mod 32) - 1)) mod n"

definition pick :: "bool list \<Rightarrow> bool list \<Rightarrow> nat \<Rightarrow> nat \<Rightarrow> nat option" where
  "pick active bad offset i =
     skip_active active (skip_taken (length active) active bad (start_idx (length active) offset i))"

text \<open>The rounds \<open>i, i + 1, \<dots>\<close> of the outer loop; \<open>k\<close> of them are left.\<close>

fun select_loop :: "nat \<Rightarrow> bool list \<Rightarrow> nat \<Rightarrow> nat \<Rightarrow> bool list \<Rightarrow> bool list option" where
  "select_loop 0 bad offset i active = Some active"
| "select_loop (Suc k) bad offset i active =
     (case pick active bad offset i of
        None \<Rightarrow> None
      | Some idx \<Rightarrow> select_loop k bad offset (Suc i) (active[idx := True]))"

definition select_active :: "bool list \<Rightarrow> nat \<Rightarrow> nat \<Rightarrow> bool list option" where
  "select_active bad offset maxActive =
     select_loop (min (length bad) maxActive) bad offset 0 (replicate (length bad) False)"

section \<open>The inner loops\<close>

lemma ring_next: "idx < n \<Longrightarrow> Suc idx mod n < n" for idx n :: nat
  by (rule mod_less_divisor) simp

lemma ring_reach:
  fixes idx n t :: nat
  assumes "idx < n" and "t < n"
  shows "\<exists>d < n. (idx + d) mod n = t"
proof (cases "idx \<le> t")
  case True
  then show ?thesis using assms by (intro exI [of _ "t - idx"]) auto
next
  case False
  have "(idx + (n - idx + t)) mod n = t" using assms by (simp add: mod_less)
  then show ?thesis using False assms by (intro exI [of _ "n - idx + t"]) auto
qed

lemma skip_taken_bound: "idx < length active \<Longrightarrow> skip_taken j active bad idx < length active"
  by (induction j arbitrary: idx) (auto simp: ring_next)

lemma skip_taken_finds:
  assumes "d < j" and "idx < length active"
    and "\<not> active ! ((idx + d) mod length active) \<and> \<not> bad ! ((idx + d) mod length active)"
  shows "\<not> active ! skip_taken j active bad idx \<and> \<not> bad ! skip_taken j active bad idx"
  using assms
proof (induction j arbitrary: idx d)
  case (Suc j)
  show ?case
  proof (cases "\<not> active ! idx \<and> \<not> bad ! idx")
    case False
    then obtain d' where d: "d = Suc d'" using Suc.prems(2,3) by (cases d) auto
    let ?i = "Suc idx mod length active"
    have "(?i + d') mod length active = (idx + d) mod length active" by (simp add: d mod_add_left_eq)
    then have "\<not> active ! skip_taken j active bad ?i \<and> \<not> bad ! skip_taken j active bad ?i"
      using Suc.IH [of d' ?i] Suc.prems d ring_next by auto
    with False show ?thesis by simp
  qed auto
qed simp

lemma skip_active_returns:
  assumes "idx < length active" and "\<not> active ! ((idx + d) mod length active)"
  shows "\<exists>r. skip_active active idx = Some r \<and> r < length active \<and> \<not> active ! r"
  using assms
proof (induction d arbitrary: idx)
  case 0
  then show ?case by (subst skip_active.simps) simp
next
  case (Suc d)
  let ?i = "(idx + 1) mod length active"
  have "?i < length active" using Suc.prems(1) by (intro mod_less_divisor) auto
  moreover have "(?i + d) mod length active = (idx + Suc d) mod length active" by (simp add: mod_add_left_eq)
  ultimately obtain r where r: "skip_active active ?i = Some r" "r < length active" "\<not> active ! r"
    using Suc.IH [of ?i] Suc.prems(2) by auto
  then show ?case using Suc.prems(1) by (subst skip_active.simps) auto
qed

lemma skip_active_free: "\<not> active ! idx \<Longrightarrow> skip_active active idx = Some idx"
  by (subst skip_active.simps) simp

text \<open>One round finds a free position, and a good one as long as there is one.\<close>

lemma pick_spec:
  assumes "t < length active" and "\<not> active ! t"
  shows "\<exists>r. pick active bad offset i = Some r \<and> r < length active \<and> \<not> active ! r
    \<and> ((\<exists>g < length active. \<not> active ! g \<and> \<not> bad ! g) \<longrightarrow> \<not> bad ! r)"
proof -
  let ?n = "length active" and ?s = "start_idx (length active) offset i"
  let ?k = "skip_taken ?n active bad ?s"
  have s: "?s < ?n" using assms(1) unfolding start_idx_def by (intro mod_less_divisor) auto
  have k: "?k < ?n" by (rule skip_taken_bound [OF s])
  obtain d where "(?k + d) mod ?n = t" using ring_reach [OF k assms(1)] by blast
  then obtain r where r: "skip_active active ?k = Some r" "r < ?n" "\<not> active ! r"
    using skip_active_returns [OF k, of d] assms(2) by auto
  have "\<not> bad ! r" if g: "g < ?n" "\<not> active ! g" "\<not> bad ! g" for g
  proof -
    obtain d where d: "d < ?n" "(?s + d) mod ?n = g" using ring_reach [OF s g(1)] by blast
    have "\<not> active ! ?k \<and> \<not> bad ! ?k" by (rule skip_taken_finds [OF d(1) s]) (use d(2) g in auto)
    with r(1) show ?thesis using skip_active_free [of active ?k] by auto
  qed
  with r show ?thesis unfolding pick_def by blast
qed

section \<open>The selection as a whole\<close>

definition num_active :: "bool list \<Rightarrow> nat" where
  "num_active active = length (filter (\<lambda>b. b) active)"

lemma num_active_update: "i < length a \<Longrightarrow> \<not> a ! i \<Longrightarrow> num_active (a[i := True]) = Suc (num_active a)"
proof (induction a arbitrary: i)
  case (Cons x a)
  then show ?case by (cases i) (auto simp: num_active_def)
qed simp

lemma num_active_free: "num_active a < length a \<Longrightarrow> \<exists>t < length a. \<not> a ! t"
proof (rule ccontr)
  assume lt: "num_active a < length a" and "\<not> (\<exists>t < length a. \<not> a ! t)"
  then have "\<forall>x \<in> set a. x" by (auto simp: in_set_conv_nth)
  then have "filter (\<lambda>b. b) a = a" by (simp add: filter_id_conv)
  with lt show False by (simp add: num_active_def)
qed

definition good_first :: "bool list \<Rightarrow> bool list \<Rightarrow> bool" where
  "good_first bad active \<longleftrightarrow> (\<exists>i < length active. active ! i \<and> bad ! i) \<longrightarrow> (\<forall>j < length active. \<not> bad ! j \<longrightarrow> active ! j)"

lemma select_loop_spec:
  assumes "num_active active + k \<le> length active" and "good_first bad active"
  shows "\<exists>a. select_loop k bad offset i active = Some a \<and> length a = length active
    \<and> num_active a = num_active active + k \<and> good_first bad a"
  using assms
proof (induction k arbitrary: i active)
  case (Suc k)
  obtain t where t: "t < length active" "\<not> active ! t" using num_active_free [of active] Suc.prems(1) by auto
  obtain r where r: "pick active bad offset i = Some r" "r < length active" "\<not> active ! r"
    "(\<exists>g < length active. \<not> active ! g \<and> \<not> bad ! g) \<longrightarrow> \<not> bad ! r" using pick_spec [OF t] by blast
  let ?a = "active[r := True]"
  have "good_first bad ?a"
    using Suc.prems(2) r(2-4) unfolding good_first_def by (auto simp: nth_list_update)
  moreover have "num_active ?a = Suc (num_active active)" using num_active_update r(2,3) by blast
  ultimately show ?case using Suc.IH [of ?a "Suc i"] Suc.prems(1) r(1) by auto
qed simp

lemma select_active_total:
  "\<exists>active. select_active bad offset maxActive = Some active \<and> length active = length bad
     \<and> num_active active = min (length bad) maxActive
     \<and> ((\<exists>i < length bad. active ! i \<and> bad ! i) \<longrightarrow> (\<forall>j < length bad. \<not> bad ! j \<longrightarrow> active ! j))"
proof -
  have "num_active (replicate (length bad) False) = 0" by (simp add: num_active_def)
  moreover have "good_first bad (replicate (length bad) False)" by (auto simp: good_first_def)
  ultimately show ?thesis
    using select_loop_spec [of "replicate (length bad) False" "min (length bad) maxActive" bad offset 0]
    unfolding select_active_def good_first_def by auto
qed

text \<open>
  C25: the selection always ends, selects exactly \<open>min(numPeers, MaxActivePeers)\<close> peers,
  and selects a peer with many errors only when every peer without is selected.
\<close>

theorem select_active_spec:
  "\<exists>active. select_active bad offset maxActive = Some active \<and> length active = length bad
     \<and> num_active active = min (length bad) maxActive
     \<and> ((\<exists>i < length bad. active ! i \<and> bad ! i) \<longrightarrow> (\<forall>j < length bad. \<not> bad ! j \<longrightarrow> active ! j))"
  by (rule select_active_total)

theorem select_active_spec_witness:
  "\<exists>active. select_active [True, False, True] 1 2 = Some active \<and> num_active active = 2"
  using select_active_spec [of "[True, False, True]" 1 2] by auto

section \<open>Powers of two\<close>

lemma mod_cancel:
  fixes a x y n :: nat
  assumes "(a + x) mod n = (a + y) mod n"
  shows "x mod n = y mod n"
proof -
  have "int (a + x) mod int n = int (a + y) mod int n" using assms by (metis of_nat_mod)
  then have "(int (a + x) - int a) mod int n = (int (a + y) - int a) mod int n" by (rule mod_diff_cong) simp
  then have "int (x mod n) = int (y mod n)" by (simp add: of_nat_mod)
  then show ?thesis by simp
qed

lemma start_idx_inject:
  assumes "i < k" and "j < k" and "2 ^ (k - 1) \<le> n" and "k \<le> 32" and "start_idx n offset i = start_idx n offset j"
  shows "i = j"
proof -
  have bound: "2 ^ l - 1 < n" if "l < k" for l
  proof -
    have "(2 :: nat) ^ l \<le> 2 ^ (k - 1)" using that by (intro power_increasing) auto
    with assms(3) show ?thesis using zero_less_power [of "2 :: nat" l] by linarith
  qed
  have "i mod 32 = i" "j mod 32 = j" using assms(1,2,4) by auto
  with assms(5) have "(offset + (2 ^ i - 1)) mod n = (offset + (2 ^ j - 1)) mod n" by (simp add: start_idx_def)
  then have "(2 ^ i - 1) mod n = (2 ^ j - 1) mod n" by (rule mod_cancel)
  with bound [OF assms(1)] bound [OF assms(2)] have "2 ^ i - 1 = (2 ^ j - 1 :: nat)" by simp
  then have "(2 :: nat) ^ i = 2 ^ j" by (metis Suc_pred' zero_less_numeral zero_less_power)
  then show ?thesis by simp
qed

lemma pick_start:
  assumes "start_idx (length active) offset i < length active" and "\<not> active ! start_idx (length active) offset i"
    and "\<forall>b \<in> set bad. \<not> b" and "length bad = length active"
  shows "pick active bad offset i = Some (start_idx (length active) offset i)"
proof -
  let ?s = "start_idx (length active) offset i"
  obtain m where m: "length active = Suc m" using assms(1) by (cases "length active") auto
  have "bad ! ?s \<in> set bad" by (rule nth_mem) (simp only: assms(1,4))
  with assms(3) have "\<not> bad ! ?s" by blast
  then have "skip_taken (length active) active bad ?s = ?s" using assms(2) by (subst m) simp
  then show ?thesis using skip_active_free [OF assms(2)] by (simp add: pick_def)
qed

lemma select_loop_ring:
  assumes "\<forall>b \<in> set bad. \<not> b" and "length bad = n" and "length active = n" and "i + k \<le> 32" and "2 ^ (i + k - 1) \<le> n" and "0 < n"
    and "\<forall>t < n. active ! t \<longleftrightarrow> t \<in> start_idx n offset ` {..<i}"
  shows "\<exists>a. select_loop k bad offset i active = Some a \<and> length a = n
    \<and> (\<forall>t < n. a ! t \<longleftrightarrow> t \<in> start_idx n offset ` {..<i + k})"
  using assms(3-7)
proof (induction k arbitrary: i active)
  case (Suc k)
  let ?s = "start_idx n offset i"
  have s: "?s < n" using assms(6) by (simp add: start_idx_def)
  have "?s \<noteq> start_idx n offset j" if "j < i" for j
    using start_idx_inject [of i "i + Suc k" j n offset] Suc.prems(2,3) that by auto
  then have "\<not> active ! ?s" using Suc.prems(5) s by auto
  then have p: "pick active bad offset i = Some ?s"
    using pick_start [of active offset i bad] assms(1,2) Suc.prems(1) s by simp
  have "\<exists>a. select_loop k bad offset (Suc i) (active[?s := True]) = Some a \<and> length a = n
      \<and> (\<forall>t < n. a ! t \<longleftrightarrow> t \<in> start_idx n offset ` {..<Suc i + k})"
    by (rule Suc.IH) (use Suc.prems s in \<open>auto simp: nth_list_update lessThan_Suc\<close>)
  then show ?case using p by simp
qed auto

text \<open>
  C26: when no peer is bad and the ring is large enough, the node talks to exactly the
  neighbours at the distances \<open>1, 2, 4, ..., 2\<^sup>k\<^sup>-\<^sup>1\<close> to its right, as the
  comment on \<open>checkActivePeers\<close> says.
\<close>

theorem select_active_powers_of_two:
  assumes "\<forall>b \<in> set bad. \<not> b" and "k \<le> 32" and "2 ^ (k - 1) \<le> length bad" and "0 < k"
  shows "\<exists>active. select_active bad offset k = Some active
    \<and> (\<forall>t < length bad. active ! t \<longleftrightarrow> (\<exists>i < k. t = (offset + 2 ^ i - 1) mod length bad))"
proof -
  let ?n = "length bad"
  have n: "0 < ?n" using assms(3) zero_less_power [of "2 :: nat" "k - 1"] by linarith
  have "k \<le> 2 ^ (k - 1)" using assms(4) less_exp [of "k - 1"] by linarith
  then have min: "min ?n k = k" using assms(3) by simp
  obtain a where a: "select_loop k bad offset 0 (replicate ?n False) = Some a"
    "\<forall>t < ?n. a ! t \<longleftrightarrow> t \<in> start_idx ?n offset ` {..<k}"
    using select_loop_ring [OF assms(1) refl, of "replicate ?n False" 0 k offset] assms(2,3) n by auto
  have "start_idx ?n offset i = (offset + 2 ^ i - 1) mod ?n" if "i < k" for i
    using that assms(2) by (simp add: start_idx_def)
  then have "\<forall>t < ?n. a ! t \<longleftrightarrow> (\<exists>i < k. t = (offset + 2 ^ i - 1) mod ?n)"
    unfolding a(2) [rule_format] using a(2) by (auto simp: image_iff)
  with a(1) min show ?thesis by (auto simp: select_active_def)
qed

theorem select_active_powers_of_two_witness:
  "\<exists>active. select_active (replicate 12 False) 2 4 = Some active
     \<and> {t. t < 12 \<and> active ! t} = {2, 3, 5, 9}"
proof -
  obtain active where a: "select_active (replicate 12 False) 2 4 = Some active"
    "\<forall>t < 12. active ! t \<longleftrightarrow> (\<exists>i < 4. t = (2 + 2 ^ i - 1) mod 12)"
    using select_active_powers_of_two [of "replicate 12 False" 4 2] by auto
  have ex: "(\<exists>i < 4. P i) \<longleftrightarrow> P 0 \<or> P 1 \<or> P 2 \<or> P 3" for P :: "nat \<Rightarrow> bool"
    by (auto simp: numeral_eq_Suc less_Suc_eq)
  have "(\<exists>i < 4. t = (2 + 2 ^ i - 1) mod 12) \<longleftrightarrow> t \<in> {2, 3, 5, 9}" for t :: nat
    unfolding ex by simp
  with a(2) have "{t. t < 12 \<and> active ! t} = {2, 3, 5, 9}" by fastforce
  with a(1) show ?thesis by blast
qed

end
