(* ===== verification/PeerManager.thy ===== *)
theory PeerManager
  imports Peer PubSub Ring GoStrings
begin

text \<open>
  The manager of the peers (first half of \<^verbatim>\<open>src/internal/peers.go\<close>): discovery updates,
  the periodic choice of the peers to talk to, and the start and stop of their goroutines.

  The map \<open>peers\<close> holds pointers, and a peer that is deleted from the map may still run, so
  the objects are in a list \<open>objs\<close> that is indexed by the addresses in the map.  The order
  of the association list is the order of the next iteration over the map; the rule
  \<open>reorder\<close> of the step relation lets the runtime choose another one at any time.
\<close>

section \<open>The state\<close>

text \<open>
  The fields \<open>ctx\<close>, \<open>cancel\<close>, \<open>psChan\<close>, \<open>queue\<close> and \<open>done\<close> are set and cleared
  together: \<open>running\<close> holds the channel and the queue.
\<close>

record pm_peer =
  pm_peerId :: string
  pm_localId :: string
  errors :: counter
  me :: "string list option"
  running :: "(chan \<times> MsgQueue) option"

record peerManager =
  pm_id :: string
  pm_params :: Params
  objs :: "pm_peer list"
  peers :: "(string \<times> nat) list"
  ps :: PubSub
  pm_counters :: Counters
  pm_done :: bool

definition startPeerManager :: "string \<Rightarrow> PubSub \<Rightarrow> Params \<Rightarrow> Counters \<Rightarrow> peerManager" where
  "startPeerManager i p prms cs =
     \<lparr>pm_id = i, pm_params = prms, objs = [], peers = [], ps = p, pm_counters = cs, pm_done = False\<rparr>"

definition upd_obj :: "nat \<Rightarrow> (pm_peer \<Rightarrow> pm_peer) \<Rightarrow> peerManager \<Rightarrow> peerManager" where
  "upd_obj a f pm = pm\<lparr>objs := (objs pm)[a := f (objs pm ! a)]\<rparr>"

definition incr_peers :: "time \<Rightarrow> int \<Rightarrow> peerManager \<Rightarrow> peerManager" where
  "incr_peers t n pm = pm\<lparr>pm_counters := (pm_counters pm)\<lparr>numPeers := Incr t n (numPeers (pm_counters pm))\<rparr>\<rparr>"

section \<open>Starting and stopping a peer\<close>

definition startPeer :: "time \<Rightarrow> nat \<Rightarrow> peerManager \<Rightarrow> peerManager" where
  "startPeer t a pm =
     (case running (objs pm ! a) of
        Some _ \<Rightarrow> pm
      | None \<Rightarrow> let (p, ch) = Sub_chan (ps pm)
                in upd_obj a (\<lambda>x. x\<lparr>running := Some (ch, newMsgQueue t)\<rparr>) (pm\<lparr>ps := p\<rparr>))"

definition stopPeer :: "nat \<Rightarrow> peerManager \<Rightarrow> peerManager" where
  "stopPeer a pm =
     (case running (objs pm ! a) of
        None \<Rightarrow> pm
      | Some (ch, q) \<Rightarrow> upd_obj a (\<lambda>x. x\<lparr>running := None\<rparr>) (pm\<lparr>ps := Unsub ch (ps pm)\<rparr>))"

text \<open>
  \<open>removePeer\<close>: the loop visits the entries of the map in the order of the list, except
  those that were deleted before they were reached.
\<close>

fun remove_loop :: "time \<Rightarrow> string \<Rightarrow> (string \<times> nat) list \<Rightarrow> peerManager \<Rightarrow> peerManager" where
  "remove_loop t i [] pm = pm"
| "remove_loop t i ((k, a) # rest) pm =
     (if map_of (peers pm) k = None then remove_loop t i rest pm
      else remove_loop t i rest (incr_peers t (-1) (stopPeer a (pm\<lparr>peers := AList.delete i (peers pm)\<rparr>))))"

definition removePeer :: "time \<Rightarrow> string \<Rightarrow> peerManager \<Rightarrow> peerManager" where
  "removePeer t i pm = remove_loop t i (peers pm) pm"

section \<open>Discovery updates\<close>

record update =
  up_id :: string
  IsLost :: bool
  Addresses :: "string list"

text \<open>A new object at the next free address.\<close>

definition new_peer :: "time \<Rightarrow> string \<Rightarrow> peerManager \<Rightarrow> peerManager \<times> nat" where
  "new_peer t i pm =
     (let a = length (objs pm)
      in (incr_peers t 1 (pm\<lparr>objs := objs pm @ [\<lparr>pm_peerId = i, pm_localId = pm_id pm, errors = counter_new, me = None,
            running = None\<rparr>], peers := AList.update i a (peers pm)\<rparr>), a))"

definition setMountEntry :: "string list \<Rightarrow> nat \<Rightarrow> peerManager \<Rightarrow> peerManager" where
  "setMountEntry servers a pm = upd_obj a (\<lambda>x. x\<lparr>me := Some servers\<rparr>) pm"

text \<open>\<open>mountEntry\<close> copies what the pointer refers to; \<open>None\<close> is the panic on a \<open>nil\<close> pointer.\<close>

definition mountEntry :: "nat \<Rightarrow> peerManager \<Rightarrow> string list option" where
  "mountEntry a pm = me (objs pm ! a)"

definition processDiscoveryUpdate :: "time \<Rightarrow> update \<Rightarrow> peerManager \<Rightarrow> peerManager" where
  "processDiscoveryUpdate t u pm =
     (if IsLost u then removePeer t (up_id u) pm
      else let (pm, a) = (case map_of (peers pm) (up_id u) of Some a \<Rightarrow> (pm, a) | None \<Rightarrow> new_peer t (up_id u) pm)
           in setMountEntry (Addresses u) a pm)"

section \<open>The choice of the active peers\<close>

definition peerErrorThreshold :: int where
  "peerErrorThreshold = 10"

definition addr_of :: "peerManager \<Rightarrow> string \<Rightarrow> nat" where
  "addr_of pm i = the (map_of (peers pm) i)"

definition is_bad :: "lib \<Rightarrow> time \<Rightarrow> peerManager \<Rightarrow> string \<Rightarrow> bool" where
  "is_bad L t pm i \<longleftrightarrow> Delta1h L (errors (objs pm ! addr_of pm i)) t \<ge> peerErrorThreshold"

definition start_or_stop :: "time \<Rightarrow> nat \<times> bool \<Rightarrow> peerManager \<Rightarrow> peerManager" where
  "start_or_stop t x pm = (if snd x then startPeer t (fst x) pm else stopPeer (fst x) pm)"

definition checkActivePeers :: "lib \<Rightarrow> time \<Rightarrow> peerManager \<Rightarrow> peerManager option" where
  "checkActivePeers L t pm =
     (if MaxActivePeers (pm_params pm) = 0 \<or> int (length (peers pm)) \<le> MaxActivePeers (pm_params pm)
      then Some (fold (startPeer t) (map snd (peers pm)) pm)
      else let sortedPeers = sort (map fst (peers pm));
               offset = ring_offset (pm_id pm) sortedPeers;
               bad = map (is_bad L t pm) sortedPeers
           in map_option (\<lambda>active. fold (start_or_stop t) (zip (map (addr_of pm) sortedPeers) active) pm)
                (select_active bad offset (nat (MaxActivePeers (pm_params pm)))))"

section \<open>The loop\<close>

text \<open>
  The variables \<open>changed\<close> and \<open>lastCheck\<close> of \<open>loop\<close>; an event is an update, the closing
  of the update channel, or a second without either.
\<close>

datatype pm_event = Update update | UpdatesClosed | Timer

record pm_loop =
  mgr :: peerManager
  changed :: bool
  lastCheck :: time

definition loop_event :: "lib \<Rightarrow> time \<Rightarrow> pm_event \<Rightarrow> pm_loop \<Rightarrow> pm_loop option" where
  "loop_event L t ev l =
     (case ev of
        Update u \<Rightarrow> Some (l\<lparr>mgr := processDiscoveryUpdate t u (mgr l), changed := True\<rparr>)
      | UpdatesClosed \<Rightarrow> Some (l\<lparr>mgr := (removePeer t '''' (mgr l))\<lparr>pm_done := True\<rparr>\<rparr>)
      | Timer \<Rightarrow>
          if changed l \<or> Sub t (lastCheck l) \<ge> 60 * second
          then map_option (\<lambda>pm. l\<lparr>mgr := pm, changed := False, lastCheck := t\<rparr>) (checkActivePeers L t (mgr l))
          else Some l)"

section \<open>Debug strings\<close>

definition peer_debugString :: "pm_peer \<Rightarrow> string" where
  "peer_debugString p =
     ''Peer ID:'' @ pm_peerId p @ '' QueueLen:''
       @ itoa (case running p of None \<Rightarrow> 0 | Some (ch, q) \<Rightarrow> int (Len (elems q)))"

definition pm_debugString :: "peerManager \<Rightarrow> string" where
  "pm_debugString pm =
     (let active = map (peer_debugString) (filter (\<lambda>p. running p \<noteq> None) (map (\<lambda>(k, a). objs pm ! a) (peers pm)))
      in ''PeerManager ID:'' @ pm_id pm @ '' MaxActivePeers:'' @ itoa (MaxActivePeers (pm_params pm))
         @ '' NumPeers:'' @ itoa (int (length (peers pm))) @ '' Active:['' @ join '' '' active @ '']'')"

section \<open>What the operations keep\<close>

definition pm_wf :: "peerManager \<Rightarrow> bool" where
  "pm_wf pm \<longleftrightarrow> distinct (map fst (peers pm)) \<and> distinct (map snd (peers pm))
     \<and> (\<forall>(k, a) \<in> set (peers pm). a < length (objs pm) \<and> pm_peerId (objs pm ! a) = k \<and> me (objs pm ! a) \<noteq> None)"

lemma pm_wfD: "pm_wf pm \<Longrightarrow> (k, a) \<in> set (peers pm) \<Longrightarrow> a < length (objs pm) \<and> pm_peerId (objs pm ! a) = k \<and> me (objs pm ! a) \<noteq> None"
  by (auto simp: pm_wf_def)

text \<open>A listed peer always has the servers of its last update, so that a push to it never panics.\<close>

lemma mountEntry_listed: "pm_wf pm \<Longrightarrow> (k, a) \<in> set (peers pm) \<Longrightarrow> mountEntry a pm \<noteq> None"
  by (auto simp: mountEntry_def dest: pm_wfD)

lemma mountEntry_set: "a < length (objs pm) \<Longrightarrow> mountEntry b (setMountEntry servers a pm) = (if b = a then Some servers else mountEntry b pm)"
  by (simp add: mountEntry_def setMountEntry_def upd_obj_def nth_list_update)

text \<open>Starting or stopping the peer at \<open>a\<close> touches nothing else, as far as the peers are concerned.\<close>

definition only_at :: "nat set \<Rightarrow> peerManager \<Rightarrow> peerManager \<Rightarrow> bool" where
  "only_at A pm pm' \<longleftrightarrow> length (objs pm') = length (objs pm) \<and> peers pm' = peers pm \<and> pm_params pm' = pm_params pm
     \<and> pm_id pm' = pm_id pm \<and> (\<forall>b. b \<notin> A \<longrightarrow> objs pm' ! b = objs pm ! b)
     \<and> (\<forall>b. (objs pm' ! b)\<lparr>running := None\<rparr> = (objs pm ! b)\<lparr>running := None\<rparr>)"

lemma only_at_trans: "only_at A x y \<Longrightarrow> only_at B y z \<Longrightarrow> only_at (A \<union> B) x z"
  unfolding only_at_def by auto

lemma only_at_refl [simp]: "only_at A pm pm"
  by (simp add: only_at_def)

lemma upd_nth: "a < length xs \<Longrightarrow> xs[a := v] ! b = (if b = a then v else xs ! b)"
  by (cases "b = a") simp_all

lemma startPeer_at:
  assumes "a < length (objs pm)"
  shows "only_at {a} pm (startPeer t a pm)" and "running (objs (startPeer t a pm) ! a) \<noteq> None"
    and "pm_counters (startPeer t a pm) = pm_counters pm"
  using assms by (auto simp: startPeer_def only_at_def upd_obj_def upd_nth Sub_chan_def Let_def split: option.splits)

lemma stopPeer_at:
  assumes "a < length (objs pm)"
  shows "only_at {a} pm (stopPeer a pm)" and "running (objs (stopPeer a pm) ! a) = None"
    and "pm_counters (stopPeer a pm) = pm_counters pm"
  using assms by (auto simp: stopPeer_def only_at_def upd_obj_def upd_nth split: option.splits)

lemma start_or_stop_at:
  assumes "fst x < length (objs pm)"
  shows "only_at {fst x} pm (start_or_stop t x pm)" and "(running (objs (start_or_stop t x pm) ! fst x) \<noteq> None) = snd x"
  using assms startPeer_at [of "fst x" pm t] stopPeer_at [of "fst x" pm] by (auto simp: start_or_stop_def)

lemma fold_start_or_stop:
  assumes "distinct (map fst xs)" and "fst ` set xs \<subseteq> {..<length (objs pm)}"
  shows "only_at (fst ` set xs) pm (fold (start_or_stop t) xs pm)
    \<and> (\<forall>(a, b) \<in> set xs. (running (objs (fold (start_or_stop t) xs pm) ! a) \<noteq> None) = b)"
  using assms
proof (induction xs arbitrary: pm)
  case (Cons x xs)
  let ?p = "start_or_stop t x pm" and ?q = "fold (start_or_stop t) (x # xs) pm"
  have x: "only_at {fst x} pm ?p" "(running (objs ?p ! fst x) \<noteq> None) = snd x"
    using start_or_stop_at [of x pm t] Cons.prems by auto
  then have "length (objs ?p) = length (objs pm)" by (simp add: only_at_def)
  then have ih: "only_at (fst ` set xs) ?p ?q" "\<forall>(a, b) \<in> set xs. (running (objs ?q ! a) \<noteq> None) = b"
    using Cons.IH [of ?p] Cons.prems by auto
  have "fst x \<notin> fst ` set xs" using Cons.prems by auto
  then have "objs ?q ! fst x = objs ?p ! fst x" using ih(1) by (simp add: only_at_def)
  with x ih only_at_trans [OF x(1) ih(1)] show ?case by (cases x) auto
qed simp

text \<open>Starting every peer is the case of \<open>start_or_stop\<close> where everything is selected.\<close>

lemma fold_startPeer: "fold (startPeer t) as pm = fold (start_or_stop t) (map (\<lambda>a. (a, True)) as) pm"
  by (induction as arbitrary: pm) (simp_all add: start_or_stop_def)

section \<open>The active peers\<close>

definition is_running :: "peerManager \<Rightarrow> string \<Rightarrow> bool" where
  "is_running pm i \<longleftrightarrow> running (objs pm ! addr_of pm i) \<noteq> None"

lemma addr_of_in: "pm_wf pm \<Longrightarrow> (k, a) \<in> set (peers pm) \<Longrightarrow> addr_of pm k = a"
  by (simp add: pm_wf_def addr_of_def)

lemma addr_of_map: "pm_wf pm \<Longrightarrow> map (addr_of pm) (map fst (peers pm)) = map snd (peers pm)"
  by (auto intro!: map_idI simp: addr_of_in)

lemma addr_of_sorted:
  assumes "pm_wf pm" and "mset xs = mset (map fst (peers pm))"
  shows "distinct xs" and "distinct (map (addr_of pm) xs)" and "addr_of pm ` set xs \<subseteq> {..<length (objs pm)}"
proof -
  show "distinct xs" using assms by (metis mset_eq_imp_distinct_iff pm_wf_def)
  have "mset (map (addr_of pm) xs) = mset (map snd (peers pm))"
    using assms(2) addr_of_map [OF assms(1)] by (metis mset_map)
  then show "distinct (map (addr_of pm) xs)" using assms(1) by (metis mset_eq_imp_distinct_iff pm_wf_def)
  have "set xs = fst ` set (peers pm)" using assms(2) by (metis mset_eq_setD set_map)
  then show "addr_of pm ` set xs \<subseteq> {..<length (objs pm)}"
    using assms(1) addr_of_in [OF assms(1)] by (auto simp: pm_wf_def)
qed

text \<open>The peers that run after the selection \<open>active\<close> was applied to the sorted identifiers.\<close>

lemma apply_selection:
  fixes t :: time
  assumes "pm_wf pm" and "mset xs = mset (map fst (peers pm))" and "length active = length xs"
  defines "pm' \<equiv> fold (start_or_stop t) (zip (map (addr_of pm) xs) active) pm"
  shows "only_at (snd ` set (peers pm)) pm pm'" and "map (is_running pm') xs = active"
    and "card {i \<in> fst ` set (peers pm). is_running pm' i} = num_active active"
proof -
  note s = addr_of_sorted [OF assms(1,2)]
  let ?z = "zip (map (addr_of pm) xs) active"
  have z: "map fst ?z = map (addr_of pm) xs" using assms(3) by simp
  then have zs: "fst ` set ?z = addr_of pm ` set xs" by (metis list.set_map)
  have f: "only_at (fst ` set ?z) pm pm' \<and> (\<forall>(a, b) \<in> set ?z. (running (objs pm' ! a) \<noteq> None) = b)"
    unfolding pm'_def by (rule fold_start_or_stop) (use s z zs in simp_all)
  have xs: "set xs = fst ` set (peers pm)" using assms(2) by (metis mset_eq_setD set_map)
  then have "addr_of pm ` set xs = snd ` set (peers pm)"
    using addr_of_map [OF assms(1)] by (metis list.set_map)
  with f zs show o: "only_at (snd ` set (peers pm)) pm pm'" by simp
  then have a: "addr_of pm' = addr_of pm" by (simp add: only_at_def addr_of_def fun_eq_iff)
  show m: "map (is_running pm') xs = active"
  proof (rule nth_equalityI)
    fix j assume j: "j < length (map (is_running pm') xs)"
    then have "?z ! j = (addr_of pm (xs ! j), active ! j)" "j < length ?z" using assms(3) by simp_all
    then have "(addr_of pm (xs ! j), active ! j) \<in> set ?z" by (metis nth_mem)
    with f j a show "map (is_running pm') xs ! j = active ! j" by (auto simp: is_running_def)
  qed (use assms(3) in simp)
  have "card {i \<in> set xs. is_running pm' i} = length (filter (is_running pm') xs)"
    using distinct_length_filter [OF s(1), of "is_running pm'"] by (simp add: Int_def conj_commute)
  also have "\<dots> = num_active (map (is_running pm') xs)" by (simp add: num_active_def filter_map o_def)
  finally show "card {i \<in> fst ` set (peers pm). is_running pm' i} = num_active active" using m xs by simp
qed

definition well_chosen :: "lib \<Rightarrow> time \<Rightarrow> peerManager \<Rightarrow> peerManager \<Rightarrow> bool" where
  "well_chosen L t pm pm' \<longleftrightarrow> (\<exists>i \<in> fst ` set (peers pm). is_running pm' i \<and> is_bad L t pm i)
     \<longrightarrow> (\<forall>i \<in> fst ` set (peers pm). \<not> is_bad L t pm i \<longrightarrow> is_running pm' i)"

lemma checkActivePeers_all:
  assumes "pm_wf pm" and "MaxActivePeers (pm_params pm) = 0 \<or> int (length (peers pm)) \<le> MaxActivePeers (pm_params pm)"
  shows "\<exists>pm'. checkActivePeers L t pm = Some pm' \<and> peers pm' = peers pm
    \<and> card {i \<in> fst ` set (peers pm). is_running pm' i} = length (peers pm) \<and> well_chosen L t pm pm'"
proof -
  let ?xs = "map fst (peers pm)" and ?a = "replicate (length (peers pm)) True"
  let ?pm' = "fold (start_or_stop t) (zip (map (addr_of pm) ?xs) ?a) pm"
  have "zip (map snd (peers pm)) ?a = map (\<lambda>a. (a, True)) (map snd (peers pm))"
    by (rule nth_equalityI) simp_all
  then have e: "checkActivePeers L t pm = Some ?pm'"
    using assms(2) by (simp only: addr_of_map [OF assms(1)] checkActivePeers_def fold_startPeer if_True)
  note s = apply_selection [OF assms(1) refl, of ?a t]
  have "num_active ?a = length (peers pm)" by (simp add: num_active_def)
  moreover have "set (map (is_running ?pm') ?xs) \<subseteq> {True}" by (subst s(2)) auto
  ultimately show ?thesis using e s(1,3) by (auto simp: only_at_def well_chosen_def)
qed

lemma checkActivePeers_some:
  assumes "pm_wf pm" and "\<not> (MaxActivePeers (pm_params pm) = 0 \<or> int (length (peers pm)) \<le> MaxActivePeers (pm_params pm))"
  shows "\<exists>pm'. checkActivePeers L t pm = Some pm' \<and> peers pm' = peers pm
    \<and> card {i \<in> fst ` set (peers pm). is_running pm' i} = min (length (peers pm)) (nat (MaxActivePeers (pm_params pm)))
    \<and> well_chosen L t pm pm'"
proof -
  let ?xs = "sort (map fst (peers pm))" and ?max = "nat (MaxActivePeers (pm_params pm))"
  let ?bad = "map (is_bad L t pm) ?xs"
  have xs: "mset ?xs = mset (map fst (peers pm))" "length ?xs = length (peers pm)" by simp_all
  then have set: "set ?xs = fst ` set (peers pm)" by simp
  obtain active where a: "select_active ?bad (ring_offset (pm_id pm) ?xs) ?max = Some active" "length active = length ?bad"
    "num_active active = min (length ?bad) ?max"
    "(\<exists>i < length ?bad. active ! i \<and> ?bad ! i) \<longrightarrow> (\<forall>j < length ?bad. \<not> ?bad ! j \<longrightarrow> active ! j)"
    using select_active_total [of ?bad "ring_offset (pm_id pm) ?xs" ?max] by blast
  let ?pm' = "fold (start_or_stop t) (zip (map (addr_of pm) ?xs) active) pm"
  have e: "checkActivePeers L t pm = Some ?pm'" using assms(2) a(1) by (simp add: checkActivePeers_def Let_def)
  note s = apply_selection [OF assms(1) xs(1), of active t]
  have act: "active ! j = is_running ?pm' (?xs ! j)" if "j < length ?xs" for j
    using s(2) a(2) that by (metis length_map nth_map)
  have "is_running ?pm' g" if b: "b \<in> set ?xs" "is_running ?pm' b" "is_bad L t pm b"
    and g: "g \<in> set ?xs" "\<not> is_bad L t pm g" for b g
  proof -
    obtain i where i: "i < length ?xs" "?xs ! i = b" using b(1) by (metis in_set_conv_nth)
    obtain j where j: "j < length ?xs" "?xs ! j = g" using g(1) by (metis in_set_conv_nth)
    have "active ! i \<and> ?bad ! i" "\<not> ?bad ! j" using i j b(2,3) g(2) act by simp_all
    with a(4) i(1) j(1) have "active ! j" by (metis length_map)
    with act j show ?thesis by simp
  qed
  then have "well_chosen L t pm ?pm'" unfolding well_chosen_def set by blast
  then show ?thesis using e s(1,3) a(2,3) by (intro exI [of _ ?pm']) (simp add: only_at_def)
qed


section \<open>Removal\<close>

definition stop_and_count :: "time \<Rightarrow> nat \<Rightarrow> peerManager \<Rightarrow> peerManager" where
  "stop_and_count t a pm = incr_peers t (-1) (stopPeer a pm)"

lemma incr_peers_simps [simp]:
  "objs (incr_peers t n pm) = objs pm" "peers (incr_peers t n pm) = peers pm" "ps (incr_peers t n pm) = ps pm"
  "pm_params (incr_peers t n pm) = pm_params pm" "pm_id (incr_peers t n pm) = pm_id pm"
  "Value (numPeers (pm_counters (incr_peers t n pm))) = Value (numPeers (pm_counters pm)) + n"
  by (simp_all add: incr_peers_def)

lemma fold_stop:
  assumes "set as \<subseteq> {..<length (objs pm)}"
  shows "only_at (set as) pm (fold (stop_and_count t) as pm)
    \<and> (\<forall>a \<in> set as. running (objs (fold (stop_and_count t) as pm) ! a) = None)
    \<and> Value (numPeers (pm_counters (fold (stop_and_count t) as pm))) = Value (numPeers (pm_counters pm)) - int (length as)"
  using assms
proof (induction as arbitrary: pm)
  case (Cons a as)
  let ?p = "stop_and_count t a pm" and ?q = "fold (stop_and_count t) (a # as) pm"
  have a: "only_at {a} pm ?p" "running (objs ?p ! a) = None"
    "Value (numPeers (pm_counters ?p)) = Value (numPeers (pm_counters pm)) - 1"
    using stopPeer_at [of a pm] Cons.prems by (auto simp: stop_and_count_def only_at_def)
  then have "length (objs ?p) = length (objs pm)" by (simp add: only_at_def)
  then have ih: "only_at (set as) ?p ?q" "\<forall>b \<in> set as. running (objs ?q ! b) = None"
    "Value (numPeers (pm_counters ?q)) = Value (numPeers (pm_counters ?p)) - int (length as)"
    using Cons.IH [of ?p] Cons.prems by auto
  have "running (objs ?q ! a) = None" using ih(1,2) a(2) by (cases "a \<in> set as") (auto simp: only_at_def)
  with a ih only_at_trans [OF a(1) ih(1)] show ?case by simp
qed simp

text \<open>Once the entry is deleted the loop stops every other peer that is left.\<close>

lemma remove_loop_rest:
  assumes "i \<notin> fst ` set (peers pm)" and "fst ` set rest \<subseteq> insert i (fst ` set (peers pm))"
    and "snd ` set rest \<subseteq> {..<length (objs pm)}"
  shows "remove_loop t i rest pm = fold (stop_and_count t) (map snd (filter (\<lambda>x. fst x \<noteq> i) rest)) pm"
  using assms
proof (induction rest arbitrary: pm)
  case (Cons x rest)
  obtain k a where x: "x = (k, a)" by force
  let ?p = "stop_and_count t a pm"
  have "only_at {a} pm ?p" using stopPeer_at(1) [of a pm] Cons.prems x by (auto simp: stop_and_count_def only_at_def)
  then have p: "peers ?p = peers pm" "length (objs ?p) = length (objs pm)" by (simp_all add: only_at_def)
  have d: "AList.delete i (peers pm) = peers pm" using Cons.prems(1) by (simp add: AList.delete_id)
  show ?case
  proof (cases "k = i")
    case True
    then have "map_of (peers pm) k = None" using Cons.prems(1) by (simp add: map_of_eq_None_fst)
    then show ?thesis using Cons.IH [of pm] Cons.prems True x by simp
  next
    case False
    then obtain b where "map_of (peers pm) k = Some b" using Cons.prems(2) x by (metis (no_types, lifting)
        fst_conv image_insert insert_iff list.simps(15) map_of_eq_None_fst not_Some_eq subsetD)
    then show ?thesis using Cons.IH [of ?p] Cons.prems False x p d by (simp add: stop_and_count_def)
  qed
qed simp

text \<open>The entries the loop visits: the first one, and then those that are not the lost peer.\<close>

fun visited :: "string \<Rightarrow> (string \<times> nat) list \<Rightarrow> (string \<times> nat) list" where
  "visited i [] = []"
| "visited i (x # rest) = x # filter (\<lambda>y. fst y \<noteq> i) rest"

lemma removePeer_visits:
  assumes "pm_wf pm"
  shows "removePeer t i pm = fold (stop_and_count t) (map snd (visited i (peers pm))) (pm\<lparr>peers := AList.delete i (peers pm)\<rparr>)"
proof (cases "peers pm")
  case Nil
  then show ?thesis by (simp add: removePeer_def)
next
  case (Cons x rest)
  obtain k a where x: "x = (k, a)" by force
  let ?d = "pm\<lparr>peers := AList.delete i (peers pm)\<rparr>"
  let ?p = "stop_and_count t a ?d"
  have a: "a < length (objs pm)" "snd ` set rest \<subseteq> {..<length (objs pm)}" using assms Cons x by (auto simp: pm_wf_def)
  then have "only_at {a} ?d ?p" using stopPeer_at(1) [of a ?d] by (simp add: stop_and_count_def only_at_def)
  then have p: "peers ?p = AList.delete i (peers pm)" "length (objs ?p) = length (objs pm)" by (simp_all add: only_at_def)
  have keys: "fst ` set (AList.delete i (peers pm)) = fst ` set (peers pm) - {i}"
    by (simp flip: dom_map_of_conv_image_fst)
  have "remove_loop t i rest ?p = fold (stop_and_count t) (map snd (filter (\<lambda>y. fst y \<noteq> i) rest)) ?p"
    by (rule remove_loop_rest) (use p a keys Cons in auto)
  then show ?thesis using Cons x by (simp add: removePeer_def stop_and_count_def)
qed

lemma length_filter_key: "distinct (map fst xs) \<Longrightarrow> i \<in> fst ` set xs \<Longrightarrow> length (filter (\<lambda>y. fst y \<noteq> i) xs) = length xs - 1"
proof (induction xs)
  case (Cons x xs)
  show ?case
  proof (cases "fst x = i")
    case True
    then have "filter (\<lambda>y. fst y \<noteq> i) xs = xs" using Cons.prems by (auto simp: filter_id_conv image_iff)
    then show ?thesis using True by simp
  next
    case False
    then have "i \<in> fst ` set xs" using Cons.prems by auto
    then show ?thesis using False Cons by (cases xs) auto
  qed
qed simp

lemma length_visited:
  assumes "distinct (map fst xs)"
  shows "length (visited i xs) = length xs - (if i \<in> fst ` set xs \<and> \<not> (xs \<noteq> [] \<and> fst (hd xs) = i) then 1 else 0)"
proof (cases xs)
  case (Cons x rest)
  show ?thesis
  proof (cases "i \<in> fst ` set rest")
    case True
    then show ?thesis using Cons assms length_filter_key [of rest i] by (cases rest) auto
  next
    case False
    then have "filter (\<lambda>y. fst y \<noteq> i) rest = rest" by (auto simp: filter_id_conv)
    then show ?thesis using Cons False by auto
  qed
qed simp

text \<open>
  C39: what a lost peer does to the others.  The loop of \<open>removePeer\<close> runs over all the
  peers: every other peer is stopped too, the number of peers is decreased by the number of
  peers that were visited, and the lost peer itself is stopped only if the iteration over the
  map happens to start with it.  With an identifier that is not in the map, as when the
  channel of the updates is closed, every peer is stopped.
\<close>

theorem removePeer_effect:
  fixes i :: string and t :: time
  assumes "pm_wf pm"
  defines "first \<equiv> peers pm \<noteq> [] \<and> fst (hd (peers pm)) = i" and "known \<equiv> i \<in> fst ` set (peers pm)"
    and "pm' \<equiv> removePeer t i pm"
  shows "peers pm' = AList.delete i (peers pm)
    \<and> (\<forall>(k, a) \<in> set (peers pm). k \<noteq> i \<longrightarrow> running (objs pm' ! a) = None)
    \<and> (\<forall>(k, a) \<in> set (peers pm). k = i \<longrightarrow> running (objs pm' ! a) = (if first then None else running (objs pm ! a)))
    \<and> Value (numPeers (pm_counters pm')) = Value (numPeers (pm_counters pm))
        - int (length (peers pm)) + (if known \<and> \<not> first then 1 else 0)"
proof -
  let ?d = "pm\<lparr>peers := AList.delete i (peers pm)\<rparr>" and ?v = "map snd (visited i (peers pm))"
  have sub: "set (visited i (peers pm)) \<subseteq> set (peers pm)" by (cases "peers pm") auto
  then have "set ?v \<subseteq> {..<length (objs ?d)}" using assms(1) by (fastforce simp: pm_wf_def)
  from fold_stop [OF this, of t] have f: "only_at (set ?v) ?d pm'" "\<forall>a \<in> set ?v. running (objs pm' ! a) = None"
    "Value (numPeers (pm_counters pm')) = Value (numPeers (pm_counters pm)) - int (length ?v)"
    using removePeer_visits [OF assms(1)] by (simp_all add: pm'_def)
  have in_v: "(a \<in> set ?v) = (k \<noteq> i \<or> first)" if "(k, a) \<in> set (peers pm)" for k a
  proof -
    have "(k, a) \<in> set (visited i (peers pm)) \<longleftrightarrow> k \<noteq> i \<or> first"
      using that assms(1) by (cases "peers pm") (auto simp: first_def pm_wf_def image_iff)
    moreover have "(k', a) \<in> set (peers pm) \<Longrightarrow> k' = k" for k'
      using that pm_wfD [OF assms(1)] by metis
    moreover have "a \<in> set ?v \<longleftrightarrow> (\<exists>k'. (k', a) \<in> set (visited i (peers pm)))" by force
    ultimately show ?thesis using sub by blast
  qed
  have "length ?v = length (peers pm) - (if known \<and> \<not> first then 1 else 0)"
    using length_visited [of "peers pm" i] assms(1) by (simp add: pm_wf_def known_def first_def)
  moreover have "known \<and> \<not> first \<Longrightarrow> 1 \<le> length (peers pm)" by (cases "peers pm") (auto simp: known_def)
  ultimately have "int (length ?v) = int (length (peers pm)) - (if known \<and> \<not> first then 1 else 0)"
    by (simp add: of_nat_diff)
  moreover have "running (objs pm' ! a) = (if k \<noteq> i \<or> first then None else running (objs pm ! a))"
    if "(k, a) \<in> set (peers pm)" for k a
    using f(1,2) in_v [OF that] by (cases "a \<in> set ?v") (auto simp: only_at_def)
  moreover have "peers pm' = AList.delete i (peers pm)" using f(1) by (simp add: only_at_def)
  ultimately show ?thesis using f(3) by auto
qed

section \<open>The manager among the other goroutines\<close>

text \<open>
  The events of the loop interleave with the goroutines of the peers, which work on their
  queues and count errors, and with the other users of the \<open>PubSub\<close>.  These unsubscribe
  only channels of their own.  \<open>Sub\<close> and \<open>Unsub\<close> need the mutex of the \<open>PubSub\<close>.
\<close>

definition runs :: "peerManager \<Rightarrow> nat \<Rightarrow> chan \<Rightarrow> bool" where
  "runs pm a ch \<longleftrightarrow> a < length (objs pm) \<and> (\<exists>q. running (objs pm ! a) = Some (ch, q))"

inductive pm_step :: "lib \<Rightarrow> peerManager \<Rightarrow> peerManager \<Rightarrow> bool" for L where
  discovered: "mutex_free (ps pm) \<Longrightarrow> pm_step L pm (processDiscoveryUpdate t u pm)"
| checked: "mutex_free (ps pm) \<Longrightarrow> checkActivePeers L t pm = Some pm' \<Longrightarrow> pm_step L pm pm'"
| ended: "mutex_free (ps pm) \<Longrightarrow> pm_step L pm ((removePeer t '''' pm)\<lparr>pm_done := True\<rparr>)"
| reorder: "mset xs = mset (peers pm) \<Longrightarrow> pm_step L pm (pm\<lparr>peers := xs\<rparr>)"
| pubsub: "ps_step (ps pm) p' \<Longrightarrow> \<forall>a ch. runs pm a ch \<and> ch \<in> out (ps pm) \<longrightarrow> ch \<in> out p' \<or> rl p' = RLDone \<Longrightarrow>
    pm_step L pm (pm\<lparr>ps := p'\<rparr>)"
| failed: "a < length (objs pm) \<Longrightarrow> pm_step L pm (upd_obj a (\<lambda>x. x\<lparr>errors := Incr t 1 (errors x)\<rparr>) pm)"
| queued: "a < length (objs pm) \<Longrightarrow> running (objs pm ! a) = Some (ch, q) \<Longrightarrow> queue_step q q' \<Longrightarrow>
    pm_step L pm (upd_obj a (\<lambda>x. x\<lparr>running := Some (ch, q')\<rparr>) pm)"

inductive pm_reachable :: "lib \<Rightarrow> peerManager \<Rightarrow> bool" for L where
  pm_init: "ps_reachable p \<Longrightarrow> pm_reachable L (startPeerManager i p prms cs)"
| pm_next: "pm_reachable L pm \<Longrightarrow> pm_step L pm pm' \<Longrightarrow> pm_reachable L pm'"

inductive_cases pm_step_elim: "pm_step L pm pm'"

definition sub_inv :: "peerManager \<Rightarrow> bool" where
  "sub_inv pm \<longleftrightarrow> ps_reachable (ps pm)
     \<and> (\<forall>a ch. runs pm a ch \<longrightarrow> ch < next_chan (ps pm) \<and> (ch \<in> out (ps pm) \<or> rl (ps pm) = RLDone))
     \<and> (\<forall>a b ch. runs pm a ch \<and> runs pm b ch \<longrightarrow> a = b)"

lemma sub_startPeer:
  assumes "sub_inv pm" and "mutex_free (ps pm)" and "a < length (objs pm)"
  shows "sub_inv (startPeer t a pm) \<and> mutex_free (ps (startPeer t a pm))"
proof (cases "running (objs pm ! a)")
  case None
  let ?p = "fst (Sub_chan (ps pm))" and ?n = "next_chan (ps pm)"
  have e: "startPeer t a pm = upd_obj a (\<lambda>x. x\<lparr>running := Some (?n, newMsgQueue t)\<rparr>) (pm\<lparr>ps := ?p\<rparr>)"
    using None by (simp add: startPeer_def Sub_chan_def Let_def)
  have "ps_reachable ?p" using assms(1,2) ps_step.sub ps_next by (auto simp: sub_inv_def)
  moreover have p: "next_chan ?p = Suc ?n" "out ?p = insert ?n (out (ps pm))" "rl ?p = rl (ps pm)"
    by (simp_all add: Sub_chan_def Let_def)
  moreover have "ps (startPeer t a pm) = ?p" by (simp add: e upd_obj_def)
  moreover have "runs (startPeer t a pm) b ch \<longleftrightarrow> runs pm b ch \<or> b = a \<and> ch = ?n" for b ch
    using assms(3) None by (auto simp: e runs_def upd_obj_def upd_nth)
  moreover have "ch < ?n" if "runs pm b ch" for b ch using assms(1) that by (auto simp: sub_inv_def)
  ultimately show ?thesis using assms(1,2) unfolding sub_inv_def mutex_free_def
    by (metis insert_iff less_Suc_eq less_irrefl)
qed (use assms in \<open>simp add: startPeer_def\<close>)

lemma sub_stopPeer:
  assumes "sub_inv pm" and "mutex_free (ps pm)" and "a < length (objs pm)"
  shows "sub_inv (stopPeer a pm) \<and> mutex_free (ps (stopPeer a pm))"
proof (cases "running (objs pm ! a)")
  case (Some r)
  obtain ch q where r: "running (objs pm ! a) = Some (ch, q)" using Some by (cases r) auto
  let ?p = "Unsub ch (ps pm)"
  have e: "stopPeer a pm = upd_obj a (\<lambda>x. x\<lparr>running := None\<rparr>) (pm\<lparr>ps := ?p\<rparr>)" using r by (simp add: stopPeer_def)
  have "ps_reachable ?p" using assms(1,2) ps_step.unsub ps_next by (auto simp: sub_inv_def)
  moreover have "next_chan ?p = next_chan (ps pm)" "out ?p = out (ps pm) - {ch}" "rl ?p = rl (ps pm)"
    by (auto simp: Unsub_def close_chan_def)
  moreover have "ps (stopPeer a pm) = ?p" by (simp add: e upd_obj_def)
  moreover have "runs (stopPeer a pm) b c \<longleftrightarrow> runs pm b c \<and> b \<noteq> a" for b c
    using assms(3) by (auto simp: e runs_def upd_obj_def upd_nth)
  moreover have "runs pm a ch" using r assms(3) by (simp add: runs_def)
  ultimately show ?thesis using assms(1,2) unfolding sub_inv_def mutex_free_def by (metis Diff_iff singletonD)
qed (use assms in \<open>simp add: stopPeer_def\<close>)

text \<open>A loop of such operations.\<close>

definition sub_op :: "('x \<Rightarrow> nat) \<Rightarrow> ('x \<Rightarrow> peerManager \<Rightarrow> peerManager) \<Rightarrow> bool" where
  "sub_op g f \<longleftrightarrow> (\<forall>x pm. sub_inv pm \<longrightarrow> mutex_free (ps pm) \<longrightarrow> g x < length (objs pm) \<longrightarrow>
     sub_inv (f x pm) \<and> mutex_free (ps (f x pm)) \<and> length (objs (f x pm)) = length (objs pm))"

lemma sub_fold:
  assumes "sub_op g f" and "sub_inv pm" and "mutex_free (ps pm)" and "g ` set xs \<subseteq> {..<length (objs pm)}"
  shows "sub_inv (fold f xs pm)"
  using assms(2-4)
proof (induction xs arbitrary: pm)
  case (Cons x xs)
  have "sub_inv (f x pm) \<and> mutex_free (ps (f x pm)) \<and> length (objs (f x pm)) = length (objs pm)"
    using assms(1) Cons.prems unfolding sub_op_def by simp
  then show ?case using Cons.IH [of "f x pm"] Cons.prems by simp
qed simp

lemma sub_op_start_or_stop: "sub_op fst (start_or_stop t)"
  unfolding sub_op_def using start_or_stop_at(1) sub_startPeer sub_stopPeer
  by (metis only_at_def start_or_stop_def)

lemma sub_inv_same: "sub_inv pm \<Longrightarrow> ps pm' = ps pm \<Longrightarrow> objs pm' = objs pm \<Longrightarrow> sub_inv pm'"
  by (simp add: sub_inv_def runs_def)

lemma sub_op_stop_and_count: "sub_op (\<lambda>a. a) (stop_and_count t)"
  unfolding sub_op_def stop_and_count_def using stopPeer_at(1) sub_stopPeer
  by (metis incr_peers_simps(1,3) only_at_def sub_inv_same)

lemma pm_wf_same: "pm_wf pm \<Longrightarrow> objs pm' = objs pm \<Longrightarrow> peers pm' = peers pm \<Longrightarrow> pm_wf pm'"
  by (simp add: pm_wf_def)

lemma only_at_fields:
  assumes "only_at A pm pm'"
  shows "pm_peerId (objs pm' ! b) = pm_peerId (objs pm ! b)" and "me (objs pm' ! b) = me (objs pm ! b)"
proof -
  have e: "(objs pm' ! b)\<lparr>running := None\<rparr> = (objs pm ! b)\<lparr>running := None\<rparr>" using assms by (simp add: only_at_def)
  show "pm_peerId (objs pm' ! b) = pm_peerId (objs pm ! b)" using arg_cong [OF e, of pm_peerId] by simp
  show "me (objs pm' ! b) = me (objs pm ! b)" using arg_cong [OF e, of me] by simp
qed

lemma pm_wf_only_at:
  assumes "pm_wf pm" and "only_at A pm pm'"
  shows "pm_wf pm'"
proof -
  have "length (objs pm') = length (objs pm)" "peers pm' = peers pm" using assms(2) by (simp_all add: only_at_def)
  then show ?thesis using assms(1) by (simp add: pm_wf_def only_at_fields [OF assms(2)])
qed

lemma sub_inv_mono:
  assumes "sub_inv pm" and "ps pm' = ps pm" and "\<And>a ch. runs pm' a ch \<Longrightarrow> runs pm a ch"
  shows "sub_inv pm'"
  using assms unfolding sub_inv_def by metis

definition pm_inv :: "peerManager \<Rightarrow> bool" where
  "pm_inv pm \<longleftrightarrow> pm_wf pm \<and> sub_inv pm"

lemma removePeer_inv:
  assumes "pm_inv pm" and "mutex_free (ps pm)"
  shows "pm_inv (removePeer t i pm)"
proof -
  let ?d = "pm\<lparr>peers := AList.delete i (peers pm)\<rparr>" and ?v = "map snd (visited i (peers pm))"
  have "set (visited i (peers pm)) \<subseteq> set (peers pm)" by (cases "peers pm") auto
  then have v: "set ?v \<subseteq> {..<length (objs ?d)}" using assms(1) by (fastforce simp: pm_inv_def pm_wf_def)
  have del: "AList.delete i (peers pm) = filter (\<lambda>x. fst x \<noteq> i) (peers pm)"
    by (auto simp: AList.delete_eq case_prod_unfold intro: filter_cong)
  have d: "pm_wf ?d" using assms(1) by (auto simp: pm_inv_def pm_wf_def del distinct_map inj_on_def)
  have "sub_inv ?d" using assms(1) by (auto simp: pm_inv_def intro: sub_inv_same)
  from sub_fold [OF sub_op_stop_and_count this, of ?v t] v assms(2)
  show ?thesis using pm_wf_only_at [OF d, of "set ?v"] fold_stop [OF v, of t] removePeer_visits [of pm t i] assms(1)
    by (simp add: pm_inv_def)
qed

lemma processDiscoveryUpdate_inv:
  assumes "pm_inv pm" and "mutex_free (ps pm)"
  shows "pm_inv (processDiscoveryUpdate t u pm)"
proof (cases "IsLost u")
  case True
  then show ?thesis using removePeer_inv [OF assms] by (simp add: processDiscoveryUpdate_def)
next
  case False
  note wf = assms(1) [unfolded pm_inv_def]
  show ?thesis
  proof (cases "map_of (peers pm) (up_id u)")
    case (Some a)
    then have "(up_id u, a) \<in> set (peers pm)" by (rule map_of_SomeD)
    then have a: "a < length (objs pm)" using pm_wfD wf by blast
    let ?p = "setMountEntry (Addresses u) a pm"
    have e: "processDiscoveryUpdate t u pm = ?p" using Some False by (simp add: processDiscoveryUpdate_def)
    have "pm_wf ?p" using wf a by (auto simp: pm_wf_def setMountEntry_def upd_obj_def upd_nth)
    moreover have "sub_inv ?p"
      by (rule sub_inv_mono [of pm]) (use wf a in \<open>auto simp: setMountEntry_def upd_obj_def upd_nth runs_def split: if_splits\<close>)
    ultimately show ?thesis by (simp add: e pm_inv_def)
  next
    case None
    then have n: "up_id u \<notin> fst ` set (peers pm)" by (simp add: map_of_eq_None_fst)
    let ?p = "processDiscoveryUpdate t u pm" and ?a = "length (objs pm)"
    have p: "peers ?p = peers pm @ [(up_id u, ?a)]" "ps ?p = ps pm"
      "objs ?p = objs pm @ [\<lparr>pm_peerId = up_id u, pm_localId = pm_id pm, errors = counter_new, me = Some (Addresses u), running = None\<rparr>]"
      using None False n by (simp_all add: processDiscoveryUpdate_def new_peer_def setMountEntry_def upd_obj_def alist_update_new Let_def)
    have "\<forall>x \<in> set (peers pm). snd x < ?a" using wf by (auto simp: pm_wf_def)
    then have "pm_wf ?p" using wf n by (auto simp: pm_wf_def p nth_append)
    moreover have "sub_inv ?p"
      by (rule sub_inv_mono [of pm]) (use wf in \<open>auto simp: p runs_def nth_append less_Suc_eq split: if_splits\<close>)
    ultimately show ?thesis by (simp add: pm_inv_def)
  qed
qed

lemma select_active_length: "select_active bad offset n = Some active \<Longrightarrow> length active = length bad"
  using select_active_total [of bad offset n] by auto

lemma checkActivePeers_inv:
  assumes "pm_inv pm" and "mutex_free (ps pm)" and "checkActivePeers L t pm = Some pm'"
  shows "pm_inv pm'"
proof -
  note wf = assms(1) [unfolded pm_inv_def]
  obtain zs where z: "pm' = fold (start_or_stop t) zs pm" "distinct (map fst zs)" "fst ` set zs \<subseteq> {..<length (objs pm)}"
  proof (cases "MaxActivePeers (pm_params pm) = 0 \<or> int (length (peers pm)) \<le> MaxActivePeers (pm_params pm)")
    case True
    let ?zs = "map (\<lambda>a. (a, True)) (map snd (peers pm))"
    have "pm' = fold (start_or_stop t) ?zs pm" using True assms(3) by (simp add: checkActivePeers_def fold_startPeer)
    moreover have "map fst ?zs = map snd (peers pm)" by (simp add: o_def)
    moreover have "fst ` set ?zs \<subseteq> {..<length (objs pm)}" using wf by (auto simp: pm_wf_def image_image)
    ultimately show ?thesis using that [of ?zs] wf by (simp only: pm_wf_def)
  next
    case False
    let ?xs = "sort (map fst (peers pm))"
    obtain active where a: "select_active (map (is_bad L t pm) ?xs) (ring_offset (pm_id pm) ?xs) (nat (MaxActivePeers (pm_params pm))) = Some active"
      "pm' = fold (start_or_stop t) (zip (map (addr_of pm) ?xs) active) pm"
      using False assms(3) by (auto simp: checkActivePeers_def Let_def)
    have "length active = length ?xs"
      using select_active_length [OF a(1)] by simp
    then have f: "map fst (zip (map (addr_of pm) ?xs) active) = map (addr_of pm) ?xs" by simp
    then have "fst ` set (zip (map (addr_of pm) ?xs) active) = addr_of pm ` set ?xs" by (metis list.set_map)
    then show ?thesis using that [OF a(2)] f addr_of_sorted [of pm ?xs] wf by simp
  qed
  then show ?thesis using sub_fold [OF sub_op_start_or_stop, of pm zs t] fold_start_or_stop [OF z(2,3), of t] pm_wf_only_at wf assms(2)
    unfolding pm_inv_def by blast
qed

lemma ps_step_RLDone: "ps_step p p' \<Longrightarrow> rl p = RLDone \<Longrightarrow> rl p' = RLDone"
  by (induction rule: ps_step.induct) (simp_all add: ps_defs)

lemma ps_step_next_chan: "ps_step p p' \<Longrightarrow> next_chan p \<le> next_chan p'"
  by (induction rule: ps_step.induct) (simp_all add: ps_defs)

lemma pm_step_inv: "pm_step L pm pm' \<Longrightarrow> pm_inv pm \<Longrightarrow> pm_inv pm'"
proof (induction rule: pm_step.induct)
  case (discovered pm t u)
  then show ?case by (blast intro: processDiscoveryUpdate_inv)
next
  case (checked pm t pm')
  then show ?case by (blast intro: checkActivePeers_inv)
next
  case (ended pm t)
  then have "pm_inv (removePeer t '''' pm)" by (blast intro: removePeer_inv)
  then show ?case unfolding pm_inv_def by (auto intro: pm_wf_same sub_inv_same)
next
  case (reorder xs pm)
  then have "set xs = set (peers pm)" "distinct (map fst xs) = distinct (map fst (peers pm))"
    "distinct (map snd xs) = distinct (map snd (peers pm))"
    by (metis mset_eq_setD, metis mset_eq_imp_distinct_iff mset_map, metis mset_eq_imp_distinct_iff mset_map)
  with reorder show ?case unfolding pm_inv_def by (auto simp: pm_wf_def intro: sub_inv_same)
next
  case (pubsub pm p')
  have "sub_inv (pm\<lparr>ps := p'\<rparr>)"
    using pubsub ps_step_RLDone [OF pubsub(1)] ps_step_next_chan [OF pubsub(1)] ps_next
    unfolding pm_inv_def sub_inv_def runs_def by (simp, metis order_less_le_trans)
  with pubsub show ?case by (auto simp: pm_inv_def intro: pm_wf_same)
next
  case (failed a pm t)
  let ?p = "upd_obj a (\<lambda>x. x\<lparr>errors := Incr t 1 (errors x)\<rparr>) pm"
  have "pm_wf ?p" using failed by (auto simp: pm_inv_def pm_wf_def upd_obj_def upd_nth)
  moreover have "sub_inv ?p"
    by (rule sub_inv_mono [of pm]) (use failed in \<open>auto simp: pm_inv_def upd_obj_def upd_nth runs_def split: if_splits\<close>)
  ultimately show ?case by (simp add: pm_inv_def)
next
  case (queued a pm ch q q')
  let ?p = "upd_obj a (\<lambda>x. x\<lparr>running := Some (ch, q')\<rparr>) pm"
  have "pm_wf ?p" using queued by (auto simp: pm_inv_def pm_wf_def upd_obj_def upd_nth)
  moreover have "sub_inv ?p"
    by (rule sub_inv_mono [of pm]) (use queued in \<open>auto simp: pm_inv_def upd_obj_def upd_nth runs_def split: if_splits\<close>)
  ultimately show ?case by (simp add: pm_inv_def)
qed

lemma pm_reachable_inv: "pm_reachable L pm \<Longrightarrow> pm_inv pm"
proof (induction rule: pm_reachable.induct)
  case (pm_init p i prms cs)
  then show ?case by (simp add: pm_inv_def pm_wf_def sub_inv_def runs_def startPeerManager_def)
next
  case (pm_next pm pm')
  then show ?case by (blast intro: pm_step_inv)
qed


section \<open>Three peers\<close>

definition ex_update :: "string \<Rightarrow> update" where
  "ex_update i = \<lparr>up_id = i, IsLost = False, Addresses = [''@addr'']\<rparr>"

definition ex_mgr :: peerManager where
  "ex_mgr = fold (\<lambda>i. processDiscoveryUpdate 0 (ex_update i)) [''c'', ''a'', ''b'']
     (startPeerManager ''me'' newPubSub ((params ex_node)\<lparr>MaxActivePeers := 2\<rparr>) NewCounters)"

lemma ex_mgr_reachable: "pm_reachable L ex_mgr"
proof -
  let ?s = "\<lambda>is. fold (\<lambda>i. processDiscoveryUpdate 0 (ex_update i)) is
     (startPeerManager ''me'' newPubSub ((params ex_node)\<lparr>MaxActivePeers := 2\<rparr>) NewCounters)"
  have free: "mutex_free (ps (?s is))" for "is"
  proof (induction "is" rule: rev_induct)
    case Nil
    show ?case by (simp add: startPeerManager_def newPubSub_def mutex_free_def)
  next
    case (snoc i "is")
    have "ps (processDiscoveryUpdate 0 (ex_update i) pm) = ps pm" for pm
      by (simp add: processDiscoveryUpdate_def ex_update_def new_peer_def setMountEntry_def upd_obj_def Let_def split: option.splits)
    with snoc show ?case by simp
  qed
  have "pm_reachable L (?s is)" for "is"
  proof (induction "is" rule: rev_induct)
    case Nil
    show ?case by (simp add: pm_init ps_init)
  next
    case (snoc i "is")
    then show ?case using pm_next [OF _ discovered [OF free]] by simp
  qed
  then show ?thesis unfolding ex_mgr_def .
qed

lemma ex_mgr_wf: "pm_wf ex_mgr"
  using pm_reachable_inv [OF ex_mgr_reachable] by (simp add: pm_inv_def)

lemma ex_mgr_peers: "peers ex_mgr = [(''c'', 0), (''a'', 1), (''b'', 2)]" "Value (numPeers (pm_counters ex_mgr)) = 3"
  "MaxActivePeers (pm_params ex_mgr) = 2"
  by (simp_all add: ex_mgr_def ex_update_def processDiscoveryUpdate_def new_peer_def setMountEntry_def upd_obj_def
      startPeerManager_def NewCounters_def Let_def)


theorem removePeer_effect_witness:
  "peers (removePeer 5 ''a'' ex_mgr) = [(''c'', 0), (''b'', 2)]
   \<and> Value (numPeers (pm_counters (removePeer 5 ''a'' ex_mgr))) = 1"
  using removePeer_effect [OF ex_mgr_wf, of 5 "''a''"] by (simp add: ex_mgr_peers)


end
