(* ===== verification/Node.thy ===== *)
theory Node
  imports PeerManager
begin

text \<open>
  A node (\<^verbatim>\<open>src/internal/server.go\<close>): \<open>StartNode\<close> with its error returns, the goroutine
  that keeps the advertisement of the node up to date, \<open>Stop\<close> and \<open>DebugString\<close>.
\<close>

section \<open>The advertisement\<close>

text \<open>
  The goroutine \<open>advertise\<close> is about to start an advertisement, waits after a failure,
  watches the status of the server while the advertisement runs, waits for the cancelled
  advertisement to end (\<open>exit\<close> tells whether it goes on), or has returned.
\<close>

datatype adv_pc = AdStart | AdRetry | AdRunning | AdStopping bool | AdExit

text \<open>\<open>ad_started\<close> are the addresses of the advertisements that were started, the last one first.\<close>

record advertiser =
  ad_Addresses :: "string list"
  ad_pc :: adv_pc
  ad_started :: "string list list"

text \<open>\<open>jan\<close> is \<open>naming.JoinAddressName\<close> of an endpoint and the empty name.\<close>

definition addresses :: "(string \<Rightarrow> string) \<Rightarrow> string list \<Rightarrow> string list" where
  "addresses jan endpoints = sort (map jan endpoints)"

definition adv_init :: "(string \<Rightarrow> string) \<Rightarrow> string list \<Rightarrow> advertiser" where
  "adv_init jan endpoints = \<lparr>ad_Addresses = addresses jan endpoints, ad_pc = AdStart, ad_started = []\<rparr>"

definition status_dirty :: "(string \<Rightarrow> string) \<Rightarrow> string list \<Rightarrow> advertiser \<Rightarrow> advertiser" where
  "status_dirty jan endpoints a =
     (let addr = addresses jan endpoints
      in if ad_Addresses a \<noteq> addr then a\<lparr>ad_Addresses := addr, ad_pc := AdStopping False\<rparr> else a)"

inductive adv_step :: "(string \<Rightarrow> string) \<Rightarrow> bool \<Rightarrow> advertiser \<Rightarrow> advertiser \<Rightarrow> bool" for jan ctxDone where
  advertised: "ad_pc a = AdStart \<Longrightarrow> adv_step jan ctxDone a (a\<lparr>ad_pc := AdRunning, ad_started := ad_Addresses a # ad_started a\<rparr>)"
| advertise_failed: "ad_pc a = AdStart \<Longrightarrow> adv_step jan ctxDone a (a\<lparr>ad_pc := AdRetry\<rparr>)"
| retry_done: "ad_pc a = AdRetry \<Longrightarrow> ctxDone \<Longrightarrow> adv_step jan ctxDone a (a\<lparr>ad_pc := AdExit\<rparr>)"
| retry: "ad_pc a = AdRetry \<Longrightarrow> adv_step jan ctxDone a (a\<lparr>ad_pc := AdStart\<rparr>)"
| running_done: "ad_pc a = AdRunning \<Longrightarrow> ctxDone \<Longrightarrow> adv_step jan ctxDone a (a\<lparr>ad_pc := AdStopping True\<rparr>)"
| dirty: "ad_pc a = AdRunning \<Longrightarrow> adv_step jan ctxDone a (status_dirty jan endpoints a)"
| ad_ended: "ad_pc a = AdStopping exit \<Longrightarrow> adv_step jan ctxDone a (a\<lparr>ad_pc := (if exit then AdExit else AdStart)\<rparr>)"

inductive_cases adv_stepE: "adv_step jan ctxDone a a'"

definition adv_inv :: "advertiser \<Rightarrow> bool" where
  "adv_inv a \<longleftrightarrow> sorted (ad_Addresses a)
     \<and> (ad_pc a \<in> {AdRunning, AdStopping True} \<longrightarrow> ad_started a \<noteq> [] \<and> hd (ad_started a) = ad_Addresses a)"

text \<open>
  While an advertisement runs it shows the addresses of the last status that was seen, and a
  status with the same addresses does not restart it.
\<close>

lemma adv_step_inv: "adv_step jan ctxDone a a' \<Longrightarrow> adv_inv a \<Longrightarrow> adv_inv a'"
  by (induction rule: adv_step.induct) (auto simp: adv_inv_def status_dirty_def addresses_def Let_def)

lemma adv_init_inv: "adv_inv (adv_init jan endpoints)"
  by (simp add: adv_inv_def adv_init_def addresses_def)

lemma status_dirty_current:
  "ad_Addresses (status_dirty jan endpoints a) = addresses jan endpoints"
  "ad_Addresses a = addresses jan endpoints \<Longrightarrow> status_dirty jan endpoints a = a"
  by (simp_all add: status_dirty_def Let_def)

section \<open>Starting a node\<close>

record Node =
  n_id :: string
  n_ps :: PubSub
  pms :: "peerManager list"
  n_counters :: Counters

text \<open>
  What the libraries answer: the identifier of the advertisement, the server, the discovery
  instances and their scans.
\<close>

record node_env =
  ParseAdId :: "string \<Rightarrow> err + string"
  NewAdId :: "err + string"
  new_server :: "err option"
  NewDiscovery :: "err option"
  NewWithTTL :: "string \<Rightarrow> duration \<Rightarrow> duration \<Rightarrow> err option"
  Scan :: "nat \<Rightarrow> err option"

text \<open>The advertisers and the managers that were started so far.\<close>

record starting =
  advertisers :: nat
  managers :: "peerManager list"

definition ad_id :: "node_env \<Rightarrow> Params \<Rightarrow> err + string" where
  "ad_id N prms = (if AdvertisementID prms \<noteq> '''' then ParseAdId N (AdvertisementID prms) else NewAdId N)"

definition startDiscovery :: "node_env \<Rightarrow> string \<Rightarrow> PubSub \<Rightarrow> Params \<Rightarrow> Counters \<Rightarrow> err option \<Rightarrow> starting \<Rightarrow> starting \<times> err option" where
  "startDiscovery N i p prms cs disc st =
     (case disc of
        Some er \<Rightarrow> (st, Some er)
      | None \<Rightarrow>
          let k = advertisers st; st = st\<lparr>advertisers := Suc k\<rparr>
          in case Scan N k of
               Some er \<Rightarrow> (st, Some er)
             | None \<Rightarrow> (st\<lparr>managers := managers st @ [startPeerManager i p prms cs]\<rparr>, None))"

fun start_all :: "node_env \<Rightarrow> string \<Rightarrow> PubSub \<Rightarrow> Params \<Rightarrow> Counters \<Rightarrow> err option list \<Rightarrow> starting \<Rightarrow> starting \<times> err option" where
  "start_all N i p prms cs [] st = (st, None)"
| "start_all N i p prms cs (d # ds) st =
     (case startDiscovery N i p prms cs d st of
        (st, Some er) \<Rightarrow> (st, Some er)
      | (st, None) \<Rightarrow> start_all N i p prms cs ds st)"

definition discoveries :: "node_env \<Rightarrow> Params \<Rightarrow> err option list" where
  "discoveries N prms = (if EnableLocalDiscovery prms then [NewDiscovery N] else [])
     @ map (\<lambda>path. NewWithTTL N path (MountTTL prms) (ScanInterval prms)) (GlobalDiscoveryPaths prms)"

definition StartNode :: "node_env \<Rightarrow> Params \<Rightarrow> starting \<times> (err + Node)" where
  "StartNode N prms =
     (let p = newPubSub; st = \<lparr>advertisers = 0, managers = []\<rparr>
      in case ad_id N prms of
           Inl er \<Rightarrow> (st, Inl er)
         | Inr i \<Rightarrow>
             (case new_server N of
                Some er \<Rightarrow> (st, Inl er)
              | None \<Rightarrow>
                  (case start_all N i p prms NewCounters (discoveries N prms) st of
                     (st, Some er) \<Rightarrow> (st, Inl er)
                   | (st, None) \<Rightarrow> (st, Inr \<lparr>n_id = i, n_ps = p, pms = managers st, n_counters = NewCounters\<rparr>))))"

text \<open>\<open>Stop\<close> cancels the context; the goroutines then end on their own.\<close>

definition Stop :: "Node \<Rightarrow> Node" where
  "Stop n = n\<lparr>n_ps := (n_ps n)\<lparr>ctx_done := True\<rparr>\<rparr>"

text \<open>The accessors that the applications use.\<close>

definition node_Id :: "Node \<Rightarrow> string" where
  "node_Id n = n_id n"

definition node_PubSub :: "Node \<Rightarrow> PubSub" where
  "node_PubSub n = n_ps n"

definition DebugString :: "Node \<Rightarrow> string" where
  "DebugString n = join '', '' (map pm_debugString (pms n)
     @ [''Counters: num-peers:'' @ itoa (Value (numPeers (n_counters n)))
        @ '' num-messages-sent:'' @ itoa (Value (numMessagesSent (n_counters n)))
        @ '' num-bytes-sent:'' @ itoa (Value (numBytesSent (n_counters n)))
        @ '' num-messages-received:'' @ itoa (Value (numMessagesReceived (n_counters n)))
        @ '' num-bytes-received:'' @ itoa (Value (numBytesReceived (n_counters n)))])"

section \<open>What a started node has\<close>

lemma start_all_ok:
  "start_all N i p prms cs ds st = (st', None) \<Longrightarrow>
    managers st' = managers st @ replicate (length ds) (startPeerManager i p prms cs)
    \<and> advertisers st' = advertisers st + length ds \<and> (\<forall>d \<in> set ds. d = None)"
proof (induction ds arbitrary: st)
  case (Cons d ds)
  obtain st1 where s: "startDiscovery N i p prms cs d st = (st1, None)" "start_all N i p prms cs ds st1 = (st', None)"
    using Cons.prems by (auto split: prod.splits option.splits)
  have "managers st1 = managers st @ [startPeerManager i p prms cs]" "advertisers st1 = Suc (advertisers st)" "d = None"
    using s(1) by (auto simp: startDiscovery_def Let_def split: option.splits)
  with Cons.IH [OF s(2)] show ?case by simp
qed simp

text \<open>
  A started node has one manager per discovery, all with the identifier that it advertises,
  without peers, and with invariants that hold from the start.
\<close>

lemma StartNode_ok:
  assumes "StartNode N prms = (st, Inr n)"
  shows "length (pms n) = (if EnableLocalDiscovery prms then 1 else 0) + length (GlobalDiscoveryPaths prms)
    \<and> advertisers st = length (pms n) \<and> ad_id N prms = Inr (n_id n)
    \<and> (\<forall>pm \<in> set (pms n). pm_id pm = n_id n \<and> peers pm = [] \<and> pm_reachable L pm)"
proof -
  obtain i st' where i: "ad_id N prms = Inr i" "n_id n = i"
    and s: "start_all N i newPubSub prms NewCounters (discoveries N prms) \<lparr>advertisers = 0, managers = []\<rparr> = (st', None)"
    and n: "pms n = managers st'" "st = st'"
    using assms by (auto simp: StartNode_def Let_def split: sum.splits option.splits prod.splits)
  have m: "managers st' = replicate (length (discoveries N prms)) (startPeerManager i newPubSub prms NewCounters)"
    "advertisers st' = length (discoveries N prms)" using start_all_ok [OF s] by simp_all
  have "pm_reachable L (startPeerManager i newPubSub prms NewCounters)" by (rule pm_init [OF ps_init])
  with i m n show ?thesis by (auto simp: discoveries_def startPeerManager_def)
qed

text \<open>
  An error of a later discovery is returned although the advertisers and managers of the
  earlier ones run already, and nothing cancels their context.
\<close>

lemma StartNode_error_leaves_advertisers:
  assumes "ad_id N prms = Inr i" and "new_server N = None" and "discoveries N prms = [None, Some er]" and "Scan N 0 = None"
  shows "\<exists>st. StartNode N prms = (st, Inl er) \<and> advertisers st = 1 \<and> length (managers st) = 1"
  using assms by (simp add: StartNode_def startDiscovery_def Let_def)

end
