(* ===== verification/Chat.thy ===== *)
theory Chat
  imports Util StorageProps
begin

text \<open>
  The chat application (\<^verbatim>\<open>src/vmsg/chat.go\<close>): the encryption of a text with an optional
  attachment into the content of a message, the creation and publication of the message,
  and the commands and the display of received messages.

  \<open>chat_lib\<close> collects what comes from the packages \<^verbatim>\<open>compress/gzip\<close> and
  \<^verbatim>\<open>mime/multipart\<close> and from the Vanadium principal, \<open>ui\<close> what only decides how things
  look (colours, the clock of the local time zone, floating-point numbers).
\<close>

section \<open>Libraries and configuration\<close>

datatype gz_err = GzHeader | GzOther err

text \<open>A parsed form: the values of a field, and the files of a field with their names.\<close>

record form =
  form_value :: "string \<Rightarrow> string list"
  form_file :: "string \<Rightarrow> (string \<times> bytes) list"

text \<open>
  \<open>gzip level extra data\<close> is a complete compressed stream, \<open>gz_open\<close> the header field and
  the data with the error the data ends with; \<open>new_form boundary text file\<close> is a complete
  multipart body with the field \<open>text\<close> and a file \<open>attachment\<close>, and \<open>read_form\<close> its reader.
\<close>

record chat_lib =
  gzip :: "int \<Rightarrow> bytes \<Rightarrow> bytes \<Rightarrow> bytes"
  gz_open :: "bytes \<Rightarrow> gz_err + bytes \<times> bytes \<times> err option"
  new_form :: "bytes \<Rightarrow> string \<Rightarrow> (string \<times> bytes) option \<Rightarrow> bytes"
  read_form :: "bytes \<Rightarrow> bytes \<times> err option \<Rightarrow> err + form"
  default_blessings :: blessings
  PrepareDischarges :: "blessings \<Rightarrow> (string \<times> discharge) list \<times> time"
  Sign :: "bytes \<Rightarrow> err + signature"

record chat_conf =
  encryptionKey :: string
  defaultEncryptionKey :: string
  compressionLevel :: int
  incomingDir :: string

text \<open>
  The calls that may fail, in the order of the code, and what they return besides: the
  random vector and boundary, the name of the temporary file, the bytes that had reached a
  file and the pieces that were copied when a later step failed, the identifier and the times of a new message.
\<close>

datatype chat_op = OpTempFile | OpRand | OpWriteIV | OpGzipLevel | OpWriteField | OpFormFile | OpCopyAttachment
  | OpCloseForm | OpCloseGzip | OpReadFile | OpOpenFile | OpReadCopy | OpCloseFile | OpOpenPart | OpCreate | OpCopyPart

record chat_env =
  op_err :: "chat_op \<Rightarrow> err option"
  rand_iv :: bytes
  boundary :: bytes
  tmp_name :: string
  junk :: bytes
  copied :: nat
  uuid :: string
  t_created :: time
  t_expiry :: time

section \<open>Encryption\<close>

text \<open>
  The content of the temporary file once everything was written and closed.  The pieces in
  which the compressor writes do not matter (lemma \<open>sw_writes\<close>), so there is one.
\<close>

definition attachment_part :: "chat_env \<Rightarrow> disk \<Rightarrow> string \<Rightarrow> err + (string \<times> bytes) option" where
  "attachment_part x D attachment =
     (if attachment = '''' then Inr None
      else guard (op_err x OpFormFile) (
           and_then (os_Open D attachment) (\<lambda>b.
           guard (op_err x OpCopyAttachment) (
           Inr (Some (Base attachment, b))))))"

definition encrypt_content :: "chat_lib \<Rightarrow> chat_conf \<Rightarrow> chat_env \<Rightarrow> disk \<Rightarrow> string \<Rightarrow> string \<Rightarrow> err + bytes" where
  "encrypt_content L C x D text attachment =
     and_then (aesEncoder (encryptionKey C)
         (case op_err x OpRand of Some er \<Rightarrow> Inl er | None \<Rightarrow> Inr (rand_iv x)) (op_err x OpWriteIV) []) (\<lambda>enc.
     guard (op_err x OpGzipLevel) (
     guard (op_err x OpWriteField) (
     and_then (attachment_part x D attachment) (\<lambda>part.
     guard (op_err x OpCloseForm) (
     guard (op_err x OpCloseGzip) (
     Inr (sw_W (sw_Write (gzip L (compressionLevel C) (boundary x) (new_form L (boundary x) text part)) enc))))))))"

definition encryptChatMessage :: "chat_lib \<Rightarrow> chat_conf \<Rightarrow> chat_env \<Rightarrow> disk \<Rightarrow> string \<Rightarrow> string \<Rightarrow> disk \<times> (err + string)" where
  "encryptChatMessage L C x D text attachment =
     (case op_err x OpTempFile of
        Some er \<Rightarrow> (D, Inl er)
      | None \<Rightarrow>
          (case encrypt_content L C x D text attachment of
             Inl er \<Rightarrow> (put_file (tmp_name x) (junk x) D, Inl er)
           | Inr b \<Rightarrow> (put_file (tmp_name x) b D, Inr (tmp_name x))))"

text \<open>\<open>os.OpenFile\<close> with \<open>O_CREATE|O_EXCL\<close>, and the copy of the attachment into it.\<close>

definition save_attachment :: "chat_env \<Rightarrow> disk \<Rightarrow> string \<Rightarrow> string \<times> bytes \<Rightarrow> disk \<times> (err + string)" where
  "save_attachment x D dir a =
     (case op_err x OpOpenPart of
        Some er \<Rightarrow> (D, Inl er)
      | None \<Rightarrow>
          let filename = Join dir (Base (fst a))
          in if files D filename \<noteq> None \<or> filename \<in> dirs D then (D, Inl (ErrOS ''file exists''))
             else case op_err x OpCreate of
               Some er \<Rightarrow> (D, Inl er)
             | None \<Rightarrow>
                 (case op_err x OpCopyPart of
                    Some er \<Rightarrow> (put_file filename (junk x) D, Inl er)
                  | None \<Rightarrow> (put_file filename (snd a) D, Inr filename)))"

definition decryptChatMessage :: "chat_lib \<Rightarrow> chat_conf \<Rightarrow> chat_env \<Rightarrow> disk \<Rightarrow> bytes \<Rightarrow> string \<Rightarrow> disk \<times> (err + string \<times> string)" where
  "decryptChatMessage L C x D content dir =
     (case aesDecoder (encryptionKey C) content of
        Inl er \<Rightarrow> (D, Inl er)
      | Inr sr \<Rightarrow>
     (case gz_open L (snd (sr_Read (length (sr_R sr)) sr)) of
        Inl GzHeader \<Rightarrow> (D, Inl (ErrOS ''incorrect key''))
      | Inl (GzOther er) \<Rightarrow> (D, Inl er)
      | Inr (extra, body) \<Rightarrow>
     (case read_form L extra body of
        Inl er \<Rightarrow> (D, Inl er)
      | Inr form \<Rightarrow>
          let text = (case form_value form ''text'' of [t] \<Rightarrow> t | _ \<Rightarrow> '''')
          in case form_file form ''attachment'' of
               [a] \<Rightarrow> (case save_attachment x D dir a of
                         (D, Inl er) \<Rightarrow> (D, Inl er)
                       | (D, Inr filename) \<Rightarrow> (D, Inr (text, filename)))
             | _ \<Rightarrow> (D, Inr (text, '''')))))"

section \<open>Sending\<close>

text \<open>
  The part of the node that the application uses: the store, what was published, the local
  files, the identifier of the node, and the text of the view \<open>history\<close>, if it exists.
\<close>

record app =
  a_store :: storage
  published :: "message list"
  a_disk :: disk
  node_id :: string
  view_text :: "string option"

definition minute :: duration where
  "minute = 60 * second"

text \<open>The message before it is signed.\<close>

definition prepare_message :: "chat_lib \<Rightarrow> chat_env \<Rightarrow> message \<Rightarrow> message" where
  "prepare_message L x msg =
     (let (ds, expiry) = PrepareDischarges L (default_blessings L);
          d = Sub expiry (t_expiry x)
      in msg\<lparr>SenderBlessings := default_blessings L, SenderDischarges := ds,
             Lifespan := (if \<not> IsZero expiry \<and> d < 15 * minute then d else 15 * minute)\<rparr>)"

text \<open>
  \<open>sendMessage\<close> from the creation of the message on; the file is copied in pieces of 32
  kilobytes.  The error returns between \<open>OpenWrite\<close> and \<open>Close\<close> leave the writer open.
\<close>

definition store_message :: "codec \<Rightarrow> env \<Rightarrow> chat_env \<Rightarrow> app \<Rightarrow> message \<Rightarrow> string \<Rightarrow> app \<times> err option" where
  "store_message v e x a msg file =
     (case OpenWrite v e (a_store a) msg 0 of
        (s, Inl er) \<Rightarrow> (a\<lparr>a_store := s\<rparr>, Some er)
      | (s, Inr w) \<Rightarrow>
     (case guard (op_err x OpOpenFile) (os_Open (a_disk a) file) of
        Inl er \<Rightarrow> (a\<lparr>a_store := s\<rparr>, Some er)
      | Inr b \<Rightarrow>
     (case write_all (Write e) s w
             (if op_err x OpReadCopy = None then chunks 32768 b else take (copied x) (chunks 32768 b)) of
        (s, w, Some er) \<Rightarrow> (a\<lparr>a_store := s\<rparr>, Some er)
      | (s, w, None) \<Rightarrow>
     (case op_err x OpReadCopy of
        Some er \<Rightarrow> (a\<lparr>a_store := s\<rparr>, Some er)
      | None \<Rightarrow>
     (case op_err x OpCloseFile of
        Some er \<Rightarrow> (a\<lparr>a_store := s\<rparr>, Some er)
      | None \<Rightarrow>
     (case Close e s w of
        (s, Some er) \<Rightarrow> (a\<lparr>a_store := s\<rparr>, Some er)
      | (s, None) \<Rightarrow> (a\<lparr>a_store := s, published := published a @ [msg]\<rparr>, None)))))))"

definition sign_message :: "chat_lib \<Rightarrow> message \<Rightarrow> err + message" where
  "sign_message L msg = and_then (Sign L (Hash msg)) (\<lambda>sg. Inr (msg\<lparr>Signature := sg\<rparr>))"

definition sendMessage :: "codec \<Rightarrow> chat_lib \<Rightarrow> chat_conf \<Rightarrow> env \<Rightarrow> chat_env \<Rightarrow> app \<Rightarrow> string \<Rightarrow> string \<Rightarrow> app \<times> err option" where
  "sendMessage v L C e x a txt fname =
     (case encryptChatMessage L C x (a_disk a) txt fname of
        (D, Inl er) \<Rightarrow> (a\<lparr>a_disk := D\<rparr>, Some er)
      | (D, Inr encryptedFile) \<Rightarrow>
          let (a, er) =
            (case and_then (NewMessageFromFile D (op_err x OpReadFile) (uuid x) (t_created x) encryptedFile)
                    (\<lambda>msg. sign_message L (prepare_message L x msg)) of
               Inl er \<Rightarrow> (a\<lparr>a_disk := D\<rparr>, Some er)
             | Inr msg \<Rightarrow> store_message v e x (a\<lparr>a_disk := D\<rparr>) msg encryptedFile)
          in (a\<lparr>a_disk := remove_file encryptedFile (a_disk a)\<rparr>, er))"

section \<open>Display\<close>

record ui =
  red :: "string \<Rightarrow> string"
  green :: "string \<Rightarrow> string"
  white :: "string \<Rightarrow> string"
  yellow :: "string \<Rightarrow> string"
  clock :: "time \<Rightarrow> string"
  secs :: "nat \<Rightarrow> duration \<Rightarrow> string"
  show_err :: "err \<Rightarrow> string"
  show_blessings :: "blessings \<Rightarrow> string"
  debug_string :: string

text \<open>\<open>secs n d\<close> is \<open>d.Seconds()\<close> printed with two digits after the point, at least \<open>n\<close> wide.\<close>

definition print_view :: "string \<Rightarrow> app \<Rightarrow> app" where
  "print_view s a = a\<lparr>view_text := map_option (\<lambda>t. t @ s) (view_text a)\<rparr>"

definition printErrorf :: "ui \<Rightarrow> string \<Rightarrow> app \<Rightarrow> app" where
  "printErrorf U s a = print_view (red U s) a"

definition clear_view :: "app \<Rightarrow> app" where
  "clear_view a = a\<lparr>view_text := map_option (\<lambda>_. '''') (view_text a)\<rparr>"

definition newline :: string where
  "newline = [CHR 0x0A]"

definition help_text :: "ui \<Rightarrow> chat_conf \<Rightarrow> string" where
  "help_text U C =
     ''***'' @ newline
     @ ''*** Welcome to Vanadium Peer to Peer Chat'' @ newline
     @ ''*** https://github.com/vanadium/messenger'' @ newline
     @ ''***'' @ newline
     @ ''*** '' @ red U ''This is a demo application.'' @ newline
     @ ''***'' @ newline
     @ (if encryptionKey C = defaultEncryptionKey C
        then ''*** '' @ red U ''Messages are encrypted with the default key. They are NOT private.'' @ newline else '''')
     @ ''***'' @ newline
     @ ''*** Messages are stored and relayed peer-to-peer for 15 minutes after they are'' @ newline
     @ ''*** created. New peers will see up to 15 minutes of history when they join.'' @ newline
     @ ''***'' @ newline
     @ ''*** Available commands are:'' @ newline
     @ ''***   /clear to clear this window'' @ newline
     @ ''***   /debug to show the local node's debug information'' @ newline
     @ ''***   /help to show this help message'' @ newline
     @ ''***   /history to show the message history'' @ newline
     @ ''***   /ping to send a ping'' @ newline
     @ ''***   /quit to exit'' @ newline
     @ ''***   /share <filename> to share a file'' @ newline
     @ ''***'' @ newline
     @ ''*** Type /quit or press Ctrl-C to exit.'' @ newline
     @ ''***'' @ newline"

definition pad_left :: "nat \<Rightarrow> string \<Rightarrow> string" where
  "pad_left n s = replicate (n - length s) CHR '' '' @ s"

definition ctrl :: "string \<Rightarrow> string" where
  "ctrl s = CHR 0x01 # s"

text \<open>The prefix and the sender of a displayed message at the time \<open>t\<close>.\<close>

definition msg_prefix :: "ui \<Rightarrow> time \<Rightarrow> message \<Rightarrow> string" where
  "msg_prefix U t msg = white U (clock U (CreationTime msg) @ '' '' @ pad_left 2 (itoa (int (length (Hops msg))))
     @ '' '' @ secs U 5 (Sub t (CreationTime msg)) @ ''s'')"

definition msg_sender :: "ui \<Rightarrow> message \<Rightarrow> string" where
  "msg_sender U msg = green U (show_blessings U (SenderBlessings msg))"

text \<open>The \<open>switch\<close> of \<open>handleMessage\<close>; \<open>Inl\<close> is the early return for a reply that is not ours.\<close>

definition handle_text :: "codec \<Rightarrow> chat_lib \<Rightarrow> chat_conf \<Rightarrow> ui \<Rightarrow> env \<Rightarrow> chat_env \<Rightarrow> app \<Rightarrow> message \<Rightarrow> string \<Rightarrow> app + app" where
  "handle_text v L C U e x a msg msgText =
     (let p = msg_prefix U (now e) msg; sender = msg_sender U msg; ping = green U ''PING''
      in if HasPrefix msgText (ctrl ''PING'') then
           (let a = print_view (p @ '' '' @ ping @ '' from '' @ sender @ newline) a;
                (a, er) = sendMessage v L C e x a (ctrl ''PONG'' @ drop 5 msgText) ''''
            in Inr (case er of
                 Some er \<Rightarrow> printErrorf U (''*** Unable to send ping reply: '' @ show_err U er) a
               | None \<Rightarrow> a))
         else if HasPrefix msgText (ctrl ''PONG '') then
           (let ps = Split CHR '' '' msgText
            in if length ps \<noteq> 3 \<or> ps ! 1 \<noteq> node_id a then Inl a
               else Inr (case ParseInt (ps ! 2) of
                 None \<Rightarrow> a
               | Some i \<Rightarrow> print_view (p @ '' '' @ ping @ '' reply from '' @ sender @ '': ''
                             @ secs U 0 (Sub (now e) i) @ ''s'' @ newline) a))
         else Inr (print_view (p @ '' <'' @ sender @ ''> '' @ yellow U msgText @ newline) a))"

definition handleMessage :: "codec \<Rightarrow> chat_lib \<Rightarrow> chat_conf \<Rightarrow> ui \<Rightarrow> env \<Rightarrow> chat_env \<Rightarrow> app \<Rightarrow> message \<Rightarrow> app" where
  "handleMessage v L C U e x a msg =
     (case OpenRead v e (a_store a) (Id msg) of
        (s, Inl er) \<Rightarrow> a\<lparr>a_store := s\<rparr>
      | (s, Inr (_, r)) \<Rightarrow>
          (case decryptChatMessage L C x (a_disk a) (read_rest s r) (incomingDir C) of
             (D, Inl er) \<Rightarrow> printErrorf U (''*** Unable to handle message: '' @ show_err U er @ newline)
                              (a\<lparr>a_store := s, a_disk := D\<rparr>)
           | (D, Inr (msgText, filename)) \<Rightarrow>
               let a = a\<lparr>a_store := s, a_disk := D\<rparr>
               in case (if msgText \<noteq> '''' then handle_text v L C U e x a msg msgText else Inr a) of
                    Inl a \<Rightarrow> a
                  | Inr a \<Rightarrow>
                      if filename \<noteq> '''' then
                        print_view (msg_prefix U (now e) msg @ '' Received shared file from '' @ msg_sender U msg @ '': ''
                          @ yellow U filename @ newline) a
                      else a))"

text \<open>
  \<open>history\<close>: \<open>srt\<close> is \<open>sort.Sort\<close> with the order \<open>Less\<close>, which compares creation times;
  the environments of the calls follow each other.
\<close>

definition Less :: "message \<Rightarrow> message \<Rightarrow> bool" where
  "Less m m' \<longleftrightarrow> CreationTime m < CreationTime m'"

fun handle_all :: "codec \<Rightarrow> chat_lib \<Rightarrow> chat_conf \<Rightarrow> ui \<Rightarrow> (nat \<Rightarrow> env \<times> chat_env) \<Rightarrow> nat \<Rightarrow> message list \<Rightarrow> app \<Rightarrow> app" where
  "handle_all v L C U X n [] a = a"
| "handle_all v L C U X n (m # ms) a =
     handle_all v L C U X (Suc n) ms (handleMessage v L C U (fst (X n)) (snd (X n)) a m)"

definition history :: "codec \<Rightarrow> chat_lib \<Rightarrow> chat_conf \<Rightarrow> ui \<Rightarrow> env \<Rightarrow> (nat \<Rightarrow> env \<times> chat_env) \<Rightarrow>
    (message list \<Rightarrow> message list) \<Rightarrow> app \<Rightarrow> app" where
  "history v L C U e X srt a =
     (case Manifest v e (a_store a) of
        Inl er \<Rightarrow> a
      | Inr ms \<Rightarrow> handle_all v L C U X 0 (srt ms) a)"

section \<open>Commands\<close>

definition ErrQuit :: err where
  "ErrQuit = ErrOS ''quit''"

definition send_input :: "codec \<Rightarrow> chat_lib \<Rightarrow> chat_conf \<Rightarrow> ui \<Rightarrow> env \<Rightarrow> chat_env \<Rightarrow> app \<Rightarrow> string \<Rightarrow> string \<Rightarrow> app \<times> err option" where
  "send_input v L C U e x a m fname =
     (case sendMessage v L C e x a m fname of
        (a, Some er) \<Rightarrow> (printErrorf U (''*** Unable to send message: '' @ show_err U er @ newline) a, None)
      | (a, None) \<Rightarrow> (a, None))"

definition debug_view :: "ui \<Rightarrow> app \<Rightarrow> app" where
  "debug_view U a = print_view (''*** '' @ debug_string U @ newline) a"

definition handleInput :: "codec \<Rightarrow> chat_lib \<Rightarrow> chat_conf \<Rightarrow> ui \<Rightarrow> env \<Rightarrow> (nat \<Rightarrow> env \<times> chat_env) \<Rightarrow>
    (message list \<Rightarrow> message list) \<Rightarrow> chat_env \<Rightarrow> app \<Rightarrow> string \<Rightarrow> app \<times> err option" where
  "handleInput v L C U e X srt x a m =
     (if m = '''' then (a, None)
      else if m = ''/debug'' then (debug_view U a, None)
      else if m = ''/clear'' then (clear_view a, None)
      else if m = ''/help'' then (print_view (help_text U C) a, None)
      else if m = ''/history'' then (history v L C U e X srt a, None)
      else if m = ''/ping'' then
        send_input v L C U e x a (ctrl ''PING '' @ node_id a @ '' '' @ itoa (now e)) ''''
      else if m = ''/quit'' then (a, Some ErrQuit)
      else if HasPrefix m ''/share'' then
        (let fname = TrimSpace (drop 6 m)
         in send_input v L C U e x (print_view (''*** Sharing '' @ fname @ newline) a) '''' fname)
      else if HasPrefix m ''/'' then (printErrorf U (''*** Unknown command '' @ m @ newline) a, None)
      else send_input v L C U e x a m '''')"

text \<open>\<open>loop\<close>: the help, the history, and then the messages of the subscription, in order.\<close>

definition app_loop :: "codec \<Rightarrow> chat_lib \<Rightarrow> chat_conf \<Rightarrow> ui \<Rightarrow> env \<Rightarrow> (nat \<Rightarrow> env \<times> chat_env) \<Rightarrow>
    (message list \<Rightarrow> message list) \<Rightarrow> (nat \<Rightarrow> env \<times> chat_env) \<Rightarrow> message list \<Rightarrow> app \<Rightarrow> app" where
  "app_loop v L C U e X srt Y msgs a =
     handle_all v L C U Y 0 msgs (history v L C U e X srt (print_view (help_text U C) a))"

section \<open>What the libraries promise\<close>

text \<open>
  A compressed stream with a valid level gives its header field and its data back.  A form is
  read back when the random boundary does not occur in it, the name of the file is printable,
  and the text is below the limit of \<open>ReadForm\<close>.
\<close>

definition gzip_ok :: "chat_lib \<Rightarrow> bool" where
  "gzip_ok L \<longleftrightarrow> (\<forall>level extra d. - 1 \<le> level \<and> level \<le> 9 \<and> length extra < 2 ^ 16 \<longrightarrow>
     gz_open L (gzip L level extra d) = Inr (extra, d, None))"

definition fits :: "bytes \<Rightarrow> string \<Rightarrow> (string \<times> bytes) option \<Rightarrow> bool" where
  "fits b t part \<longleftrightarrow> b \<noteq> [] \<and> \<not> sublist b t \<and> length t \<le> 10 * 2 ^ 20
     \<and> (case part of None \<Rightarrow> True | Some (n, c) \<Rightarrow>
          \<not> sublist b c \<and> list_all (\<lambda>ch. 32 \<le> (of_char ch :: nat) \<and> (of_char ch :: nat) < 127) n)"

definition multipart_ok :: "chat_lib \<Rightarrow> bool" where
  "multipart_ok L \<longleftrightarrow> (\<forall>b t part. fits b t part \<longrightarrow>
     read_form L b (new_form L b t part, None) =
       Inr \<lparr>form_value = (\<lambda>k. if k = ''text'' then [t] else []),
            form_file = (\<lambda>k. if k = ''attachment'' then (case part of None \<Rightarrow> [] | Some p \<Rightarrow> [p]) else [])\<rparr>)"

definition calm :: "chat_env \<Rightarrow> bool" where
  "calm x \<longleftrightarrow> (\<forall>op. op_err x op = None)"

section \<open>Received files\<close>

lemma save_attachment_new:
  assumes "save_attachment x D dir a = (D', r)" and "Join dir ` {''.'', ''..'', ''/''} \<subseteq> dirs D"
    and "files D' p \<noteq> files D p"
  shows "files D p = None \<and> p = Join dir (Base (fst a)) \<and> plain_name (Base (fst a))"
proof -
  let ?f = "Join dir (Base (fst a))"
  have "p = ?f \<and> files D ?f = None \<and> ?f \<notin> dirs D"
    using assms(1,3) by (auto simp: save_attachment_def Let_def split: option.splits if_splits)
  with assms(2) Base_cases [of "fst a"] show ?thesis by auto
qed

text \<open>The effect of a received message on the local files.\<close>

lemma decryptChatMessage_files:
  assumes "decryptChatMessage L C x D content dir = (D', r)" and "Join dir ` {''.'', ''..'', ''/''} \<subseteq> dirs D"
  shows "dirs D' = dirs D \<and> (\<exists>n. plain_name n \<and> (\<forall>p. files D' p \<noteq> files D p \<longrightarrow> files D p = None \<and> p = Join dir n))"
proof -
  consider "D' = D" | a r' where "save_attachment x D dir a = (D', r')"
    using assms(1) unfolding decryptChatMessage_def Let_def
    by (auto split: sum.splits prod.splits list.splits gz_err.splits if_splits)
  then show ?thesis
  proof cases
    case 1
    then show ?thesis by (intro conjI exI [of _ "''x''"]) (simp_all add: plain_name_def)
  next
    case 2
    have "dirs D' = dirs D" using 2 by (auto simp: save_attachment_def Let_def split: option.splits if_splits)
    moreover have "\<exists>n. plain_name n \<and> (\<forall>p. files D' p \<noteq> files D p \<longrightarrow> files D p = None \<and> p = Join dir n)"
    proof (cases "plain_name (Base (fst a))")
      case True
      then show ?thesis using save_attachment_new [OF 2 assms(2)] by blast
    next
      case False
      then have "files D' p = files D p" for p using save_attachment_new [OF 2 assms(2)] by blast
      then show ?thesis by (intro exI [of _ "''x''"]) (simp add: plain_name_def)
    qed
    ultimately show ?thesis by blast
  qed
qed

text \<open>
  A received message never changes an existing file.  It creates at most one file, with
  a plain name directly in the directory for incoming files, whatever name the sender chose.
\<close>

theorem decryptChatMessage_new_file:
  assumes "decryptChatMessage L C x D content dir = (D', r)" and "Join dir ` {''.'', ''..'', ''/''} \<subseteq> dirs D"
  shows "dirs D' = dirs D \<and> (\<exists>n. plain_name n \<and> (\<forall>p. files D' p \<noteq> files D p \<longrightarrow> files D p = None \<and> p = Join dir n))"
  using assms by (rule decryptChatMessage_files)

section \<open>What is sent can be read\<close>

definition sealed :: "chat_lib \<Rightarrow> chat_conf \<Rightarrow> chat_env \<Rightarrow> string \<Rightarrow> (string \<times> bytes) option \<Rightarrow> bytes" where
  "sealed L C x txt part = encrypted (encryptionKey C) (rand_iv x)
     (gzip L (compressionLevel C) (boundary x) (new_form L (boundary x) txt part))"

lemma encryptChatMessage_sealed:
  assumes "calm x" and "attachment_part x D fname = Inr part"
  shows "encryptChatMessage L C x D txt fname = (put_file (tmp_name x) (sealed L C x txt part) D, Inr (tmp_name x))"
proof -
  obtain w where w: "aesEncoder (encryptionKey C) (Inr (rand_iv x)) None [] = Inr w"
    "\<And>d. sw_W (sw_Write d w) = encrypted (encryptionKey C) (rand_iv x) d"
    using aesEncoder_writes [of "encryptionKey C" "rand_iv x" "[_]"] by (fastforce simp: aesEncoder_def NewCipher_hash)
  with assms show ?thesis by (simp add: encryptChatMessage_def encrypt_content_def calm_def sealed_def)
qed

text \<open>What the receiver does with the attachment.\<close>

definition received :: "string \<Rightarrow> (string \<times> bytes) option \<Rightarrow> string \<Rightarrow> disk \<Rightarrow> disk \<times> (err + string \<times> string)" where
  "received txt part dir D =
     (case part of
        None \<Rightarrow> (D, Inr (txt, ''''))
      | Some (n, b) \<Rightarrow>
          let f = Join dir (Base n)
          in if files D f \<noteq> None \<or> f \<in> dirs D then (D, Inl (ErrOS ''file exists''))
             else (put_file f b D, Inr (txt, f)))"

lemma decryptChatMessage_sealed:
  assumes "gzip_ok L" and "multipart_ok L" and "fits (boundary x) txt part" and "length (rand_iv x) = 16"
    and "- 1 \<le> compressionLevel C" and "compressionLevel C \<le> 9" and "length (boundary x) < 2 ^ 16" and "calm y"
  shows "decryptChatMessage L C y D (sealed L C x txt part) dir = received txt part dir D"
proof -
  let ?d = "gzip L (compressionLevel C) (boundary x) (new_form L (boundary x) txt part)"
  obtain r where r: "aesDecoder (encryptionKey C) (sealed L C x txt part) = Inr r" "length (sr_R r) = length ?d"
    "snd (sr_reads [length ?d] r) = ?d"
    using aesDecoder_reads [OF assms(4), of ?d "[length ?d]" "encryptionKey C"] by (auto simp: sealed_def)
  then have "snd (sr_Read (length (sr_R r)) r) = ?d" by (simp add: Let_def case_prod_unfold)
  moreover have "gz_open L ?d = Inr (boundary x, new_form L (boundary x) txt part, None)"
    using assms(1,5-7) by (simp add: gzip_ok_def)
  moreover note r(1) assms(2,3,8)
  ultimately show ?thesis
    by (cases part) (auto simp: decryptChatMessage_def multipart_ok_def received_def save_attachment_def calm_def Let_def)
qed

lemma store_message_completes:
  assumes "fs_idle v e (a_store a) (Id msg)" and "fs_view v (a_store a) (Id msg) = Absent" and "calm x"
    and "files (a_disk a) file = Some b" and "Length msg = int (length b)" and "Sha256 msg = sha256 b"
  shows "\<exists>s. store_message v e x a msg file = (a\<lparr>a_store := s, published := published a @ [msg]\<rparr>, None)
    \<and> fs_idle v e s (Id msg) \<and> fs_view v s (Id msg) = Complete msg b"
proof -
  obtain s1 w1 s2 w2 where a: "OpenWrite v e (a_store a) msg 0 = (s1, Inr w1)"
    "write_all (Write e) s1 w1 (chunks 32768 b) = (s2, w2, None)" "fs_writing v e s2 w2 msg msg b"
    using fstore.transfer [OF assms(1), of "[]" msg "chunks 32768 b"] assms(2) by auto
  obtain s3 where "Close e s2 w2 = (s3, None)" "fs_idle v e s3 (Id msg)" "fs_view v s3 (Id msg) = Complete msg b"
    using fs_close_complete [OF a(3)] assms(5,6) by auto
  with a assms(3,4) show ?thesis by (intro exI [of _ s3]) (simp add: store_message_def calm_def os_Open_def)
qed

lemma Hash_Signature [simp]: "Hash (msg\<lparr>Signature := sg\<rparr>) = Hash msg"
  by (simp add: Hash_def hash_input_def)

lemma prepare_message_fields [simp]:
  "Id (prepare_message L x m) = Id m" "Length (prepare_message L x m) = Length m" "Sha256 (prepare_message L x m) = Sha256 m"
  "SenderBlessings (prepare_message L x m) = default_blessings L" "Lifespan (prepare_message L x m) \<le> 15 * minute"
  "CreationTime (prepare_message L x m) = CreationTime m"
  by (simp_all add: prepare_message_def Let_def split: prod.split)

text \<open>A signature scheme: what the principal signs verifies with the key of its blessings.\<close>

definition signs :: "chat_lib \<Rightarrow> (blessings \<Rightarrow> public_key option) \<Rightarrow> (signature \<Rightarrow> public_key option \<Rightarrow> bytes \<Rightarrow> bool) \<Rightarrow> bool" where
  "signs L pk verify \<longleftrightarrow> (\<forall>h. \<exists>sg. Sign L h = Inr sg \<and> verify sg (pk (default_blessings L)) h)"

definition sends :: "chat_lib \<Rightarrow> chat_conf \<Rightarrow> chat_env \<Rightarrow> disk \<Rightarrow> string \<Rightarrow> string \<Rightarrow> (string \<times> bytes) option \<Rightarrow> bool" where
  "sends L C x D txt fname part \<longleftrightarrow> calm x \<and> length (rand_iv x) = 16 \<and> length (boundary x) < 2 ^ 16
     \<and> - 1 \<le> compressionLevel C \<and> compressionLevel C \<le> 9
     \<and> attachment_part x D fname = Inr part \<and> fits (boundary x) txt part"

text \<open>The message that is sent, but for the value of its signature.\<close>

definition chat_message :: "chat_lib \<Rightarrow> chat_conf \<Rightarrow> chat_env \<Rightarrow> string \<Rightarrow> (string \<times> bytes) option \<Rightarrow> signature \<Rightarrow> message" where
  "chat_message L C x txt part sg =
     (prepare_message L x (NewMessageFromBytes (uuid x) (t_created x) (sealed L C x txt part)))\<lparr>Signature := sg\<rparr>"

lemma chat_message_fields [simp]:
  fixes L C x "txt" part sg
  defines "msg \<equiv> chat_message L C x txt part sg"
  shows "Id msg = uuid x" "CreationTime msg = t_created x" "Lifespan msg \<le> 15 * minute" "Hops msg = []"
    "Length msg = int (length (sealed L C x txt part))" "Sha256 msg = sha256 (sealed L C x txt part)"
    "SenderBlessings msg = default_blessings L" "SenderDischarges msg = fst (PrepareDischarges L (default_blessings L))"
    "snd (PrepareDischarges L (default_blessings L)) = zero_time \<Longrightarrow> Lifespan msg = 15 * minute"
  unfolding msg_def chat_message_def by (auto simp: prepare_message_def Let_def IsZero_def zero_message_def split: prod.split)

lemma sendMessage_stores:
  assumes "signs L pk verify" and "calm x" and "attachment_part x (a_disk a) fname = Inr part"
    and "fs_idle v e (a_store a) (uuid x)" and "fs_view v (a_store a) (uuid x) = Absent"
  shows "\<exists>a' sg. sendMessage v L C e x a txt fname = (a', None)
    \<and> published a' = published a @ [chat_message L C x txt part sg] \<and> fs_idle v e (a_store a') (uuid x)
    \<and> fs_view v (a_store a') (uuid x) = Complete (chat_message L C x txt part sg) (sealed L C x txt part)
    \<and> (\<forall>t. Validate pk verify t (chat_message L C x txt part sg) = Expired t (chat_message L C x txt part sg))
    \<and> files (a_disk a') = (files (a_disk a))(tmp_name x := None)"
proof -
  let ?b = "sealed L C x txt part" and ?D = "put_file (tmp_name x) (sealed L C x txt part) (a_disk a)"
  let ?m = "prepare_message L x (NewMessageFromBytes (uuid x) (t_created x) ?b)"
  obtain sg where sg: "Sign L (Hash ?m) = Inr sg" "verify sg (pk (default_blessings L)) (Hash ?m)"
    using assms(1) by (auto simp: signs_def)
  let ?msg = "?m\<lparr>Signature := sg\<rparr>"
  have n: "NewMessageFromFile ?D None (uuid x) (t_created x) (tmp_name x) = Inr (NewMessageFromBytes (uuid x) (t_created x) ?b)"
    by (rule NewMessageFromFile_content) simp
  obtain s where s: "store_message v e x (a\<lparr>a_disk := ?D\<rparr>) ?msg (tmp_name x)
      = (a\<lparr>a_disk := ?D, a_store := s, published := published a @ [?msg]\<rparr>, None)"
    "fs_idle v e s (uuid x)" "fs_view v s (uuid x) = Complete ?msg ?b"
    using store_message_completes [of v e "a\<lparr>a_disk := ?D\<rparr>" ?msg x "tmp_name x" ?b] assms(2,4,5) by auto
  have "sendMessage v L C e x a txt fname =
      (a\<lparr>a_disk := remove_file (tmp_name x) ?D, a_store := s, published := published a @ [?msg]\<rparr>, None)"
    using encryptChatMessage_sealed [OF assms(2,3), of L C "txt"] n sg(1) s(1) assms(2)
    by (simp add: sendMessage_def sign_message_def calm_def)
  then show ?thesis using s(2,3) sg(2)
    by (intro exI [of _ "a\<lparr>a_disk := remove_file (tmp_name x) ?D, a_store := s, published := published a @ [?msg]\<rparr>"]
        exI [of _ sg]) (simp add: Validate_def chat_message_def)
qed

text \<open>
  C33: a message that is sent is in the store, complete, signed and published, lives for at
  most fifteen minutes, leaves no temporary file behind, and whoever has the key reads the
  text and gets the attachment, byte for byte, under its own base name.
\<close>

theorem sendMessage_readable:
  assumes "signs L pk verify" and "gzip_ok L" and "multipart_ok L" and "sends L C x (a_disk a) txt fname part"
    and "fs_idle v e (a_store a) (uuid x)" and "fs_view v (a_store a) (uuid x) = Absent" and "calm y"
  shows "\<exists>a' msg content. sendMessage v L C e x a txt fname = (a', None) \<and> published a' = published a @ [msg]
    \<and> Id msg = uuid x \<and> fs_view v (a_store a') (uuid x) = Complete msg content
    \<and> Validate pk verify t msg = Expired t msg \<and> CreationTime msg = t_created x \<and> Lifespan msg \<le> 15 * minute
    \<and> files (a_disk a') = (files (a_disk a))(tmp_name x := None)
    \<and> decryptChatMessage L C y D content dir = received txt part dir D"
proof -
  have p: "calm x" "attachment_part x (a_disk a) fname = Inr part" "fits (boundary x) txt part" "length (rand_iv x) = 16"
    "- 1 \<le> compressionLevel C" "compressionLevel C \<le> 9" "length (boundary x) < 2 ^ 16"
    using assms(4) by (simp_all add: sends_def)
  show ?thesis
    using sendMessage_stores [OF assms(1) p(1,2) assms(5,6), of C "txt"]
      decryptChatMessage_sealed [OF assms(2,3) p(3-7) assms(7), of D dir] chat_message_fields(1-3) by metis
qed

section \<open>Pings\<close>

lemma itoa_no_space: "CHR '' '' \<notin> set (itoa i)"
  using itoa_chars [of "CHR '' ''" i] by auto

text \<open>The text of \<open>/ping\<close> and the reply to it.\<close>

definition ping_text :: "string \<Rightarrow> time \<Rightarrow> string" where
  "ping_text i t = ctrl ''PING '' @ i @ '' '' @ itoa t"

definition pong_text :: "string \<Rightarrow> time \<Rightarrow> string" where
  "pong_text i t = ctrl ''PONG '' @ i @ '' '' @ itoa t"

lemma pong_parts: "CHR '' '' \<notin> set i \<Longrightarrow> Split CHR '' '' (pong_text i t) = [ctrl ''PONG'', i, itoa t]"
proof -
  assume i: "CHR '' '' \<notin> set i"
  have "pong_text i t = ctrl ''PONG'' @ CHR '' '' # (i @ CHR '' '' # itoa t)" by (simp add: pong_text_def ctrl_def)
  then show ?thesis using i by (simp only: Split_middle) (simp add: itoa_no_space ctrl_def)
qed

lemma pong_prefix: "HasPrefix (pong_text i t) (ctrl ''PONG '')" "\<not> HasPrefix (pong_text i t) (ctrl ''PING'')"
  by (simp_all add: HasPrefix_def pong_text_def ctrl_def)

lemma handle_pong:
  assumes "CHR '' '' \<notin> set i" and "- (2 ^ 63) \<le> t" and "t < 2 ^ 63"
  shows "handle_text v L C U e x a msg (pong_text i t) =
    (if node_id a = i
     then Inr (print_view (msg_prefix U (now e) msg @ '' '' @ green U ''PING'' @ '' reply from '' @ msg_sender U msg @ '': ''
            @ secs U 0 (Sub (now e) t) @ ''s'' @ newline) a)
     else Inl a)"
  using assms by (simp add: handle_text_def pong_prefix pong_parts ParseInt_itoa Let_def)

text \<open>
  A ping is answered with the same identifier and time, and of all the applications that
  receive the answer exactly the one that sent the ping shows it, with the time since then.
\<close>

theorem ping_answered:
  assumes "CHR '' '' \<notin> set (node_id a)" and "- (2 ^ 63) \<le> now e" and "now e < 2 ^ 63"
  shows "handleInput v L C U e X srt x a ''/ping'' = send_input v L C U e x a (ping_text (node_id a) (now e)) ''''
    \<and> HasPrefix (ping_text (node_id a) (now e)) (ctrl ''PING'')
    \<and> ctrl ''PONG'' @ drop 5 (ping_text (node_id a) (now e)) = pong_text (node_id a) (now e)
    \<and> handle_text v L C U e' x' b msg (pong_text (node_id a) (now e)) =
      (if node_id b = node_id a
       then Inr (print_view (msg_prefix U (now e') msg @ '' '' @ green U ''PING'' @ '' reply from '' @ msg_sender U msg @ '': ''
              @ secs U 0 (Sub (now e') (now e)) @ ''s'' @ newline) b)
       else Inl b)"
  using handle_pong [OF assms, of v L C U e' x' b msg]
  by (auto simp: handleInput_def ping_text_def pong_text_def ctrl_def HasPrefix_def)

section \<open>A small instance\<close>

text \<open>Libraries that prefix the header field with its length and write a form as a list.\<close>

definition put_form :: "string \<times> (string \<times> bytes) list \<Rightarrow> bytes" where
  "put_form = put_pair put_str (put_list (put_pair put_str put_str))"

definition get_form :: "(string \<times> (string \<times> bytes) list) parser" where
  "get_form = get_pair get_str (get_list (get_pair get_str get_str))"

lemma parses_form: "parses put_form get_form"
  unfolding put_form_def get_form_def by (intro parses_pair parses_list parses_str)

definition ex_chat_lib :: chat_lib where
  "ex_chat_lib = \<lparr>gzip = (\<lambda>_ extra d. put_str extra @ d),
     gz_open = (\<lambda>s. case get_str s of None \<Rightarrow> Inl GzHeader | Some (extra, d) \<Rightarrow> Inr (extra, d, None)),
     new_form = (\<lambda>_ t part. put_form (t, case part of None \<Rightarrow> [] | Some p \<Rightarrow> [p])),
     read_form = (\<lambda>_ d. case get_form (fst d) of
         None \<Rightarrow> Inl (ErrOS ''multipart'')
       | Some ((t, fs), _) \<Rightarrow> Inr \<lparr>form_value = (\<lambda>k. if k = ''text'' then [t] else []),
           form_file = (\<lambda>k. if k = ''attachment'' then fs else [])\<rparr>),
     default_blessings = ''alice'', PrepareDischarges = (\<lambda>_. ([], zero_time)), Sign = (\<lambda>h. Inr (''sig'' @ h))\<rparr>"

lemma ex_chat_lib_ok: "gzip_ok ex_chat_lib" "multipart_ok ex_chat_lib"
  using parsesD(1) [OF parses_str] parsesD(1) [OF parses_form, of _ "[]"]
  by (simp_all add: gzip_ok_def multipart_ok_def ex_chat_lib_def)

lemma ex_chat_lib_signs: "signs ex_chat_lib Some (\<lambda>sg _ h. sg = ''sig'' @ h)"
  by (simp add: signs_def ex_chat_lib_def)

definition ex_conf :: chat_conf where
  "ex_conf = \<lparr>encryptionKey = ''k'', defaultEncryptionKey = ''This is not secure!!!'', compressionLevel = 9, incomingDir = ''/in''\<rparr>"

definition ex_chat_env :: chat_env where
  "ex_chat_env = \<lparr>op_err = (\<lambda>_. None), rand_iv = replicate 16 CHR ''i'', boundary = ''0123'', tmp_name = ''/tmp/vmsg'',
     junk = [], copied = 0, uuid = ''m1'', t_created = 3, t_expiry = 4\<rparr>"

definition ex_disk :: disk where
  "ex_disk = \<lparr>files = [''/home/a.txt'' \<mapsto> ''data''], dirs = {''/'', ''/in'', ''/home'', ''/tmp''}\<rparr>"

definition ex_app :: app where
  "ex_app = \<lparr>a_store = storage_init, published = [], a_disk = ex_disk, node_id = ''n1'', view_text = Some ''''\<rparr>"

lemma ex_calm: "calm ex_chat_env"
  by (simp add: calm_def ex_chat_env_def)

lemma ex_sends: "sends ex_chat_lib ex_conf ex_chat_env ex_disk ''hello'' ''/home/a.txt'' (Some (''a.txt'', ''data''))"
proof -
  have "Base ''/home/a.txt'' = ''a.txt''" by (simp add: Base_def)
  moreover have "\<not> sublist ''0123'' ''hello''" "\<not> sublist ''0123'' ''data''" by (simp_all add: sublist_code)
  ultimately show ?thesis
    by (simp add: sends_def calm_def ex_chat_env_def ex_conf_def attachment_part_def os_Open_def ex_disk_def fits_def)
qed

theorem sendMessage_readable_witness:
  "\<exists>a' msg content. sendMessage text_codec ex_chat_lib ex_conf ex_env ex_chat_env ex_app ''hello'' ''/home/a.txt'' = (a', None)
     \<and> published a' = [msg] \<and> fs_view text_codec (a_store a') ''m1'' = Complete msg content
     \<and> decryptChatMessage ex_chat_lib ex_conf ex_chat_env ex_disk content ''/in''
         = (put_file ''/in/a.txt'' ''data'' ex_disk, Inr (''hello'', ''/in/a.txt''))"
proof -
  have s: "sends ex_chat_lib ex_conf ex_chat_env (a_disk ex_app) ''hello'' ''/home/a.txt'' (Some (''a.txt'', ''data''))"
    using ex_sends by (simp add: ex_app_def)
  have i: "fs_idle text_codec ex_env (a_store ex_app) (uuid ex_chat_env)" "fs_view text_codec (a_store ex_app) (uuid ex_chat_env) = Absent"
    by (simp_all add: ex_app_def ex_chat_env_def init_idle text_codec_ok)
  have j: "Join ''/in'' (Base ''a.txt'') = ''/in/a.txt''"
    by (simp add: Join_def Base_def Clean_def elems_of_def clean_elem_def)
  have "received ''hello'' (Some (''a.txt'', ''data'')) ''/in'' ex_disk = (put_file ''/in/a.txt'' ''data'' ex_disk, Inr (''hello'', ''/in/a.txt''))"
    by (simp add: received_def j ex_disk_def Let_def)
  with sendMessage_readable [OF ex_chat_lib_signs ex_chat_lib_ok s i ex_calm, of 5 ex_disk "''/in''"]
  show ?thesis by (auto simp: ex_app_def ex_chat_env_def)
qed

theorem decryptChatMessage_new_file_witness:
  "\<exists>D' r. decryptChatMessage ex_chat_lib ex_conf ex_chat_env ex_disk
       (sealed ex_chat_lib ex_conf ex_chat_env ''hello'' (Some (''../x'', ''data''))) ''/in'' = (D', r)
     \<and> dirs D' = dirs ex_disk \<and> files D' ''/home/a.txt'' = Some ''data''"
proof -
  obtain D' r where d: "decryptChatMessage ex_chat_lib ex_conf ex_chat_env ex_disk
      (sealed ex_chat_lib ex_conf ex_chat_env ''hello'' (Some (''../x'', ''data''))) ''/in'' = (D', r)" by force
  have "Join ''/in'' ` {''.'', ''..'', ''/''} \<subseteq> dirs ex_disk"
    by (simp add: Join_def Clean_def elems_of_def clean_elem_def ex_disk_def)
  from decryptChatMessage_new_file [OF d this] obtain n where "dirs D' = dirs ex_disk"
    and "\<forall>p. files D' p \<noteq> files ex_disk p \<longrightarrow> files ex_disk p = None \<and> p = Join ''/in'' n" by blast
  moreover have h: "files ex_disk ''/home/a.txt'' = Some ''data''" by (simp add: ex_disk_def)
  ultimately have "files D' ''/home/a.txt'' = Some ''data''" by (metis option.distinct(1))
  with d \<open>dirs D' = dirs ex_disk\<close> show ?thesis by blast
qed

definition ex_ui :: ui where
  "ex_ui = \<lparr>red = (\<lambda>s. s), green = (\<lambda>s. s), white = (\<lambda>s. s), yellow = (\<lambda>s. s), clock = itoa, secs = (\<lambda>_. itoa),
     show_err = (\<lambda>_. ''error''), show_blessings = (\<lambda>b. b), debug_string = ''''\<rparr>"

theorem ping_answered_witness:
  "handle_text text_codec ex_chat_lib ex_conf ex_ui ex_env ex_chat_env (ex_app\<lparr>node_id := ''n2''\<rparr>) ex_msg (pong_text ''n1'' 5)
     = Inl (ex_app\<lparr>node_id := ''n2''\<rparr>)"
  using ping_answered [of ex_app ex_env text_codec ex_chat_lib ex_conf ex_ui "\<lambda>_. (ex_env, ex_chat_env)" "\<lambda>ms. ms" ex_chat_env
      ex_env ex_chat_env "ex_app\<lparr>node_id := ''n2''\<rparr>" ex_msg] by (simp add: ex_app_def)

end
