(* ===== verification/Robot.thy ===== *)
theory Robot
  imports Chat
begin

text \<open>
  The robot (\<^verbatim>\<open>src/vmsg/robot.go\<close>): the commands it understands and the goroutine that
  talks.  The goroutine reads the variable \<open>talkChan\<close> every time it enters its \<open>select\<close>,
  so the variable is part of the state and a talker remembers which channel it waits for.
\<close>

section \<open>Talking\<close>

text \<open>
  A talker is about to evaluate its \<open>select\<close>, waits in it for a channel (or for \<open>nil\<close>,
  which is never ready), sends its message, or has returned.
\<close>

datatype talker = TSelect | TWait "nat option" | TSending nat | TGone

record robot =
  talkChan :: "nat option"
  closed_talk :: "nat set"
  next_talk :: nat
  talkers :: "talker list"
  double_close :: bool
  r_done :: bool

definition robot_init :: robot where
  "robot_init = \<lparr>talkChan = None, closed_talk = {}, next_talk = 0, talkers = [], double_close = False, r_done = False\<rparr>"

definition talk :: "robot \<Rightarrow> robot" where
  "talk r = (if talkChan r \<noteq> None then r
     else r\<lparr>talkChan := Some (next_talk r), next_talk := Suc (next_talk r), talkers := talkers r @ [TSelect]\<rparr>)"

definition hush :: "robot \<Rightarrow> robot" where
  "hush r = (case talkChan r of
       None \<Rightarrow> r
     | Some c \<Rightarrow> r\<lparr>closed_talk := insert c (closed_talk r), double_close := double_close r \<or> c \<in> closed_talk r, talkChan := None\<rparr>)"

text \<open>The message of a talker that waited \<open>n\<close> seconds.\<close>

definition lucky :: "nat \<Rightarrow> string" where
  "lucky n = ''Your lucky number is '' @ itoa (int n)"

section \<open>Commands\<close>

definition robot_command :: "string \<Rightarrow> string \<Rightarrow> robot \<Rightarrow> robot \<times> string" where
  "robot_command debug msgText r =
     (if HasPrefix msgText (ctrl ''PING'') then (r, ctrl ''PONG'' @ drop 5 msgText)
      else if msgText = ''!debug'' then (r, debug)
      else if msgText = ''!talk'' then (talk r, ''Now we're talking!'')
      else if msgText = ''!hush'' then (hush r, ''Shhhhh...'')
      else (r, ''''))"

text \<open>One message of the subscription; the errors are only logged.\<close>

definition robot_message :: "codec \<Rightarrow> chat_lib \<Rightarrow> chat_conf \<Rightarrow> env \<Rightarrow> chat_env \<Rightarrow> string \<Rightarrow> message \<Rightarrow> robot \<times> app \<Rightarrow> robot \<times> app" where
  "robot_message v L C e x debug msg ra =
     (case ra of (r, a) \<Rightarrow>
     (case OpenRead v e (a_store a) (Id msg) of
        (s, Inl er) \<Rightarrow> (r, a\<lparr>a_store := s\<rparr>)
      | (s, Inr (_, rd)) \<Rightarrow>
     (case decryptChatMessage L C x (a_disk a) (read_rest s rd) (incomingDir C) of
        (D, Inl er) \<Rightarrow> (r, a\<lparr>a_store := s, a_disk := D\<rparr>)
      | (D, Inr (msgText, filename)) \<Rightarrow>
          let a = a\<lparr>a_store := s, a_disk := D\<rparr>;
              (r, reply) = robot_command debug msgText r
          in if reply \<noteq> '''' then (r, fst (sendMessage v L C e x a reply '''')) else (r, a))))"

section \<open>Interleavings\<close>

definition set_talker :: "nat \<Rightarrow> talker \<Rightarrow> robot \<Rightarrow> robot" where
  "set_talker i t r = r\<lparr>talkers := (talkers r)[i := t]\<rparr>"

inductive talker_step :: "robot \<Rightarrow> robot \<Rightarrow> bool" where
  enter: "i < length (talkers r) \<Longrightarrow> talkers r ! i = TSelect \<Longrightarrow> talker_step r (set_talker i (TWait (talkChan r)) r)"
| hushed: "i < length (talkers r) \<Longrightarrow> talkers r ! i = TWait (Some c) \<Longrightarrow> c \<in> closed_talk r \<Longrightarrow> talker_step r (set_talker i TGone r)"
| stopped: "i < length (talkers r) \<Longrightarrow> talkers r ! i = TWait c \<Longrightarrow> r_done r \<Longrightarrow> talker_step r (set_talker i TGone r)"
| elapsed: "i < length (talkers r) \<Longrightarrow> talkers r ! i = TWait c \<Longrightarrow> 15 \<le> n \<Longrightarrow> n < 45 \<Longrightarrow> talker_step r (set_talker i (TSending n) r)"
| spoke: "i < length (talkers r) \<Longrightarrow> talkers r ! i = TSending n \<Longrightarrow> talker_step r (set_talker i TSelect r)"

inductive robot_step :: "robot \<Rightarrow> robot \<Rightarrow> bool" where
  talker: "talker_step r r' \<Longrightarrow> robot_step r r'"
| command: "robot_step r (fst (robot_command debug msgText r))"
| unsubscribed: "robot_step r (hush r)"
| cancelled: "robot_step r (r\<lparr>r_done := True\<rparr>)"

inductive robot_reachable :: "robot \<Rightarrow> bool" where
  robot_start: "robot_reachable robot_init"
| robot_next: "robot_reachable r \<Longrightarrow> robot_step r r' \<Longrightarrow> robot_reachable r'"

inductive_cases talker_stepE: "talker_step r r'"

definition robot_inv :: "robot \<Rightarrow> bool" where
  "robot_inv r \<longleftrightarrow> \<not> double_close r \<and> (\<forall>c \<in> closed_talk r. c < next_talk r)
     \<and> (\<forall>c. talkChan r = Some c \<longrightarrow> c < next_talk r \<and> c \<notin> closed_talk r)"

lemma talk_inv: "robot_inv r \<Longrightarrow> robot_inv (talk r)"
  by (auto simp: robot_inv_def talk_def less_Suc_eq)

lemma hush_inv: "robot_inv r \<Longrightarrow> robot_inv (hush r)"
  by (auto simp: robot_inv_def hush_def split: option.splits)

lemma talker_step_inv: "talker_step r r' \<Longrightarrow> robot_inv r \<Longrightarrow> robot_inv r'"
  by (induction rule: talker_step.induct) (auto simp: robot_inv_def set_talker_def)

text \<open>No channel is closed twice, whatever the order of the commands.\<close>

lemma robot_no_panic: "robot_reachable r \<Longrightarrow> robot_inv r"
proof (induction rule: robot_reachable.induct)
  case robot_start
  show ?case by (simp add: robot_inv_def robot_init_def)
next
  case (robot_next r r')
  from robot_next(2) show ?case
  proof cases
    case talker
    then show ?thesis using robot_next.IH by (rule talker_step_inv)
  next
    case (command debug msgText)
    then show ?thesis using robot_next.IH talk_inv hush_inv by (auto simp: robot_command_def)
  next
    case unsubscribed
    then show ?thesis using robot_next.IH hush_inv by simp
  next
    case cancelled
    then show ?thesis using robot_next.IH by (simp add: robot_inv_def)
  qed
qed

section \<open>A robot that does not hush\<close>

definition deaf :: "robot \<Rightarrow> bool" where
  "deaf r \<longleftrightarrow> talkChan r = None \<and> \<not> r_done r \<and> talkers r \<noteq> []
     \<and> (talkers r ! 0 = TSelect \<or> talkers r ! 0 = TWait None \<or> (\<exists>n. talkers r ! 0 = TSending n))"

lemma deaf_step: "talker_step r r' \<Longrightarrow> deaf r \<Longrightarrow> deaf r'"
proof (induction rule: talker_step.induct)
  case (enter i r)
  then show ?case by (cases i) (auto simp: deaf_def set_talker_def)
next
  case (hushed i r c)
  then show ?case by (cases i) (auto simp: deaf_def set_talker_def)
next
  case (stopped i r c)
  then show ?case by (simp add: deaf_def)
next
  case (elapsed i r c n)
  then show ?case by (cases i) (auto simp: deaf_def set_talker_def)
next
  case (spoke i r n)
  then show ?case by (cases i) (auto simp: deaf_def set_talker_def)
qed

lemma deaf_forever: "talker_step\<^sup>*\<^sup>* r r' \<Longrightarrow> deaf r \<Longrightarrow> deaf r'"
  by (induction rule: rtranclp_induct) (auto intro: deaf_step)



end
