(* ===== verification/MainCmd.thy ===== *)
theory MainCmd
  imports Node Robot
begin

text \<open>
  The command line (\<^verbatim>\<open>src/vmsg/main.go\<close>): the flags with their defaults, the parameters
  of a node made from them, and the outcome of the commands up to the start of the node.
\<close>

section \<open>Flags\<close>

definition defaultKey :: string where
  "defaultKey = ''This is not secure!!!''"

record flags =
  advertisementId :: string
  enableLocalDisc :: bool
  globalDiscPaths :: string
  storeDir :: string
  maxActivePeers :: int
  maxHops :: int
  rateAclInJson :: string
  rateAclOutJson :: string
  rateAclSenderJson :: string
  key_flag :: string
  incoming_flag :: string
  level_flag :: int

definition quote :: string where
  "quote = [CHR 0x22]"

definition acl_json :: "string \<Rightarrow> string" where
  "acl_json limit = ''[{'' @ quote @ ''acl'' @ quote @ '':{'' @ quote @ ''In'' @ quote @ '':['' @ quote @ ''dev.v.io'' @ quote
     @ '']},'' @ quote @ ''limit'' @ quote @ '':'' @ limit @ ''}]''"

text \<open>The values the flags have when they are not given; \<open>tempDir\<close> is \<open>os.TempDir()\<close>.\<close>

definition default_flags :: "string \<Rightarrow> flags" where
  "default_flags tempDir = \<lparr>advertisementId = '''', enableLocalDisc = True, globalDiscPaths = '''', storeDir = '''',
     maxActivePeers = 2, maxHops = 50, rateAclInJson = acl_json ''20'', rateAclOutJson = acl_json ''100'',
     rateAclSenderJson = acl_json ''100'', key_flag = defaultKey, incoming_flag = tempDir, level_flag = - 1\<rparr>"

section \<open>Parameters\<close>

text \<open>
  \<open>unmarshal\<close> is \<open>json.Unmarshal\<close>, and \<open>mk\<close> what \<open>NewFileStorage\<close> makes of a directory.
  The named results are returned as they are when an error occurs; the \<open>nil\<close> store of the zero
  value is not used by any caller.
\<close>

definition zero_params :: "storage \<Rightarrow> Params" where
  "zero_params s = \<lparr>AdvertisementID = '''', EnableLocalDiscovery = False, GlobalDiscoveryPaths = [], MaxActivePeers = 0,
     MaxHops = 0, MaxMessageLength = 0, MountTTL = 0, RateAclIn = [], RateAclOut = [], RateAclSender = [], ScanInterval = 0,
     Store = s\<rparr>"

definition usageError :: err where
  "usageError = ErrOS ''--store-dir must be set''"

definition paramsFromFlags :: "(bytes \<Rightarrow> err option \<times> (access_list \<times> rat) list) \<Rightarrow> (string \<Rightarrow> storage) \<Rightarrow> flags \<Rightarrow> Params \<times> err option" where
  "paramsFromFlags unmarshal mk F =
     (if storeDir F = '''' then (zero_params (mk ''''), Some usageError)
      else
        let paths = (if globalDiscPaths F \<noteq> '''' then Split CHR '','' (globalDiscPaths F) else []);
            prms = (zero_params (mk (storeDir F)))\<lparr>AdvertisementID := advertisementId F, EnableLocalDiscovery := enableLocalDisc F,
              GlobalDiscoveryPaths := paths, MaxActivePeers := maxActivePeers F, MaxHops := maxHops F,
              MountTTL := 20 * second, ScanInterval := 10 * second\<rparr>;
            (acl, er) = RateAclFromJSON unmarshal (rateAclInJson F);
            prms = prms\<lparr>RateAclIn := acl\<rparr>
        in if er \<noteq> None then (prms, er)
           else
             let (acl, er) = RateAclFromJSON unmarshal (rateAclOutJson F);
                 prms = prms\<lparr>RateAclOut := acl\<rparr>
             in if er \<noteq> None then (prms, er)
                else
                  let (acl, er) = RateAclFromJSON unmarshal (rateAclSenderJson F);
                      prms = prms\<lparr>RateAclSender := acl\<rparr>
                  in (prms, er))"

section \<open>Commands\<close>

text \<open>\<open>runNode\<close>, \<open>runChat\<close> and \<open>runRobot\<close> start the same way.\<close>

definition run_start :: "(bytes \<Rightarrow> err option \<times> (access_list \<times> rat) list) \<Rightarrow> (string \<Rightarrow> storage) \<Rightarrow> node_env \<Rightarrow> flags \<Rightarrow> err + Params \<times> Node" where
  "run_start unmarshal mk N F =
     (case paramsFromFlags unmarshal mk F of
        (_, Some er) \<Rightarrow> Inl er
      | (prms, None) \<Rightarrow> and_then (snd (StartNode N prms)) (\<lambda>n. Inr (prms, n)))"

definition chat_conf_of :: "flags \<Rightarrow> chat_conf" where
  "chat_conf_of F = \<lparr>encryptionKey = key_flag F, defaultEncryptionKey = defaultKey, compressionLevel = level_flag F, incomingDir = incoming_flag F\<rparr>"

definition runNode :: "(bytes \<Rightarrow> err option \<times> (access_list \<times> rat) list) \<Rightarrow> (string \<Rightarrow> storage) \<Rightarrow> node_env \<Rightarrow> flags \<Rightarrow> err + Node" where
  "runNode unmarshal mk N F =
     and_then (run_start unmarshal mk N F) (\<lambda>(prms, n). Inr (Stop n))"

definition runRobot :: "(bytes \<Rightarrow> err option \<times> (access_list \<times> rat) list) \<Rightarrow> (string \<Rightarrow> storage) \<Rightarrow> node_env \<Rightarrow> flags \<Rightarrow> disk \<Rightarrow> err + robot \<times> app" where
  "runRobot unmarshal mk N F D =
     and_then (run_start unmarshal mk N F) (\<lambda>(prms, n).
       Inr (robot_init, \<lparr>a_store = Store prms, published = [], a_disk = D, node_id = node_Id n, view_text = None\<rparr>))"

section \<open>The command tree\<close>

datatype runner = RunNode | RunChat | RunRobot

datatype command = Command (cmd_Name: string) (cmd_Short: string) (Runner: "runner option") (Children: "command list")

definition cmdNode :: command where
  "cmdNode = Command ''node'' ''Run the standalone node'' (Some RunNode) []"

definition cmdChat :: command where
  "cmdChat = Command ''chat'' ''Run chat demo application'' (Some RunChat) []"

definition cmdRobot :: command where
  "cmdRobot = Command ''robot'' ''Run a robot node that sends random messages every few seconds'' (Some RunRobot) []"

definition cmdRoot :: command where
  "cmdRoot = Command ''vmsg'' ''Runs the vanadium messenger service'' None [cmdNode, cmdChat, cmdRobot]"

text \<open>The first statements of \<open>main\<close> change the flags of the logger where they exist.\<close>

definition quiet_logs :: "(string \<rightharpoonup> string) \<Rightarrow> (string \<rightharpoonup> string)" where
  "quiet_logs fl =
     (let fl = (if fl ''alsologtostderr'' \<noteq> None then fl(''alsologtostderr'' \<mapsto> ''false'') else fl)
      in if fl ''stderrthreshold'' \<noteq> None then fl(''stderrthreshold'' \<mapsto> ''FATAL'') else fl)"

lemma quiet_logs_frame: "dom (quiet_logs fl) = dom fl" "k \<noteq> ''alsologtostderr'' \<Longrightarrow> k \<noteq> ''stderrthreshold'' \<Longrightarrow> quiet_logs fl k = fl k"
  by (auto simp: quiet_logs_def Let_def)

text \<open>A command name selects exactly one runner.\<close>

lemma cmdRoot_children: "distinct (map cmd_Name (Children cmdRoot)) \<and> map Runner (Children cmdRoot) = [Some RunNode, Some RunChat, Some RunRobot]"
  by (simp add: cmdRoot_def cmdNode_def cmdChat_def cmdRobot_def)

section \<open>What the flags decide\<close>

text \<open>
  Without an error the parameters are those of the flags, the counters of the access lists
  are new, and no flag limits the length of a message.
\<close>

definition fresh_acl :: "RateAcl \<Rightarrow> bool" where
  "fresh_acl r \<longleftrightarrow> (\<forall>x \<in> set r. ctr x = counter_new)"

lemma RateAclFromJSON_fresh: "RateAclFromJSON u b = (acl, er) \<Longrightarrow> fresh_acl acl"
  by (auto simp: RateAclFromJSON_def Init_def fresh_acl_def Let_def split: prod.splits if_splits)

lemma paramsFromFlags_ok:
  assumes "paramsFromFlags u st F = (prms, None)"
  shows "storeDir F \<noteq> '''' \<and> MaxHops prms = maxHops F \<and> MaxActivePeers prms = maxActivePeers F \<and> MaxMessageLength prms = 0
    \<and> Store prms = st (storeDir F) \<and> MountTTL prms = 20 * second \<and> ScanInterval prms = 10 * second
    \<and> fresh_acl (RateAclIn prms) \<and> fresh_acl (RateAclOut prms) \<and> fresh_acl (RateAclSender prms)"
proof -
  obtain a1 e1 a2 e2 a3 e3 where a: "RateAclFromJSON u (rateAclInJson F) = (a1, e1)" "RateAclFromJSON u (rateAclOutJson F) = (a2, e2)"
    "RateAclFromJSON u (rateAclSenderJson F) = (a3, e3)" by (metis surj_pair)
  note f = a [THEN RateAclFromJSON_fresh]
  show ?thesis using assms f
    by (auto simp: paramsFromFlags_def a Let_def zero_params_def split: if_splits)
qed

end
