(* ===== verification/ChatUi.thy ===== *)
theory ChatUi
  imports MainCmd
begin

text \<open>
  The terminal of the chat application (\<^verbatim>\<open>src/vmsg/chat.go\<close>, \<open>runChat\<close> and
  \<open>runChatApp\<close>): the layout, the key bindings, the goroutine that displays messages, and the
  whole command.  The package \<^verbatim>\<open>gocui\<close> is the parameter \<open>gui_lib\<close>; of its main loop only what
  it documents is used: it calls the registered functions until one of them returns an error.
  The goroutine that displays messages interleaves with the callbacks in steps of one task each:
  the help, the history, or one received message.
\<close>

section \<open>The terminal library\<close>

datatype colour = ColorBlack | ColorBlue | ColorWhite | ColorYellow

datatype gui_attr = Cursor bool | GuiBg colour | GuiFg colour

datatype view_attr = Title string | BgColor colour | FgColor colour | Autoscroll | Wrap | Editable

datatype gui_key = KeyCtrlC | KeyEnter

text \<open>
  What \<open>loop\<close> still has to do: show the help, show the history, handle a message of the
  subscription.
\<close>

datatype loop_task = ShowHelp | ShowHistory | Received message

text \<open>The state that the callbacks share: the terminal, the application, and the calls made so far.\<close>

record 'g chat_state =
  cs_gui :: 'g
  cs_app :: app
  cs_calls :: nat
  cs_todo :: "loop_task list"

type_synonym 's callback = "'s \<Rightarrow> 's \<times> err option"

text \<open>
  \<open>MainLoop\<close> gets the functions it may call; \<open>None\<close> stands for a session that does not end.
  \<open>SetAttrs\<close> is the assignment of fields of a view.
\<close>

record 'g gui_lib =
  NewGui :: 'g
  gui_Init :: "'g \<Rightarrow> 'g \<times> err option"
  gui_Close :: "'g \<Rightarrow> 'g"
  gui_set :: "gui_attr list \<Rightarrow> 'g \<Rightarrow> 'g"
  gui_Size :: "'g \<Rightarrow> int \<times> int"
  SetView :: "string \<Rightarrow> int \<times> int \<times> int \<times> int \<Rightarrow> 'g \<Rightarrow> 'g \<times> err option"
  SetAttrs :: "string \<Rightarrow> view_attr list \<Rightarrow> 'g \<Rightarrow> 'g"
  SetCurrentView :: "string \<Rightarrow> 'g \<Rightarrow> 'g \<times> err option"
  SetKeybinding :: "string \<Rightarrow> gui_key \<Rightarrow> 'g \<Rightarrow> 'g \<times> err option"
  Buffer :: "string \<Rightarrow> 'g \<Rightarrow> string"
  view_Clear :: "string \<Rightarrow> 'g \<Rightarrow> 'g"
  SetOrigin :: "string \<Rightarrow> int \<Rightarrow> int \<Rightarrow> 'g \<Rightarrow> 'g"
  MainLoop :: "'g chat_state callback list \<Rightarrow> 'g chat_state \<Rightarrow> ('g chat_state \<times> err option) option"

definition ErrUnknownView :: err where
  "ErrUnknownView = ErrOS ''unknown view''"

section \<open>The callbacks\<close>

text \<open>The function of \<open>SetLayout\<close>; a view is new when \<open>SetView\<close> returns \<open>ErrUnknownView\<close>.\<close>

definition chat_layout :: "'g gui_lib \<Rightarrow> 'g chat_state callback" where
  "chat_layout G s =
     (let (maxX, maxY) = gui_Size G (cs_gui s); commandInputViewHeight = 3;
          (g, er) = SetView G ''history'' (- 1, 0, maxX, maxY - commandInputViewHeight) (cs_gui s)
      in if er \<noteq> None \<and> er \<noteq> Some ErrUnknownView then (s\<lparr>cs_gui := g\<rparr>, er)
         else
           let s = (if er \<noteq> None then
                      s\<lparr>cs_gui := SetAttrs G ''history'' [Title '' Vanadium Peer to Peer Chat '', BgColor ColorBlack, Autoscroll, Wrap] g,
                        cs_app := (cs_app s)\<lparr>view_text := Some ''''\<rparr>\<rparr>
                    else s\<lparr>cs_gui := g\<rparr>);
               (g, er) = SetView G ''commandInput'' (0, maxY - commandInputViewHeight, maxX - 1, maxY - 1) (cs_gui s)
           in if er \<noteq> None \<and> er \<noteq> Some ErrUnknownView then (s\<lparr>cs_gui := g\<rparr>, er)
              else
                let g = (if er \<noteq> None then
                           SetAttrs G ''commandInput'' [Title '' Enter text or command. Type /help for help '', BgColor ColorBlue,
                             FgColor ColorYellow, Editable] g
                         else g);
                    (g, er) = SetCurrentView G ''commandInput'' g
                in (s\<lparr>cs_gui := g\<rparr>, er))"

definition on_ctrl_c :: "'g chat_state callback" where
  "on_ctrl_c s = (s, Some ErrQuit)"

text \<open>What the other calls of a callback answer: the environments of \<open>handleInput\<close> and \<open>history\<close>.\<close>

record call_env =
  ce_env :: env
  ce_chat :: chat_env
  ce_history :: "nat \<Rightarrow> env \<times> chat_env"

text \<open>What the whole session depends on besides the terminal.\<close>

record session =
  se_codec :: codec
  se_lib :: chat_lib
  se_conf :: chat_conf
  se_ui :: ui
  se_sort :: "message list \<Rightarrow> message list"
  se_call :: "nat \<Rightarrow> call_env"

definition on_enter :: "session \<Rightarrow> 'g gui_lib \<Rightarrow> 'g chat_state callback" where
  "on_enter E G s =
     (let txt = TrimSpace (Buffer G ''commandInput'' (cs_gui s));
          g = SetOrigin G ''commandInput'' 0 0 (view_Clear G ''commandInput'' (cs_gui s));
          w = se_call E (cs_calls s);
          (a, er) = handleInput (se_codec E) (se_lib E) (se_conf E) (se_ui E) (ce_env w) (ce_history w) (se_sort E)
                      (ce_chat w) (cs_app s) txt
      in (s\<lparr>cs_gui := g, cs_app := a, cs_calls := Suc (cs_calls s)\<rparr>, er))"

text \<open>\<open>flush\<close> hands a function to \<open>Execute\<close> that does nothing; the main loop calls it later.\<close>

definition flush_fun :: "'g chat_state callback" where
  "flush_fun s = (s, None)"

text \<open>The next step of the goroutine \<open>app.loop()\<close>.\<close>

definition loop_task_step :: "session \<Rightarrow> call_env \<Rightarrow> loop_task \<Rightarrow> app \<Rightarrow> app" where
  "loop_task_step E w task a =
     (case task of
        ShowHelp \<Rightarrow> print_view (help_text (se_ui E) (se_conf E)) a
      | ShowHistory \<Rightarrow> history (se_codec E) (se_lib E) (se_conf E) (se_ui E) (ce_env w) (ce_history w) (se_sort E) a
      | Received msg \<Rightarrow> handleMessage (se_codec E) (se_lib E) (se_conf E) (se_ui E) (ce_env w) (ce_chat w) a msg)"

definition loop_step :: "session \<Rightarrow> 'g chat_state callback" where
  "loop_step E s =
     (case cs_todo s of
        [] \<Rightarrow> (s, None)
      | task # todo \<Rightarrow> (s\<lparr>cs_app := loop_task_step E (se_call E (cs_calls s)) task (cs_app s),
                          cs_calls := Suc (cs_calls s), cs_todo := todo\<rparr>, None))"

definition callbacks :: "session \<Rightarrow> 'g gui_lib \<Rightarrow> 'g chat_state callback list" where
  "callbacks E G = [chat_layout G, loop_step E, flush_fun, on_enter E G, on_ctrl_c]"

section \<open>The command\<close>

text \<open>\<open>msgs\<close> are the messages that the subscription of \<open>loop\<close> receives during the session.\<close>

definition runChatApp :: "session \<Rightarrow> 'g gui_lib \<Rightarrow> message list \<Rightarrow> app \<Rightarrow> ('g \<times> app \<times> err option) option" where
  "runChatApp E G msgs a =
     (case gui_Init G (NewGui G) of
        (g, Some er) \<Rightarrow> Some (g, a, Some er)
      | (g, None) \<Rightarrow>
     (case SetKeybinding G '''' KeyCtrlC (gui_set G [Cursor True, GuiBg ColorBlue, GuiFg ColorWhite] g) of
        (g, Some er) \<Rightarrow> Some (gui_Close G g, a, Some er)
      | (g, None) \<Rightarrow>
     (case SetKeybinding G ''commandInput'' KeyEnter g of
        (g, Some er) \<Rightarrow> Some (gui_Close G g, a, Some er)
      | (g, None) \<Rightarrow>
          map_option (\<lambda>(s, er). (gui_Close G (cs_gui s), cs_app s, if er = Some ErrQuit then None else er))
            (MainLoop G (callbacks E G)
              \<lparr>cs_gui = g, cs_app = a, cs_calls = 0, cs_todo = ShowHelp # ShowHistory # map Received msgs\<rparr>))))"

text \<open>How the command ends: its node and its terminal, if they were started, the local files, and the error.\<close>

record 'g chat_end =
  ce_node :: "Node option"
  ce_gui :: "'g option"
  ce_disk :: disk
  ce_err :: "err option"

definition runChat :: "(bytes \<Rightarrow> err option \<times> (access_list \<times> rat) list) \<Rightarrow> (string \<Rightarrow> storage) \<Rightarrow> node_env \<Rightarrow> flags \<Rightarrow>
    session \<Rightarrow> 'g gui_lib \<Rightarrow> message list \<Rightarrow> disk \<Rightarrow> 'g chat_end option" where
  "runChat unmarshal mk N F E G msgs D =
     (case run_start unmarshal mk N F of
        Inl er \<Rightarrow> Some \<lparr>ce_node = None, ce_gui = None, ce_disk = D, ce_err = Some er\<rparr>
      | Inr (prms, n) \<Rightarrow>
          map_option (\<lambda>(g, a, er). \<lparr>ce_node = Some (Stop n), ce_gui = Some g, ce_disk = a_disk a, ce_err = er\<rparr>)
            (runChatApp (E\<lparr>se_conf := chat_conf_of F\<rparr>) G msgs
               \<lparr>a_store = Store prms, published = [], a_disk = D, node_id = node_Id n, view_text = None\<rparr>))"

section \<open>What the main loop promises\<close>

text \<open>
  The states that calls of the functions reach, all of them without an error; in between, the
  library may change the terminal, such as the text of the input line.
\<close>

inductive called :: "'g chat_state callback list \<Rightarrow> 'g chat_state \<Rightarrow> 'g chat_state \<Rightarrow> bool" for cbs s where
  called_refl: "called cbs s s"
| called_next: "called cbs s s1 \<Longrightarrow> f \<in> set cbs \<Longrightarrow> f s1 = (s2, None) \<Longrightarrow> called cbs s s2"
| called_edit: "called cbs s s1 \<Longrightarrow> called cbs s (s1\<lparr>cs_gui := g\<rparr>)"

definition until_error :: "('g chat_state callback list \<Rightarrow> 'g chat_state \<Rightarrow> ('g chat_state \<times> err option) option) \<Rightarrow> bool" where
  "until_error loop \<longleftrightarrow> (\<forall>cbs s s' er. loop cbs s = Some (s', er) \<longrightarrow>
     er \<noteq> None \<and> (\<exists>s1. called cbs s s1 \<and> ((\<exists>f \<in> set cbs. f s1 = (s', er)) \<or> s' = s1)))"

section \<open>Local files during a session\<close>

text \<open>
  Compared with the disk \<open>D\<close>, only temporary files with names in \<open>T\<close> and files with plain names
  in the directory for incoming files are new, and nothing that existed has changed.
\<close>

definition tidy :: "disk \<Rightarrow> string set \<Rightarrow> string \<Rightarrow> disk \<Rightarrow> bool" where
  "tidy D T dir D' \<longleftrightarrow> dirs D' = dirs D
     \<and> (\<forall>p. files D' p \<noteq> files D p \<longrightarrow> files D p = None \<and> (p \<in> T \<or> (\<exists>n. plain_name n \<and> p = Join dir n)))"

text \<open>A directory for incoming files whose special entries are directories, and names for temporary files that are not in use.\<close>

definition roomy :: "disk \<Rightarrow> string set \<Rightarrow> string \<Rightarrow> bool" where
  "roomy D T dir \<longleftrightarrow> Join dir ` {''.'', ''..'', ''/''} \<subseteq> dirs D \<and> (\<forall>p \<in> T. files D p = None)"

lemma tidy_refl: "tidy D T dir D"
  by (simp add: tidy_def)

lemma tidy_temp:
  assumes "tidy D T dir D'" and "roomy D T dir" and "p \<in> T"
  shows "tidy D T dir (put_file p b D')" and "tidy D T dir (remove_file p D')"
  using assms by (auto simp: tidy_def roomy_def)

lemma tidy_encrypt:
  assumes "encryptChatMessage L C x D' t f = (D'', r)" and "tidy D T dir D'" and "roomy D T dir" and "tmp_name x \<in> T"
  shows "tidy D T dir D'' \<and> (\<forall>file. r = Inr file \<longrightarrow> file \<in> T)"
  using assms by (auto simp: encryptChatMessage_def intro: tidy_temp split: option.splits sum.splits)

lemma tidy_decrypt:
  assumes "decryptChatMessage L C x D' b dir = (D'', r)" and "tidy D T dir D'" and "roomy D T dir"
  shows "tidy D T dir D''"
proof -
  have "Join dir ` {''.'', ''..'', ''/''} \<subseteq> dirs D'" using assms(2,3) by (simp add: tidy_def roomy_def)
  from decryptChatMessage_files [OF assms(1) this] assms(2) show ?thesis
    unfolding tidy_def by (metis (no_types, lifting))
qed

lemma store_message_disk [simp]: "a_disk (fst (store_message v e x a msg f)) = a_disk a"
  by (auto simp: store_message_def split: prod.splits sum.splits option.splits)

lemma print_disk [simp]: "a_disk (print_view t a) = a_disk a" "a_disk (printErrorf U t a) = a_disk a" "a_disk (clear_view a) = a_disk a"
  "a_disk (debug_view U a) = a_disk a"
  by (simp_all add: print_view_def printErrorf_def clear_view_def debug_view_def)

lemma sendMessage_tidy:
  assumes "tidy D T dir (a_disk a)" and "roomy D T dir" and "tmp_name x \<in> T"
  shows "tidy D T dir (a_disk (fst (sendMessage v L C e x a t f)))"
proof -
  obtain D' r where d: "encryptChatMessage L C x (a_disk a) t f = (D', r)" by force
  note td = tidy_encrypt [OF d assms]
  show ?thesis
  proof (cases r)
    case (Inl er)
    with d td show ?thesis by (simp add: sendMessage_def)
  next
    case (Inr tf)
    with td have "tidy D T dir (remove_file tf D')" using assms(2) by (simp add: tidy_temp(2))
    with d Inr show ?thesis
      by (simp add: sendMessage_def Let_def case_prod_unfold split: sum.splits)
  qed
qed

lemma handle_text_tidy:
  assumes "tidy D T dir (a_disk a)" and "roomy D T dir" and "tmp_name x \<in> T"
  shows "handle_text v L C U e x a msg t = Inl a' \<Longrightarrow> tidy D T dir (a_disk a')"
    and "handle_text v L C U e x a msg t = Inr a' \<Longrightarrow> tidy D T dir (a_disk a')"
  using assms sendMessage_tidy [of D T dir "print_view _ a" x v L C e]
  by (auto simp: handle_text_def Let_def case_prod_unfold split: option.splits if_splits)

lemma handleMessage_tidy:
  assumes "tidy D T (incomingDir C) (a_disk a)" and "roomy D T (incomingDir C)" and "tmp_name x \<in> T"
  shows "tidy D T (incomingDir C) (a_disk (handleMessage v L C U e x a msg))"
proof -
  obtain s r where o: "OpenRead v e (a_store a) (Id msg) = (s, r)" by force
  show ?thesis
  proof (cases r)
    case (Inl er)
    with o assms(1) show ?thesis by (simp add: handleMessage_def)
  next
    case (Inr q)
    obtain f where q: "snd q = f" by simp
    obtain D' r' where d: "decryptChatMessage L C x (a_disk a) (read_rest s f) (incomingDir C) = (D', r')" by force
    from tidy_decrypt [OF d assms(1,2)] have t: "tidy D T (incomingDir C) (a_disk (a\<lparr>a_store := s, a_disk := D'\<rparr>))" by simp
    note h = handle_text_tidy [OF t assms(2,3)]
    show ?thesis using o Inr q d t
      by (auto simp: handleMessage_def Let_def case_prod_unfold split: sum.splits intro: h)
  qed
qed

lemma handle_all_tidy:
  assumes "roomy D T (incomingDir C)" and "\<forall>n. tmp_name (snd (X n)) \<in> T"
  shows "tidy D T (incomingDir C) (a_disk a) \<Longrightarrow> tidy D T (incomingDir C) (a_disk (handle_all v L C U X k ms a))"
  by (induction ms arbitrary: a k) (simp_all add: handleMessage_tidy assms)

lemma history_tidy:
  assumes "roomy D T (incomingDir C)" and "\<forall>n. tmp_name (snd (X n)) \<in> T" and "tidy D T (incomingDir C) (a_disk a)"
  shows "tidy D T (incomingDir C) (a_disk (history v L C U e X srt a))"
  using assms by (auto simp: history_def handle_all_tidy split: sum.splits)

lemma send_input_tidy:
  assumes "tidy D T dir (a_disk a)" and "roomy D T dir" and "tmp_name x \<in> T"
  shows "tidy D T dir (a_disk (fst (send_input v L C U e x a m f)))"
  using sendMessage_tidy [OF assms, of v L C e m f]
  by (auto simp: send_input_def case_prod_unfold split: option.splits)

lemma handleInput_tidy:
  assumes "tidy D T (incomingDir C) (a_disk a)" and "roomy D T (incomingDir C)" and "\<forall>n. tmp_name (snd (X n)) \<in> T" and "tmp_name x \<in> T"
  shows "tidy D T (incomingDir C) (a_disk (fst (handleInput v L C U e X srt x a m)))"
  using assms by (simp add: handleInput_def Let_def send_input_tidy history_tidy)

text \<open>Only \<open>/quit\<close> makes the input line end the session; every other error is shown instead.\<close>

lemma handleInput_err: "snd (handleInput v L C U e X srt x a m) = (if m = ''/quit'' then Some ErrQuit else None)"
  by (simp add: handleInput_def send_input_def Let_def split: prod.splits option.splits)

section \<open>The session\<close>

text \<open>The names that \<open>ioutil.TempFile\<close> gives during the session.\<close>

definition temps_in :: "string set \<Rightarrow> session \<Rightarrow> bool" where
  "temps_in T E \<longleftrightarrow> (\<forall>n. tmp_name (ce_chat (se_call E n)) \<in> T \<and> (\<forall>i. tmp_name (snd (ce_history (se_call E n) i)) \<in> T))"

lemma callback_tidy:
  assumes "f \<in> set (callbacks E G)" and "tidy D T (incomingDir (se_conf E)) (a_disk (cs_app s))"
    and "roomy D T (incomingDir (se_conf E))" and "temps_in T E"
  shows "tidy D T (incomingDir (se_conf E)) (a_disk (cs_app (fst (f s))))"
proof -
  consider "f = chat_layout G" | "f = loop_step E" | "f = flush_fun" | "f = on_enter E G" | "f = on_ctrl_c"
    using assms(1) by (auto simp: callbacks_def)
  then show ?thesis
  proof cases
    case 2
    with assms(2-4) show ?thesis
      by (auto simp: loop_step_def loop_task_step_def temps_in_def handleMessage_tidy history_tidy split: list.splits loop_task.splits)
  next
    case 4
    with assms(2-4) show ?thesis by (simp add: on_enter_def Let_def case_prod_unfold temps_in_def handleInput_tidy)
  qed (use assms(2) in \<open>simp_all add: chat_layout_def flush_fun_def on_ctrl_c_def Let_def case_prod_unfold\<close>)
qed

lemma called_tidy:
  assumes "called (callbacks E G) s s'" and "tidy D T (incomingDir (se_conf E)) (a_disk (cs_app s))"
    and "roomy D T (incomingDir (se_conf E))" and "temps_in T E"
  shows "tidy D T (incomingDir (se_conf E)) (a_disk (cs_app s'))"
  using assms(1)
proof (induction rule: called.induct)
  case (called_next s1 f s2)
  with callback_tidy [OF called_next(2) called_next.IH assms(3,4)] show ?case by simp
qed (use assms(2) in simp_all)

lemma runChatApp_result:
  assumes "until_error (MainLoop G)" and "tidy D T (incomingDir (se_conf E)) (a_disk a)" and "roomy D T (incomingDir (se_conf E))" and "temps_in T E"
    and "runChatApp E G msgs a = Some (g, a', er)"
  shows "tidy D T (incomingDir (se_conf E)) (a_disk a')" and "(\<exists>g1. gui_Init G (NewGui G) = (g1, None)) \<Longrightarrow> \<exists>g1. g = gui_Close G g1"
proof -
  have l: "tidy D T (incomingDir (se_conf E)) (a_disk (cs_app s'))"
    if "MainLoop G (callbacks E G) \<lparr>cs_gui = g0, cs_app = a, cs_calls = 0, cs_todo = todo\<rparr> = Some (s', r)" for s' r g0 todo
  proof -
    from that assms(1) obtain s1 where
      s1: "called (callbacks E G) \<lparr>cs_gui = g0, cs_app = a, cs_calls = 0, cs_todo = todo\<rparr> s1"
        "(\<exists>f \<in> set (callbacks E G). f s1 = (s', r)) \<or> s' = s1" unfolding until_error_def by blast
    from called_tidy [OF s1(1) _ assms(3,4)] assms(2)
    have "tidy D T (incomingDir (se_conf E)) (a_disk (cs_app s1))" by simp
    with s1(2) callback_tidy [OF _ this assms(3,4)] show ?thesis by fastforce
  qed
  show "tidy D T (incomingDir (se_conf E)) (a_disk a')"
    using assms(2,5) by (auto simp: runChatApp_def split: prod.splits option.splits intro: l)
  show "\<exists>g1. g = gui_Close G g1" if "\<exists>g1. gui_Init G (NewGui G) = (g1, None)"
    using assms(5) that by (auto simp: runChatApp_def split: prod.splits option.splits)
qed

text \<open>
  C34: whatever is typed, received and shared, and in whichever order the callbacks of the
  terminal and the goroutine of the display run, when the chat command ends no local file that
  existed has changed: only files with plain names in the directory for incoming files and
  temporary files are new.  A node that was started has been stopped, and a terminal that was
  initialised has been closed.
\<close>

theorem runChat_session:
  assumes "until_error (MainLoop G)" and "roomy D T (incoming_flag F)" and "temps_in T E"
    and "runChat u mk N F E G msgs D = Some fin"
  shows "tidy D T (incoming_flag F) (ce_disk fin)
    \<and> (\<forall>n. ce_node fin = Some n \<longrightarrow> ctx_done (n_ps n))
    \<and> (\<forall>g. ce_gui fin = Some g \<and> (\<exists>g1. gui_Init G (NewGui G) = (g1, None)) \<longrightarrow> (\<exists>g2. g = gui_Close G g2))"
proof (cases "run_start u mk N F")
  case (Inl er)
  with assms(4) show ?thesis by (auto simp: runChat_def tidy_refl)
next
  case (Inr q)
  obtain prms n where q: "q = (prms, n)" by force
  define a where "a = \<lparr>a_store = Store prms, published = [], a_disk = D, node_id = node_Id n, view_text = None\<rparr>"
  define E' where "E' = E\<lparr>se_conf := chat_conf_of F\<rparr>"
  have E': "incomingDir (se_conf E') = incoming_flag F" "temps_in T E'" "tidy D T (incoming_flag F) (a_disk a)"
    using assms(3) by (simp_all add: E'_def chat_conf_of_def temps_in_def a_def tidy_refl)
  from assms(4) Inr obtain g a' er where r: "runChatApp E' G msgs a = Some (g, a', er)"
    "fin = \<lparr>ce_node = Some (Stop n), ce_gui = Some g, ce_disk = a_disk a', ce_err = er\<rparr>"
    by (auto simp: runChat_def q a_def E'_def)
  from runChatApp_result [OF assms(1) _ _ E'(2) r(1), of D, unfolded E'(1), OF E'(3) assms(2)] r(2)
  show ?thesis by (auto simp: Stop_def)
qed

section \<open>A small terminal\<close>

text \<open>A terminal whose state is its input line, and a main loop that calls every function once.\<close>

fun call_each :: "'g chat_state callback list \<Rightarrow> 'g chat_state \<Rightarrow> 'g chat_state \<times> err option" where
  "call_each [] s = (s, Some (ErrOS ''closed''))"
| "call_each (f # fs) s = (case f s of (s, None) \<Rightarrow> call_each fs s | (s, Some er) \<Rightarrow> (s, Some er))"

lemma call_each_called:
  "called cbs s s1 \<Longrightarrow> set fs \<subseteq> set cbs \<Longrightarrow> call_each fs s1 = (s', er) \<Longrightarrow>
     er \<noteq> None \<and> (\<exists>s2. called cbs s s2 \<and> ((\<exists>f \<in> set cbs. f s2 = (s', er)) \<or> s' = s2))"
proof (induction fs arbitrary: s1)
  case (Cons f fs)
  obtain s2 r where f: "f s1 = (s2, r)" by force
  show ?case
  proof (cases r)
    case None
    with f Cons.prems have "called cbs s s2" by (auto intro: called_next)
    with Cons f None show ?thesis by auto
  next
    case (Some er')
    with f Cons.prems show ?thesis by auto
  qed
qed auto

lemma call_each_until_error: "until_error (\<lambda>cbs s. Some (call_each cbs s))"
  using call_each_called [OF called_refl] unfolding until_error_def by (metis option.inject subset_refl)

definition ex_gui :: "string gui_lib" where
  "ex_gui = \<lparr>NewGui = '''', gui_Init = (\<lambda>g. ('' /quit '', None)), gui_Close = (\<lambda>g. ''closed''), gui_set = (\<lambda>_ g. g),
     gui_Size = (\<lambda>g. (80, 25)), SetView = (\<lambda>_ _ g. (g, Some ErrUnknownView)), SetAttrs = (\<lambda>_ _ g. g),
     SetCurrentView = (\<lambda>_ g. (g, None)), SetKeybinding = (\<lambda>_ _ g. (g, None)), Buffer = (\<lambda>_ g. g),
     view_Clear = (\<lambda>_ g. ''''), SetOrigin = (\<lambda>_ _ _ g. g), MainLoop = (\<lambda>cbs s. Some (call_each cbs s))\<rparr>"

definition ex_session :: session where
  "ex_session = \<lparr>se_codec = text_codec, se_lib = ex_chat_lib, se_conf = ex_conf, se_ui = ex_ui, se_sort = (\<lambda>ms. ms),
     se_call = (\<lambda>_. \<lparr>ce_env = ex_env, ce_chat = ex_chat_env, ce_history = (\<lambda>_. (ex_env, ex_chat_env))\<rparr>)\<rparr>"

definition ex_flags :: flags where
  "ex_flags = (default_flags ''/in'')\<lparr>storeDir := ''/store'', enableLocalDisc := False\<rparr>"

definition ex_node_env :: node_env where
  "ex_node_env = \<lparr>ParseAdId = Inr, NewAdId = Inr ''n1'', new_server = None, NewDiscovery = None, NewWithTTL = (\<lambda>_ _ _. None), Scan = (\<lambda>_. None)\<rparr>"

lemma ex_run_start:
  "\<exists>prms n. run_start (\<lambda>_. (None, [])) (\<lambda>_. storage_init) ex_node_env ex_flags = Inr (prms, n) \<and> n_id n = ''n1''"
  by (simp add: run_start_def paramsFromFlags_def ex_flags_def default_flags_def RateAclFromJSON_def Init_def Let_def StartNode_def
      ad_id_def ex_node_env_def zero_params_def discoveries_def)

lemma ex_quits: "TrimSpace '' /quit '' = ''/quit''"
  by code_simp

theorem runChat_session_witness:
  "\<exists>fin. runChat (\<lambda>_. (None, [])) (\<lambda>_. storage_init) ex_node_env ex_flags ex_session ex_gui [] ex_disk = Some fin
     \<and> ce_err fin = None \<and> ce_gui fin = Some ''closed'' \<and> files (ce_disk fin) ''/home/a.txt'' = Some ''data''"
proof -
  obtain fin where o: "runChat (\<lambda>_. (None, [])) (\<lambda>_. storage_init) ex_node_env ex_flags ex_session ex_gui [] ex_disk = Some fin"
    "ce_err fin = None" "ce_gui fin = Some ''closed''"
    using ex_run_start ex_quits
    by (auto simp: runChat_def runChatApp_def ex_gui_def callbacks_def chat_layout_def loop_step_def flush_fun_def on_enter_def
        handleInput_def Let_def)
  have "Join ''/in'' ` {''.'', ''..'', ''/''} \<subseteq> dirs ex_disk"
    by (simp add: Join_def Clean_def elems_of_def clean_elem_def ex_disk_def)
  then have "roomy ex_disk {''/tmp/vmsg''} (incoming_flag ex_flags)"
    by (simp add: roomy_def ex_flags_def default_flags_def) (simp add: ex_disk_def)
  moreover have "temps_in {''/tmp/vmsg''} ex_session" by (simp add: temps_in_def ex_session_def ex_chat_env_def)
  moreover have "until_error (MainLoop ex_gui)" by (simp add: ex_gui_def call_each_until_error)
  ultimately have "tidy ex_disk {''/tmp/vmsg''} (incoming_flag ex_flags) (ce_disk fin)"
    using runChat_session [OF _ _ _ o(1)] by blast
  moreover have "files ex_disk ''/home/a.txt'' = Some ''data''" by (simp add: ex_disk_def)
  ultimately have "files (ce_disk fin) ''/home/a.txt'' = Some ''data''" unfolding tidy_def by (metis option.distinct(1))
  with o show ?thesis by blast
qed

end
