(* ===== verification/Spec2Isabelle.thy ===== *)
theory Spec2Isabelle
  imports Spread RepoClient VdlTypes Verrors ReaderSafety Network ChatUi
begin

text \<open>
  A verification of the Vanadium messenger (\<^verbatim>\<open>src/\<close>), a store-and-forward messenger in Go.

  \<^bold>\<open>The program.\<close>  A node keeps messages in a directory and passes them on to other nodes it
  discovers.  The package \<^verbatim>\<open>src/ifc\<close> has the metadata of a message, its hash, signature
  and expiry, and the RPC interface with its generated encoders and streams.  The package
  \<^verbatim>\<open>src/internal\<close> has the node: the storage (\<^verbatim>\<open>storage.go\<close>), the service that other nodes
  call (\<^verbatim>\<open>messenger.go\<close>), the access lists with rates in front of it (\<^verbatim>\<open>rateacl.go\<close>), the
  publisher of new messages (\<^verbatim>\<open>pubsub.go\<close>), the goroutines that push messages to each peer
  (\<^verbatim>\<open>peers.go\<close>) from a timed queue (\<^verbatim>\<open>queue.go\<close>), and the start of a node (\<^verbatim>\<open>server.go\<close>).
  The package \<^verbatim>\<open>src/vmsg\<close> is the command: a chat with encrypted messages (\<^verbatim>\<open>chat.go\<close>,
  \<^verbatim>\<open>crypto.go\<close>), a robot (\<^verbatim>\<open>robot.go\<close>) and the flags (\<^verbatim>\<open>main.go\<close>).  A new message is written to the
  storage and published; the goroutine of each active peer reads it from its subscription,
  queues it, and pushes it; the service of the other node checks it, writes it to its own
  storage and publishes it there, from where it goes to its peers and to its application.

  \<^bold>\<open>The theories.\<close>
    \<^item> \<^verbatim>\<open>Prelude\<close>, \<^verbatim>\<open>Sha256\<close>, \<^verbatim>\<open>GoTime\<close>, \<^verbatim>\<open>Base64\<close>, \<^verbatim>\<open>GoStrings\<close>, \<^verbatim>\<open>Aes\<close>, \<^verbatim>\<open>FileSystem\<close>: what the
      source uses of the Go library.  Byte slices and strings are lists of characters, times
      are integers (nanoseconds), durations keep their 64 bits where they can overflow, a
      file system has directories, names and inodes, and the environment \<open>env\<close> of a call
      says what the clock shows and which system calls fail.
    \<^item> \<^verbatim>\<open>Ifc\<close> (\<^verbatim>\<open>ifc/message.go\<close>, the types and errors of \<^verbatim>\<open>ifc/ifc.vdl.go\<close>), \<^verbatim>\<open>Vdl\<close> (the
      generated \<open>VDLWrite\<close>, \<open>VDLRead\<close> and \<open>VDLIsZero\<close> of \<open>Message\<close> and \<open>PeerInfo\<close>, over an
      encoder and a decoder that are lists of tokens), \<^verbatim>\<open>VdlTypes\<close> (a type system for the token
      streams), \<^verbatim>\<open>Verrors\<close> (the registered errors, their constructors and the initialisation).
      They show that a message is read back from the wire unchanged, that the generated codec
      is type safe also towards other versions of the struct, what the hash covers, and that
      the errors of the model are those the constructors make.
    \<^item> \<^verbatim>\<open>Streams\<close>, \<^verbatim>\<open>ServerStubs\<close>, \<^verbatim>\<open>ClientStubs\<close>, \<^verbatim>\<open>RpcLink\<close>, \<^verbatim>\<open>RepoClient\<close> (the generated client and
      server stubs of \<^verbatim>\<open>ifc/ifc.vdl.go\<close> and the loops over them in \<^verbatim>\<open>messenger.go\<close> and \<^verbatim>\<open>peers.go\<close>):
      the handlers over the stubs are the handlers over lists of items, the client code over
      the stubs is the code over a far end, and, over an \<^verbatim>\<open>rpc\<close> library with the contract of the
      locales \<open>push_transport\<close> and \<open>repo_transport\<close>, a push and a pull reach the handlers of the other
      node and do what the handlers promise.
    \<^item> \<^verbatim>\<open>FileStorage\<close> (\<^verbatim>\<open>internal/storage.go\<close>, one definition for each method), \<^verbatim>\<open>StorageSpec\<close>
      (the locale \<open>message_store\<close>, the contract of the interface \<open>MessengerStorage\<close> in terms of an
      abstract view of each message: absent, partial, complete, broken), \<^verbatim>\<open>StorageSafety\<close>
      (interleaved calls, failures and restarts as a step relation, with its invariant),
      \<^verbatim>\<open>StorageFrame\<close> (an operation on one message leaves the others alone),
      \<^verbatim>\<open>StorageProps\<close>, \<^verbatim>\<open>StorageManifest\<close> and \<^verbatim>\<open>ReaderSafety\<close> (the properties).  They show that what can be read
      has the length and the hash that the signed metadata promise, that there is one writer,
      that locks are released on every path, that a transfer can be cut and resumed, that a
      reader stays valid whatever happens to the store afterwards, and
      what \<open>Manifest\<close>, the clean-up pass and the records of the peers do.
    \<^item> \<^verbatim>\<open>RateAcl\<close> (\<^verbatim>\<open>internal/rateacl.go\<close>, \<^verbatim>\<open>internal/counters.go\<close>): the decision of \<open>Authorize\<close>
      and the bound on the calls of a minute.
    \<^item> \<^verbatim>\<open>Messenger\<close> (\<^verbatim>\<open>internal/messenger.go\<close>): \<open>Diff\<close>, \<open>Push\<close>, \<open>ResumeOffset\<close>, \<open>Manifest\<close> and
      \<open>Pull\<close>, over the storage; which checks a published message has passed, and the outcome of each
      handler on its branches.
    \<^item> \<^verbatim>\<open>MsgQueue\<close> (\<^verbatim>\<open>internal/queue.go\<close>): the list as an interpretation of the locale
      \<open>timed_queue\<close>, the goroutine of \<open>Pop\<close> and the calls of \<open>Insert\<close> as a step relation; nothing is
      lost or early, and no wake-up is missed.
    \<^item> \<^verbatim>\<open>PubSub\<close> (\<^verbatim>\<open>internal/pubsub.go\<close>): channels with their buffers as a step relation; no
      panic, complete delivery in order, and the blocking behaviour.
    \<^item> \<^verbatim>\<open>Backoff\<close>, \<^verbatim>\<open>Peer\<close>, \<^verbatim>\<open>DiffSync\<close>, \<^verbatim>\<open>MsgLoop\<close>, \<^verbatim>\<open>Sync\<close>, \<^verbatim>\<open>Spread\<close>, \<^verbatim>\<open>Ring\<close>, \<^verbatim>\<open>PeerManager\<close> (\<^verbatim>\<open>internal/peers.go\<close>):
      retries and their delays; the push of one message; the exchange of manifests; the
      goroutine of a peer, that it brings another node up to date, also when transfers were cut, and
      that a message spreads from node to node along a path; the choice of the active peers on a ring; and the manager of the
      peers with its events.  The push and the exchange are proved over the locales
      \<open>push_target\<close> and \<open>diff_target\<close>, which say what they rely on at the other end and are
      interpreted by the handlers of \<^verbatim>\<open>Messenger\<close>.
    \<^item> \<^verbatim>\<open>Network\<close>: many nodes that relay messages as a step relation over the operations of their
      services and stores; the hops of a message are a path from its origin within the limits.
    \<^item> \<^verbatim>\<open>Util\<close> (\<^verbatim>\<open>internal/util.go\<close>), \<^verbatim>\<open>Node\<close> (\<^verbatim>\<open>internal/server.go\<close>), \<^verbatim>\<open>Crypto\<close> (\<^verbatim>\<open>vmsg/crypto.go\<close>),
      \<^verbatim>\<open>Chat\<close> (\<^verbatim>\<open>vmsg/chat.go\<close>), \<^verbatim>\<open>Robot\<close> (\<^verbatim>\<open>vmsg/robot.go\<close>), \<^verbatim>\<open>MainCmd\<close> (\<^verbatim>\<open>vmsg/main.go\<close>),
      \<^verbatim>\<open>ChatUi\<close> (the terminal of \<^verbatim>\<open>vmsg/chat.go\<close> and the command \<open>runChat\<close>): the
      creation of messages, the node, the commands, and what a chat session does to local files.
    \<^item> \<^verbatim>\<open>ExampleCodec\<close>: a codec that satisfies what the storage assumes of \<^verbatim>\<open>vom\<close>; the witnesses
      of the theorems run on it.
  This theory has what spans all of them: a message that is typed at one node is shown at another.

  \<^bold>\<open>State, errors and loops.\<close>  A method becomes a function from the state of its object to the
  new state and the results; an error is a value of the datatype \<open>err\<close>, with the identifiers and
  retry actions the source registers.  A call that changes the state before it fails returns
  the changed state with the error.  Loops are structural recursion, or functions with a measure
  (\<open>diff_batches\<close>, \<open>chunks\<close>, \<open>push_recv_stub\<close>), or, where the source may loop forever, partial
  functions whose value \<open>None\<close> means that the loop does not end (\<open>backoff\<close>, \<open>push_loop\<close>,
  \<open>skip_active\<close>, \<open>diff_phase\<close>); for these it is proved when they return.  The loop of \<open>VDLRead\<close>
  over the fields of a struct has the number of the remaining tokens as fuel, which is enough
  because every field consumes one.  Goroutines that share state are inductive step relations
  with every interleaving.

  \<^bold>\<open>Parameters and hypotheses.\<close>  Code that is not in the repository is a parameter: \<open>codec\<close> (the
  \<^verbatim>\<open>vom\<close> encoding of files; \<open>codec_ok\<close>: decoding inverts encoding), \<open>lib\<close> (blessings, access lists,
  rates, the signature check and retry actions), \<open>chat_lib\<close> (\<^verbatim>\<open>gzip\<close>, \<^verbatim>\<open>mime/multipart\<close> and
  the principal; \<open>gzip_ok\<close>, \<open>multipart_ok\<close> and \<open>signs\<close> state that they invert each other), the wire
  types of blessings and discharges (\<open>wire_ok\<close>), \<open>rpc_client\<close> (the \<^verbatim>\<open>rpc\<close> library; \<open>push_transport\<close>,
  \<open>repo_transport\<close>), \<open>gui_lib\<close> (\<^verbatim>\<open>gocui\<close>; \<open>until_error\<close>: the main loop calls the registered functions
  until one returns an error), the error package (\<open>verror_package\<close>), \<open>ui\<close> (how things look), and the
  directory listing and the iteration order of maps, which are arbitrary.  The theorems that need
  one of these hypotheses have a witness with a concrete instance of it.

  \<^bold>\<open>Not modelled.\<close>  The Go interface types of \<^verbatim>\<open>ifc.vdl.go\<close> and \<^verbatim>\<open>storage.go\<close> have no code (the
  contracts they stand for are the locales), the documentation strings of the descriptors and the
  long descriptions of the commands are text, and \<^verbatim>\<open>doc.go\<close> is a comment; the parsing of the command
  line, signals, logging, the globbing of names and the export of statistics belong to libraries; the scripts for Android
  and Kubernetes are not Go, and the \<^verbatim>\<open>.vdl\<close> files are the sources of the generated files.
  The mount table, the discovery service and the transport are the environment of the model:
  their events and answers are arbitrary.

  \<^bold>\<open>What the theorems leave open.\<close>  The safety theorems hold for every interleaving and every
  failing system call; the theorems that something is delivered assume, as they state, working
  system calls and nodes that let the calls through, and follow one goroutine at a time.  The
  clock only matters through the environments; that time passes is not a theorem.
\<close>

section \<open>A message from one application to another\<close>

text \<open>The lines an application shows for a message with a text and perhaps a received file.\<close>

definition shown :: "ui \<Rightarrow> time \<Rightarrow> message \<Rightarrow> string \<Rightarrow> string \<Rightarrow> string" where
  "shown U t msg msgText filename =
     msg_prefix U t msg @ '' <'' @ msg_sender U msg @ ''> '' @ yellow U msgText @ newline
     @ (if filename = '''' then [] else
          msg_prefix U t msg @ '' Received shared file from '' @ msg_sender U msg @ '': '' @ yellow U filename @ newline)"

lemma handleMessage_shows:
  assumes "fs_idle v e (a_store b) (Id msg)" and "fs_view v (a_store b) (Id msg) = Complete msg content"
    and "decryptChatMessage L C y (a_disk b) content (incomingDir C) = (D', Inr (msgText, f))"
    and "msgText \<noteq> ''''" and "hd msgText \<noteq> CHR 0x01"
  shows "\<exists>b'. handleMessage v L C U e y b msg = b' \<and> a_disk b' = D'
    \<and> view_text b' = map_option (\<lambda>w. w @ shown U (now e) msg msgText f) (view_text b)"
proof -
  obtain s r where o: "OpenRead v e (a_store b) (Id msg) = (s, Inr (msg, r))" "read_rest s r = content"
    using fs_read_back [OF assms(1,2)] by blast
  have "\<not> HasPrefix msgText (ctrl k)" for k
    using assms(4,5) by (cases msgText) (auto simp: HasPrefix_def ctrl_def)
  with o assms(3,4) show ?thesis
    by (simp add: handleMessage_def handle_text_def Let_def print_view_def shown_def option.map_comp comp_def)
qed

lemma decryptChatMessage_key:
  "encryptionKey C' = encryptionKey C \<Longrightarrow> decryptChatMessage L C' = decryptChatMessage L C"
  by (intro ext) (simp add: decryptChatMessage_def)

text \<open>
  C5: a text with an optional attachment that is sent at one node is stored there, pushed by
  the goroutine \<open>p\<close> of that node to the node \<open>M\<close>, published there, and shown by an
  application with the same key exactly as it was typed, with the sender; the attachment is
  written byte for byte to a new file.
\<close>

theorem chat_delivered:
  assumes "signs CL (PublicKey L) (Verify L)" and "gzip_ok CL" and "multipart_ok CL"
    and "sends CL C x (a_disk a) txt fname part" and "txt \<noteq> ''''" and "hd txt \<noteq> CHR 0x01"
    and "fs_idle v e (a_store a) (uuid x)" and "fs_view v (a_store a) (uuid x) = Absent"
    and "snd (PrepareDischarges CL (default_blessings CL)) = zero_time"
    and "now e \<le> t_created x + 15 * minute" and "now e' \<le> t_created x + 15 * minute"
    and "fs_idle v e' (store M) (uuid x)" and "fs_view v (store M) (uuid x) = Absent"
    and "snd (Authorize L (now e') (RateAclIn (params M)) call) = None"
    and "snd (Authorize L (now e') (RateAclSender (params M))
           (call\<lparr>RemoteBlessings := default_blessings CL,
                 RemoteDischarges := fst (PrepareDischarges CL (default_blessings CL))\<rparr>)) = None"
    and "MaxMessageLength (params M) \<le> 0 \<or> int (length (sealed CL C x txt part)) \<le> MaxMessageLength (params M)"
    and "calm y" and "encryptionKey C' = encryptionKey C"
    and "received txt part (incomingDir C') (a_disk b) = (D', Inr (txt, f))"
  shows "\<exists>a' msg p' M' b'. sendMessage v CL C e x a txt fname = (a', None) \<and> published a' = published a @ [msg]
    \<and> pushMessage v L e (node_remote v L e' call) (p\<lparr>p_store := a_store a'\<rparr>) M (Id msg) = Some (p', M', None)
    \<and> notifier M' = map_option (\<lambda>ms. ms @ [with_hop p msg]) (notifier M)
    \<and> handleMessage v CL C' U e' y (b\<lparr>a_store := store M'\<rparr>) (with_hop p msg) = b' \<and> a_disk b' = D'
    \<and> view_text b' = map_option (\<lambda>w. w @ shown U (now e') (with_hop p msg) txt f) (view_text b)"
proof -
  let ?c = "sealed CL C x txt part"
  have pa: "calm x" "attachment_part x (a_disk a) fname = Inr part" "fits (boundary x) txt part" "length (rand_iv x) = 16"
    "- 1 \<le> compressionLevel C" "compressionLevel C \<le> 9" "length (boundary x) < 2 ^ 16"
    using assms(4) by (simp_all add: sends_def)
  obtain a' sg where s: "sendMessage v CL C e x a txt fname = (a', None)"
    "published a' = published a @ [chat_message CL C x txt part sg]" "fs_idle v e (a_store a') (uuid x)"
    "fs_view v (a_store a') (uuid x) = Complete (chat_message CL C x txt part sg) ?c"
    "\<And>t. Validate (PublicKey L) (Verify L) t (chat_message CL C x txt part sg) = Expired t (chat_message CL C x txt part sg)"
    using sendMessage_stores [OF assms(1) pa(1,2) assms(7,8), of C "txt"] by blast
  define msg where "msg = chat_message CL C x txt part sg"
  have ms: "Id msg = uuid x" "Length msg = int (length ?c)" "Sha256 msg = sha256 ?c" "Hops msg = []" "SenderBlessings msg = default_blessings CL"
    "SenderDischarges msg = fst (PrepareDischarges CL (default_blessings CL))"
    by (simp_all add: msg_def)
  have ex: "Expired (now e) msg = None" "Expired (now e') msg = None"
    using assms(9-11) by (simp_all add: Expired_def msg_def)
  let ?p = "p\<lparr>p_store := a_store a'\<rparr>" and ?m = "with_hop p msg"
  have h: "with_hop ?p msg = ?m" by (simp add: with_hop_def)
  have "has_message v e ?p msg ?c" using s(3,4) ms ex(1) by (simp add: has_message_def msg_def)
  moreover have "admitted L e' M call (with_hop ?p msg)"
    using assms(14-16) s(5) [of "now e'"] ms ex(2) unfolding h
    by (auto simp: admitted_def sender_call_def with_hop_def Validate_hops msg_def)
  moreover have "quiet e'" using assms(12) by (simp add: fs_idle_def)
  ultimately obtain p' M' where q: "pushMessage v L e (node_remote v L e' call) ?p M (Id msg) = Some (p', M', None)"
    "fs_idle v e' (store M') (Id ?m)" "fs_view v (store M') (Id ?m) = Complete ?m ?c"
    "notifier M' = map_option (\<lambda>ms. ms @ [?m]) (notifier M)"
    using pushMessage_fresh [of v e ?p msg ?c e' L M call] assms(12,13) ms(1) unfolding h by auto
  have "decryptChatMessage CL C' y (a_disk b) ?c (incomingDir C') = (D', Inr (txt, f))"
    using decryptChatMessage_sealed [OF assms(2,3) pa(3-7) assms(17)] assms(19)
    by (simp add: decryptChatMessage_key [OF assms(18)])
  then show ?thesis
    using handleMessage_shows [of v e' "b\<lparr>a_store := store M'\<rparr>" ?m ?c CL C' y D' "txt" f U] q s(1,2) assms(5,6)
    by (auto simp: msg_def)
qed

definition ex_chat_node :: Messenger where
  "ex_chat_node = ex_node\<lparr>params := (params ex_node)\<lparr>MaxMessageLength := 0\<rparr>\<rparr>"

definition ex_verifier :: lib where
  "ex_verifier = ex_lib\<lparr>Verify := (\<lambda>sg _ h. sg = ''sig'' @ h)\<rparr>"

theorem chat_delivered_witness:
  "\<exists>a' msg p' M' b'.
     sendMessage text_codec ex_chat_lib ex_conf ex_env ex_chat_env ex_app ''hello'' ''/home/a.txt'' = (a', None)
     \<and> published a' = [msg]
     \<and> pushMessage text_codec ex_verifier ex_env (node_remote text_codec ex_verifier ex_env ex_self) (ex_peer (a_store a'))
         ex_chat_node (Id msg) = Some (p', M', None)
     \<and> handleMessage text_codec ex_chat_lib ex_conf ex_ui ex_env ex_chat_env (ex_app\<lparr>a_store := store M'\<rparr>)
         (msg\<lparr>Hops := Hops msg @ [''n1'']\<rparr>) = b'
     \<and> files (a_disk b') ''/in/a.txt'' = Some ''data''"
proof -
  have sg: "signs ex_chat_lib (PublicKey ex_verifier) (Verify ex_verifier)"
    by (simp add: signs_def ex_chat_lib_def ex_verifier_def)
  have s: "sends ex_chat_lib ex_conf ex_chat_env (a_disk ex_app) ''hello'' ''/home/a.txt'' (Some (''a.txt'', ''data''))"
    using ex_sends by (simp add: ex_app_def)
  have i: "fs_idle text_codec ex_env (a_store ex_app) (uuid ex_chat_env)" "fs_view text_codec (a_store ex_app) (uuid ex_chat_env) = Absent"
    "fs_idle text_codec ex_env (store ex_chat_node) (uuid ex_chat_env)" "fs_view text_codec (store ex_chat_node) (uuid ex_chat_env) = Absent"
    by (simp_all add: ex_app_def ex_chat_env_def ex_chat_node_def ex_node_def init_idle text_codec_ok)
  have ds: "PrepareDischarges ex_chat_lib ''alice'' = ([], zero_time)" "default_blessings ex_chat_lib = ''alice''"
    by (simp_all add: ex_chat_lib_def)
  have "same_key ex_verifier ex_self" by (simp add: same_key_def ex_verifier_def ex_lib_def ex_self_def)
  then have au: "snd (Authorize ex_verifier t r ex_self) = None" for t r by (simp add: Authorize_def)
  have sc: "ex_self\<lparr>RemoteBlessings := ''alice'', RemoteDischarges := []\<rparr> = ex_self" by (simp add: ex_self_def)
  have j: "Join ''/in'' (Base ''a.txt'') = ''/in/a.txt''"
    by (simp add: Join_def Base_def Clean_def elems_of_def clean_elem_def)
  have r: "received ''hello'' (Some (''a.txt'', ''data'')) (incomingDir ex_conf) (a_disk ex_app)
      = (put_file ''/in/a.txt'' ''data'' ex_disk, Inr (''hello'', ''/in/a.txt''))"
    by (simp add: received_def j ex_disk_def ex_app_def ex_conf_def Let_def)
  have t: "now ex_env \<le> t_created ex_chat_env + 15 * minute" by (simp add: ex_chat_env_def minute_def)
  have p: "(ex_peer storage_init)\<lparr>p_store := s\<rparr> = ex_peer s" "with_hop (ex_peer storage_init) m = m\<lparr>Hops := Hops m @ [''n1'']\<rparr>" for s m
    by (simp_all add: ex_peer_def with_hop_def)
  from chat_delivered [OF sg ex_chat_lib_ok s _ _ i(1,2) _ t t i(3,4) au _ _ ex_calm refl r, of "ex_peer storage_init" ex_ui]
  show ?thesis by (fastforce simp: ds sc au p ex_chat_node_def ex_app_def)
qed

end
